(* ===== verification/Prelude.thy ===== *)
theory Prelude
  imports Main "HOL-Library.Word"
begin

text \<open>
  Shared vocabulary of the NullOS development: the C integer types as words, little-endian
  byte memory, and the generic lemmas on words and lists that the component theories use.
\<close>

unbundle bit_operations_syntax

section \<open>C integer types\<close>

type_synonym u8 = "8 word"
type_synonym u16 = "16 word"
type_synonym u32 = "32 word"
type_synonym u64 = "64 word"

named_theorems nos_simps \<open>facts that evaluate the model's small operations\<close>

section \<open>Loop counters\<close>

text \<open>
  A C loop \<open>for (uint32_t i = a; i < n; i++)\<close> never wraps its counter: inside the loop
  \<open>i < n\<close>, so \<open>i + 1\<close> does not overflow. These facts give the termination
  measure \<open>n - i\<close> and the arithmetic of one step.
\<close>

lemma unat_Suc_less:
  fixes i n :: "'a::len word"
  assumes "i < n"
  shows "unat (i + 1) = Suc (unat i)"
  using assms by unat_arith

lemma loop_measure [simp]:
  fixes i n :: "'a::len word"
  assumes "i < n"
  shows "unat n - unat (i + 1) < unat n - unat i"
  using assms unat_Suc_less[OF assms] by (simp add: word_less_nat_alt)

lemma unat_less_step:
  fixes i n :: "'a::len word"
  assumes "i < n"
  shows "i + 1 \<le> n"
  using assms unat_Suc_less[OF assms] by (simp add: word_less_nat_alt word_le_nat_alt)

lemma word_less_Suc: "x \<noteq> -1 \<Longrightarrow> x < x + (1 :: 'a::len word)"
proof -
  assume "x \<noteq> -1"
  then have "1 + x \<noteq> 0" by (metis add.commute eq_neg_iff_add_eq_0)
  then show ?thesis using unatSuc[of x] by (simp add: word_less_nat_alt add.commute)
qed

section \<open>Masks\<close>

lemma unat_and_not_mask:
  fixes x :: "'a::len word"
  shows "unat (x AND NOT (mask n)) = unat x div 2 ^ n * 2 ^ n"
proof -
  have "unat (x AND NOT (mask n)) = push_bit n (drop_bit n (unat x))"
    by (rule bit_eqI) (auto simp: bit_simps dest: bit_imp_le_length)
  then show ?thesis by (simp add: push_bit_eq_mult drop_bit_eq_div)
qed

lemma unat_and_mask:
  fixes x :: "'a::len word"
  shows "unat (x AND mask n) = unat x mod 2 ^ n"
proof -
  have "unat (x AND mask n) = take_bit n (unat x)"
    by (rule bit_eqI) (auto simp: bit_simps dest: bit_imp_le_length)
  then show ?thesis by (simp add: take_bit_eq_mod)
qed

lemma unat_ucast:
  "unat (ucast (x :: 'a::len word) :: 'b::len word) = unat x mod 2 ^ LENGTH('b)"
  by (simp add: unsigned_ucast_eq take_bit_eq_mod)

lemma of_nat_unat_id: "of_nat (unat x) = (x :: 'a::len word)"
  by simp

lemma unat_u32: "unat (x :: u32) < 0x100000000"
proof -
  have "unat x < 2 ^ LENGTH(32)" by (rule unsigned_less)
  then show ?thesis by simp
qed

text \<open>Widening conversions keep the value.\<close>

lemma unat_widen [simp]:
  "unat (ucast (x :: u16) :: u32) = unat x" "unat (ucast (y :: u8) :: u32) = unat y" "unat (ucast (y :: u8) :: u16) = unat y"
proof -
  have x: "unat x < 2 ^ LENGTH(16)" and y: "unat y < 2 ^ LENGTH(8)" by (rule unsigned_less)+
  then show "unat (ucast (x :: u16) :: u32) = unat x" "unat (ucast (y :: u8) :: u32) = unat y"
    "unat (ucast (y :: u8) :: u16) = unat y"
    by (simp_all add: unat_ucast)
qed

lemma unat_u8: "unat (x :: u8) < 0x100"
proof -
  have "unat x < 2 ^ LENGTH(8)" by (rule unsigned_less)
  then show ?thesis by simp
qed

lemma unat_u16: "unat (x :: u16) < 0x10000"
proof -
  have "unat x < 2 ^ LENGTH(16)" by (rule unsigned_less)
  then show ?thesis by simp
qed

lemma word_full_mask: "(0xFFFFFFFF :: u32) = mask 32"
  by (simp add: mask_eq_exp_minus_1)

lemma page_mask:
  "(4096 - 1 :: u32) = mask 12" "(4096 - 1 :: u64) = mask 12" "(0xFFF :: u32) = mask 12"
  "(0xFFFFF000 :: u32) = NOT (mask 12)"
  by (simp_all add: mask_eq_exp_minus_1)

lemma aligned_and_mask_iff:
  fixes x :: "'a::len word"
  shows "x AND mask n = 0 \<longleftrightarrow> unat x mod 2 ^ n = 0"
  using unat_and_mask[of x n] by (metis unat_0 word_unat_eq_iff)

section \<open>Byte memory\<close>

text \<open>
  Physical memory is a function from addresses to bytes; a \<open>uint32_t\<close> access reads or writes
  four consecutive bytes, least significant first (x86).
\<close>

type_synonym mem = "u32 \<Rightarrow> u8"

definition read32 :: "mem \<Rightarrow> u32 \<Rightarrow> u32" where
  "read32 m a = ucast (m a) OR push_bit 8 (ucast (m (a + 1)))
     OR push_bit 16 (ucast (m (a + 2))) OR push_bit 24 (ucast (m (a + 3)))"

definition write32 :: "mem \<Rightarrow> u32 \<Rightarrow> u32 \<Rightarrow> mem" where
  "write32 m a v = m(a := ucast v, a + 1 := ucast (drop_bit 8 v),
     a + 2 := ucast (drop_bit 16 v), a + 3 := ucast (drop_bit 24 v))"

lemma split_bytes:
  "(ucast (ucast v :: u8) :: u32) OR push_bit 8 (ucast (ucast (drop_bit 8 v) :: u8))
     OR push_bit 16 (ucast (ucast (drop_bit 16 v) :: u8))
     OR push_bit 24 (ucast (ucast (drop_bit 24 v) :: u8)) = v"
proof (rule bit_eqI)
  fix n assume "possible_bit TYPE(u32) n"
  then have n: "n < 32" by (simp add: possible_bit_def)
  consider "n < 8" | "8 \<le> n" "n < 16" | "16 \<le> n" "n < 24" | "24 \<le> n" by linarith
  then show "bit ((ucast (ucast v :: u8) :: u32) OR push_bit 8 (ucast (ucast (drop_bit 8 v) :: u8))
     OR push_bit 16 (ucast (ucast (drop_bit 16 v) :: u8))
     OR push_bit 24 (ucast (ucast (drop_bit 24 v) :: u8))) n = bit v n"
    using n by cases (auto simp: bit_simps)
qed

lemma read32_write32 [simp]: "read32 (write32 m a v) a = v"
  by (simp add: read32_def write32_def split_bytes)

text \<open>Two accesses are disjoint when their addresses differ by more than three both ways.\<close>

definition sep32 :: "u32 \<Rightarrow> u32 \<Rightarrow> bool" where
  "sep32 a b \<longleftrightarrow> (\<forall>i \<in> {0, 1, 2, 3}. \<forall>j \<in> {0, 1, 2, 3}. a + i \<noteq> b + j)"

lemma write32_other: "(\<forall>i \<in> {0, 1, 2, 3}. b \<noteq> a + i) \<Longrightarrow> write32 m a v b = m b"
  by (simp add: write32_def)

lemma read32_cong:
  "(\<And>j. j \<in> {0, 1, 2, 3} \<Longrightarrow> m' (b + j) = m (b + j)) \<Longrightarrow> read32 m' b = read32 m b"
  using add_0_right[of b] unfolding read32_def by (metis insertCI)

lemma read32_write32_sep:
  assumes "sep32 a b"
  shows "read32 (write32 m a v) b = read32 m b"
proof (rule read32_cong)
  fix j :: u32 assume "j \<in> {0, 1, 2, 3}"
  then have "\<forall>i \<in> {0, 1, 2, 3}. b + j \<noteq> a + i" using assms unfolding sep32_def by metis
  then show "write32 m a v (b + j) = m (b + j)" by (rule write32_other)
qed

lemma sep32_aligned:
  assumes "a AND 3 = 0" "b AND 3 = 0" "a \<noteq> b"
  shows "sep32 a b"
proof -
  have m: "(3 :: u32) = mask 2" by (simp add: mask_eq_exp_minus_1)
  have al: "unat a mod 4 = 0" "unat b mod 4 = 0"
    using assms(1,2) aligned_and_mask_iff[of a 2] aligned_and_mask_iff[of b 2] unfolding m by simp_all
  have no_ov: "unat x + k < 2 ^ 32" if "unat x mod 4 = 0" "k < 4" for x :: u32 and k
  proof -
    have "unat x < 2 ^ 32" using unsigned_less[of x] by simp
    moreover obtain q where "unat x = 4 * q"
      using \<open>unat x mod 4 = 0\<close> by (auto simp: mod_eq_0_iff_dvd elim!: dvdE)
    ultimately show ?thesis using that(2) by simp
  qed
  have div: "unat (x + of_nat k) div 4 = unat x div 4" if "unat x mod 4 = 0" "k < 4" for x :: u32 and k
  proof -
    have "unat (x + of_nat k) = unat x + k"
      using no_ov[OF that] that(2) by (simp add: unat_word_ariths unat_of_nat)
    then show ?thesis using that by presburger
  qed
  have "unat a div 4 \<noteq> unat b div 4"
    using al assms(3) by (metis div_mult_mod_eq word_unat_eq_iff)
  then have ne: "a + of_nat i \<noteq> b + of_nat j" if "i < 4" "j < 4" for i j
    using div[OF al(1) that(1)] div[OF al(2) that(2)] by metis
  show ?thesis
    using ne[of 0 0] ne[of 0 1] ne[of 0 2] ne[of 0 3] ne[of 1 0] ne[of 1 1] ne[of 1 2] ne[of 1 3]
      ne[of 2 0] ne[of 2 1] ne[of 2 2] ne[of 2 3] ne[of 3 0] ne[of 3 1] ne[of 3 2] ne[of 3 3]
    by (simp add: sep32_def)
qed

lemma and_mask_add_shifted:
  fixes x y :: "'a::len word"
  shows "(x + 2 ^ n * y) AND mask n = x AND mask n"
proof (cases "n < LENGTH('a)")
  case True
  then have d: "(2 :: nat) ^ n dvd 2 ^ LENGTH('a)" by (simp add: le_imp_power_dvd)
  have "unat (of_nat (2 ^ n) :: 'a word) = 2 ^ n mod 2 ^ LENGTH('a)" by (rule unat_of_nat)
  then have p: "unat (2 ^ n :: 'a word) = 2 ^ n" using True by simp
  have "unat (x + 2 ^ n * y) mod 2 ^ n = (unat x + 2 ^ n * unat y) mod 2 ^ n"
    by (simp add: unat_word_ariths mod_mod_cancel[OF d] p mod_add_right_eq)
  also have "\<dots> = unat x mod 2 ^ n" by simp
  finally show ?thesis by (simp add: word_unat_eq_iff unat_and_mask)
next
  case False
  then have "(2 ^ n :: 'a word) = 0" by (simp add: not_less)
  then show ?thesis by (simp only: mult_zero_left add_0_right)
qed

text \<open>The elements of a word-aligned array of 32-bit words do not overlap.\<close>

lemma aligned_index: "b AND 3 = 0 \<Longrightarrow> (b + 4 * x) AND (3 :: u32) = 0"
  using and_mask_add_shifted[of b 2 x] by (simp add: mask_eq_exp_minus_1)

lemma word_index_inj:
  assumes "i < 2 ^ 30" "j < 2 ^ 30" "(b :: u32) + 4 * of_nat i = b + 4 * of_nat j"
  shows "i = j"
proof -
  have "(of_nat (4 * i) :: u32) = of_nat (4 * j)" using assms(3) by simp
  then have "unat (of_nat (4 * i) :: u32) = unat (of_nat (4 * j) :: u32)" by (rule arg_cong)
  then have "4 * i mod 2 ^ 32 = 4 * j mod 2 ^ 32" unfolding unat_of_nat by simp
  then show ?thesis using assms(1,2) by simp
qed

lemma sep32_index:
  assumes "b AND 3 = 0" "i < 2 ^ 30" "j < 2 ^ 30" "i \<noteq> j"
  shows "sep32 (b + 4 * of_nat i) (b + 4 * of_nat j)"
  using assms word_index_inj[of i j b] by (intro sep32_aligned aligned_index) auto

end
