(* ===== verification/Allocator.thy ===== *)
theory Allocator
  imports Prelude
begin

text \<open>
  The contract of an allocator of units numbered by 32-bit words, 0 meaning failure: a set of
  available units, a set of owned units, and the effect of allocation and release on both. The
  page-frame allocator (kernel/memory/pmm.c) and the cluster allocator of the FAT
  (kernel/fs/fat16.c) provide it.
\<close>

locale allocator =
  fixes ok :: "'s \<Rightarrow> bool"
    and avail :: "'s \<Rightarrow> u32 \<Rightarrow> bool"
    and owned :: "'s \<Rightarrow> u32 \<Rightarrow> bool"
    and alloc :: "'s \<Rightarrow> u32 \<times> 's"
    and release :: "u32 \<Rightarrow> 's \<Rightarrow> 's"
  assumes owned_not_avail: "owned s a \<Longrightarrow> \<not> avail s a"
    and alloc_none: "ok s \<Longrightarrow> alloc s = (0, s') \<Longrightarrow> s' = s \<and> \<not> avail s a"
    and alloc_avail: "ok s \<Longrightarrow> alloc s = (a, s') \<Longrightarrow> a \<noteq> 0 \<Longrightarrow> ok s' \<and> avail s a"
    and alloc_effect: "ok s \<Longrightarrow> alloc s = (a, s') \<Longrightarrow> a \<noteq> 0 \<Longrightarrow>
          (avail s' b \<longleftrightarrow> b \<noteq> a \<and> avail s b) \<and> (owned s' b \<longleftrightarrow> b = a \<or> owned s b)"
    and release_effect: "ok s \<Longrightarrow> owned s a \<Longrightarrow> ok (release a s)
          \<and> (avail (release a s) b \<longleftrightarrow> b = a \<or> avail s b)
          \<and> (owned (release a s) b \<longleftrightarrow> b \<noteq> a \<and> owned s b)"
begin

lemma alloc_fresh: "ok s \<Longrightarrow> alloc s = (a, s') \<Longrightarrow> a \<noteq> 0 \<Longrightarrow> owned s b \<Longrightarrow> b \<noteq> a"
  using alloc_avail owned_not_avail by blast

lemma alloc_ok: "ok s \<Longrightarrow> alloc s = (a, s') \<Longrightarrow> ok s'"
  using alloc_avail[of s a s'] alloc_none[of s s'] by (cases "a = 0") simp_all

lemma alloc_mono: "ok s \<Longrightarrow> alloc s = (a, s') \<Longrightarrow> owned s b \<Longrightarrow> owned s' b"
  using alloc_effect[of s a s' b] alloc_none[of s s'] by (cases "a = 0") simp_all

lemma alloc_succeeds_iff: "ok s \<Longrightarrow> alloc s = (a, s') \<Longrightarrow> a \<noteq> 0 \<longleftrightarrow> (\<exists>b. avail s b)"
  using alloc_none alloc_avail by blast

lemma alloc_release_avail:
  assumes "ok s" "alloc s = (a, s')" "a \<noteq> 0"
  shows "avail (release a s') b = avail s b \<and> owned (release a s') b = owned s b"
  using release_effect[of s' a b] alloc_effect[OF assms, of a] alloc_effect[OF assms, of b]
    alloc_ok[OF assms(1,2)] alloc_avail[OF assms] owned_not_avail[of s a] by blast

end

end
