(* ===== verification/Pmm.thy ===== *)
theory Pmm
  imports Allocator
begin

text \<open>
  The physical memory manager (kernel/memory/pmm.c): a bitmap of 2048 page frames with a
  managed-page count and a used-page count. Page numbers are natural numbers, since
  \<open>addr / PAGE_SIZE\<close> is below \<open>2 ^ 20\<close> and sums of two such numbers do not wrap; addresses,
  byte sizes and the two counters are 32-bit words, so their wrap-around is kept.
  The bitmap lives at the fixed address 0x202000 in the C code and is a list of 64 words here.
\<close>

section \<open>State and operations\<close>

definition PAGE_SIZE :: nat where "PAGE_SIZE = 4096"
definition PMM_LIMIT_ADDR :: u32 where "PMM_LIMIT_ADDR = 0x800000"
definition PMM_MAX_PAGES :: nat where "PMM_MAX_PAGES = 2048"
definition PMM_BITMAP_SIZE :: nat where "PMM_BITMAP_SIZE = 64"

record pmm =
  pmm_bitmap :: "u32 list"
  pmm_total :: u32
  pmm_used :: u32

definition bitmap_set :: "u32 list \<Rightarrow> nat \<Rightarrow> u32 list" where
  "bitmap_set bm page = bm[page div 32 := bm ! (page div 32) OR push_bit (page mod 32) 1]"

definition bitmap_clear :: "u32 list \<Rightarrow> nat \<Rightarrow> u32 list" where
  "bitmap_clear bm page = bm[page div 32 := bm ! (page div 32) AND NOT (push_bit (page mod 32) 1)]"

definition bitmap_test :: "u32 list \<Rightarrow> nat \<Rightarrow> bool" where
  "bitmap_test bm page = (drop_bit (page mod 32) (bm ! (page div 32)) AND 1 \<noteq> 0)"

definition take_page :: "nat \<Rightarrow> pmm \<Rightarrow> pmm" where
  "take_page page s = s\<lparr>pmm_bitmap := bitmap_set (pmm_bitmap s) page, pmm_used := pmm_used s + 1\<rparr>"

definition give_page :: "nat \<Rightarrow> pmm \<Rightarrow> pmm" where
  "give_page page s = s\<lparr>pmm_bitmap := bitmap_clear (pmm_bitmap s) page, pmm_used := pmm_used s - 1\<rparr>"

function mark_used_loop :: "nat \<Rightarrow> nat \<Rightarrow> nat \<Rightarrow> pmm \<Rightarrow> pmm" where
  "mark_used_loop page n i s =
     (if i < n \<and> page + i < unat (pmm_total s)
      then mark_used_loop page n (Suc i)
             (if \<not> bitmap_test (pmm_bitmap s) (page + i) then take_page (page + i) s else s)
      else s)"
  by pat_completeness auto
termination by (relation "measure (\<lambda>(page, n, i, s). n - i)") auto

definition pmm_mark_used :: "u32 \<Rightarrow> u32 \<Rightarrow> pmm \<Rightarrow> pmm" where
  "pmm_mark_used addr sz s =
     mark_used_loop (unat addr div PAGE_SIZE) (unat (sz + 4096 - 1) div PAGE_SIZE) 0 s"

function mark_free_loop :: "nat \<Rightarrow> nat \<Rightarrow> nat \<Rightarrow> pmm \<Rightarrow> pmm" where
  "mark_free_loop page n i s =
     (if i < n \<and> page + i < unat (pmm_total s)
      then mark_free_loop page n (Suc i)
             (if bitmap_test (pmm_bitmap s) (page + i) then give_page (page + i) s else s)
      else s)"
  by pat_completeness auto
termination by (relation "measure (\<lambda>(page, n, i, s). n - i)") auto

definition pmm_mark_free :: "u32 \<Rightarrow> u32 \<Rightarrow> pmm \<Rightarrow> pmm" where
  "pmm_mark_free addr sz s =
     mark_free_loop (unat addr div PAGE_SIZE) (unat (sz + 4096 - 1) div PAGE_SIZE) 0 s"

definition pmm_free_pages :: "pmm \<Rightarrow> u32" where
  "pmm_free_pages s = pmm_total s - pmm_used s"

definition pmm_total_pages :: "pmm \<Rightarrow> u32" where
  "pmm_total_pages s = pmm_total s"

text \<open>The inner loop of \<open>pmm_alloc_page\<close>: \<open>Some\<close> is a \<open>return\<close>, \<open>None\<close> falls through.\<close>

function alloc_bits :: "pmm \<Rightarrow> nat \<Rightarrow> nat \<Rightarrow> (u32 \<times> pmm) option" where
  "alloc_bits s i b =
     (if b < 32 then
        (let page = i * 32 + b in
         if page \<ge> unat (pmm_total s) then Some (0, s)
         else if \<not> bitmap_test (pmm_bitmap s) page
         then Some (of_nat page * 4096, take_page page s)
         else alloc_bits s i (Suc b))
      else None)"
  by pat_completeness auto
termination by (relation "measure (\<lambda>(s, i, b). 32 - b)") auto

function alloc_words :: "pmm \<Rightarrow> nat \<Rightarrow> u32 \<times> pmm" where
  "alloc_words s i =
     (if i < PMM_BITMAP_SIZE then
        (if pmm_bitmap s ! i = 0xFFFFFFFF then alloc_words s (Suc i)
         else case alloc_bits s i 0 of
                Some r \<Rightarrow> r
              | None \<Rightarrow> alloc_words s (Suc i))
      else (0, s))"
  by pat_completeness auto
termination by (relation "measure (\<lambda>(s, i). PMM_BITMAP_SIZE - i)") auto

definition pmm_alloc_page :: "pmm \<Rightarrow> u32 \<times> pmm" where
  "pmm_alloc_page s = alloc_words s 0"

definition pmm_alloc_page_at :: "u32 \<Rightarrow> pmm \<Rightarrow> u32 \<times> pmm" where
  "pmm_alloc_page_at addr s =
     (if addr AND (4096 - 1) \<noteq> 0 then (0, s)
      else let page = unat addr div PAGE_SIZE in
        if page \<ge> unat (pmm_total s) \<or> bitmap_test (pmm_bitmap s) page then (0, s)
        else (addr, take_page page s))"

definition pmm_free_page :: "u32 \<Rightarrow> pmm \<Rightarrow> pmm" where
  "pmm_free_page addr s =
     (let page = unat addr div PAGE_SIZE in
      if page \<ge> unat (pmm_total s) \<or> \<not> bitmap_test (pmm_bitmap s) page then s
      else give_page page s)"

record boot_mem_region =
  mr_base :: u64
  mr_length :: u64
  mr_type :: u32

definition BOOT_MEM_USABLE :: u32 where "BOOT_MEM_USABLE = 1"

definition region_start :: "boot_mem_region \<Rightarrow> u64" where
  "region_start r = (mr_base r + 4096 - 1) AND NOT (4096 - 1)"

definition region_end :: "boot_mem_region \<Rightarrow> u64" where
  "region_end r =
     (let e = (mr_base r + mr_length r) AND NOT (4096 - 1) in
      if e > ucast PMM_LIMIT_ADDR then ucast PMM_LIMIT_ADDR else e)"

text \<open>The loop over the boot memory map; the second component is \<open>highest\<close>.\<close>

fun free_regions :: "boot_mem_region list \<Rightarrow> u64 \<Rightarrow> pmm \<Rightarrow> u64 \<times> pmm" where
  "free_regions [] highest s = (highest, s)"
| "free_regions (r # rs) highest s =
     (if mr_type r \<noteq> BOOT_MEM_USABLE then free_regions rs highest s
      else let start = region_start r; end' = region_end r in
        if start \<ge> end' then free_regions rs highest s
        else free_regions rs (if end' > highest then end' else highest)
               (pmm_mark_free (ucast start) (ucast (end' - start)) s))"

definition pmm_all_used :: pmm where
  "pmm_all_used = \<lparr>pmm_bitmap = replicate PMM_BITMAP_SIZE 0xFFFFFFFF,
     pmm_total = of_nat PMM_MAX_PAGES, pmm_used = of_nat PMM_MAX_PAGES\<rparr>"

definition shrink_managed :: "u64 \<Rightarrow> pmm \<Rightarrow> pmm" where
  "shrink_managed highest s =
     (if highest \<noteq> 0 \<and> highest < ucast PMM_LIMIT_ADDR then
        (let managed = ucast (highest div 4096) in
         s\<lparr>pmm_used := pmm_used s - (of_nat PMM_MAX_PAGES - managed), pmm_total := managed\<rparr>)
      else s)"

definition pmm_init :: "boot_mem_region list \<Rightarrow> pmm" where
  "pmm_init mmap =
     (let s = (if mmap \<noteq> [] then
                 (let (highest, s) = free_regions mmap 0 pmm_all_used in shrink_managed highest s)
               else pmm_mark_free 0x100000 (PMM_LIMIT_ADDR - 0x100000) pmm_all_used)
      in pmm_mark_used 0x100000 0x300000 (pmm_mark_used 0x0 0x100000 s))"

declare mark_used_loop.simps [simp del] mark_free_loop.simps [simp del]
  alloc_bits.simps [simp del] alloc_words.simps [simp del]


section \<open>Abstraction: the set of used pages\<close>

abbreviation page_used :: "pmm \<Rightarrow> nat \<Rightarrow> bool" where
  "page_used s \<equiv> bitmap_test (pmm_bitmap s)"

abbreviation managed :: "pmm \<Rightarrow> nat" where
  "managed s \<equiv> unat (pmm_total s)"

definition used_set :: "pmm \<Rightarrow> nat set" where
  "used_set s = {p. p < managed s \<and> page_used s p}"

definition pmm_wf :: "pmm \<Rightarrow> bool" where
  "pmm_wf s \<longleftrightarrow> length (pmm_bitmap s) = PMM_BITMAP_SIZE \<and> managed s \<le> PMM_MAX_PAGES
     \<and> unat (pmm_used s) = card (used_set s)"

lemma bitmap_test_bit: "bitmap_test bm p = bit (bm ! (p div 32)) (p mod 32)"
  by (simp add: bitmap_test_def bit_iff_odd_drop_bit and_one_eq mod_2_eq_odd)

lemma div_mod_32_eq: "q div 32 = p div 32 \<Longrightarrow> (q mod 32 = p mod 32) = (q = (p::nat))"
  by (metis div_mult_mod_eq)

lemma test_bitmap_set:
  assumes "p div 32 < length bm"
  shows "bitmap_test (bitmap_set bm p) q = (q = p \<or> bitmap_test bm q)"
proof (cases "q div 32 = p div 32")
  case True
  then show ?thesis using assms
    by (auto simp: bitmap_test_bit bitmap_set_def bit_simps div_mod_32_eq)
next
  case False
  then show ?thesis using assms
    by (auto simp: bitmap_test_bit bitmap_set_def)
qed

lemma test_bitmap_clear:
  assumes "p div 32 < length bm"
  shows "bitmap_test (bitmap_clear bm p) q = (q \<noteq> p \<and> bitmap_test bm q)"
proof (cases "q div 32 = p div 32")
  case True
  then show ?thesis using assms
    by (auto simp: bitmap_test_bit bitmap_clear_def bit_simps div_mod_32_eq)
next
  case False
  then show ?thesis using assms
    by (auto simp: bitmap_test_bit bitmap_clear_def)
qed

lemma length_bitmap [simp]:
  "length (bitmap_set bm p) = length bm" "length (bitmap_clear bm p) = length bm"
  by (simp_all add: bitmap_set_def bitmap_clear_def)

lemma finite_used_set [simp]: "finite (used_set s)"
  by (simp add: used_set_def)

lemma card_used_le: "card (used_set s) \<le> managed s"
proof -
  have "card (used_set s) \<le> card {p. p < managed s}"
    by (rule card_mono) (auto simp: used_set_def)
  then show ?thesis by simp
qed

lemma pmm_wf_index:
  "pmm_wf s \<Longrightarrow> p < managed s \<Longrightarrow> p div 32 < length (pmm_bitmap s)"
  by (auto simp: pmm_wf_def PMM_BITMAP_SIZE_def PMM_MAX_PAGES_def)

lemma total_take_give [simp]:
  "pmm_total (take_page p s) = pmm_total s" "pmm_total (give_page p s) = pmm_total s"
  by (simp_all add: take_page_def give_page_def)

lemma page_used_take [simp]:
  "pmm_wf s \<Longrightarrow> p < managed s \<Longrightarrow> page_used (take_page p s) q = (q = p \<or> page_used s q)"
  by (simp add: take_page_def test_bitmap_set pmm_wf_index)

lemma page_used_give [simp]:
  "pmm_wf s \<Longrightarrow> p < managed s \<Longrightarrow> page_used (give_page p s) q = (q \<noteq> p \<and> page_used s q)"
  by (simp add: give_page_def test_bitmap_clear pmm_wf_index)

lemma pmm_wf_take:
  assumes "pmm_wf s" "p < managed s" "\<not> page_used s p"
  shows "pmm_wf (take_page p s)"
proof -
  have us: "used_set (take_page p s) = insert p (used_set s)"
    using assms by (auto simp: used_set_def)
  have "p \<notin> used_set s" using assms by (simp add: used_set_def)
  then have c: "card (used_set (take_page p s)) = Suc (card (used_set s))"
    by (simp add: us)
  have "Suc (unat (pmm_used s)) \<le> PMM_MAX_PAGES"
    using c card_used_le[of "take_page p s"] assms(1) by (simp add: pmm_wf_def)
  then have "unat (pmm_used s + 1) = Suc (unat (pmm_used s))"
    by (intro unat_Suc_less[of _ 4096]) (simp add: word_less_nat_alt PMM_MAX_PAGES_def)
  then show ?thesis using assms c by (simp add: pmm_wf_def take_page_def)
qed

lemma pmm_wf_give:
  assumes "pmm_wf s" "p < managed s" "page_used s p"
  shows "pmm_wf (give_page p s)"
proof -
  have us: "used_set (give_page p s) = used_set s - {p}"
    using assms by (auto simp: used_set_def)
  have mem: "p \<in> used_set s" using assms by (simp add: used_set_def)
  then have c: "Suc (card (used_set (give_page p s))) = card (used_set s)"
    unfolding us by (intro card_Suc_Diff1) simp_all
  then have "unat (pmm_used s) \<noteq> 0" using assms by (metis nat.distinct(1) pmm_wf_def)
  then have "unat (pmm_used s - 1) = unat (pmm_used s) - 1"
    by (simp add: unat_minus_one unat_eq_zero)
  then show ?thesis using assms c by (auto simp: pmm_wf_def give_page_def)
qed

section \<open>Marking loops\<close>

lemma mark_used_loop_total [simp]: "pmm_total (mark_used_loop page n i s) = pmm_total s"
  by (induction page n i s rule: mark_used_loop.induct) (subst mark_used_loop.simps, simp)

lemma mark_free_loop_total [simp]: "pmm_total (mark_free_loop page n i s) = pmm_total s"
  by (induction page n i s rule: mark_free_loop.induct) (subst mark_free_loop.simps, simp)

lemma pmm_wf_mark_used_loop: "pmm_wf s \<Longrightarrow> pmm_wf (mark_used_loop page n i s)"
  by (induction page n i s rule: mark_used_loop.induct)
     (subst mark_used_loop.simps, simp add: pmm_wf_take)

lemma pmm_wf_mark_free_loop: "pmm_wf s \<Longrightarrow> pmm_wf (mark_free_loop page n i s)"
  by (induction page n i s rule: mark_free_loop.induct)
     (subst mark_free_loop.simps, simp add: pmm_wf_give)

lemma page_used_mark_used_loop:
  "pmm_wf s \<Longrightarrow> page_used (mark_used_loop page n i s) q
     = (page_used s q \<or> page + i \<le> q \<and> q < page + n \<and> q < managed s)"
proof (induction page n i s rule: mark_used_loop.induct)
  case (1 page n i s)
  show ?case
    using 1 by (auto simp: mark_used_loop.simps[of page n i s] pmm_wf_take Suc_le_eq
        intro: le_neq_implies_less)
qed

lemma page_used_mark_free_loop:
  "pmm_wf s \<Longrightarrow> page_used (mark_free_loop page n i s) q
     = (page_used s q \<and> \<not> (page + i \<le> q \<and> q < page + n \<and> q < managed s))"
proof (induction page n i s rule: mark_free_loop.induct)
  case (1 page n i s)
  show ?case
    using 1 by (auto simp: mark_free_loop.simps[of page n i s] pmm_wf_give Suc_le_eq
        intro: le_neq_implies_less)
qed

definition pages_of :: "u32 \<Rightarrow> u32 \<Rightarrow> nat set" where
  "pages_of addr sz = {unat addr div PAGE_SIZE ..<
     unat addr div PAGE_SIZE + unat (sz + 4096 - 1) div PAGE_SIZE}"

lemma pmm_mark_used_spec:
  assumes "pmm_wf s"
  shows "pmm_wf (pmm_mark_used addr sz s)"
    and "pmm_total (pmm_mark_used addr sz s) = pmm_total s"
    and "page_used (pmm_mark_used addr sz s) q
           = (page_used s q \<or> q \<in> pages_of addr sz \<and> q < managed s)"
  using assms by (auto simp: pmm_mark_used_def pmm_wf_mark_used_loop page_used_mark_used_loop
      pages_of_def)

lemma pmm_mark_free_spec:
  assumes "pmm_wf s"
  shows "pmm_wf (pmm_mark_free addr sz s)"
    and "pmm_total (pmm_mark_free addr sz s) = pmm_total s"
    and "page_used (pmm_mark_free addr sz s) q
           = (page_used s q \<and> \<not> (q \<in> pages_of addr sz \<and> q < managed s))"
  using assms by (auto simp: pmm_mark_free_def pmm_wf_mark_free_loop page_used_mark_free_loop
      pages_of_def)

section \<open>Allocation finds the lowest free page\<close>

lemma alloc_bits_None:
  "alloc_bits s i b = None \<Longrightarrow> b \<le> q \<Longrightarrow> q < 32 \<Longrightarrow> page_used s (i * 32 + q)"
proof (induction s i b rule: alloc_bits.induct)
  case (1 s i b)
  have c: "i * 32 + b < managed s \<and> page_used s (i * 32 + b) \<and> alloc_bits s i (Suc b) = None"
    using "1.prems" by (simp add: alloc_bits.simps[of s i b] Let_def split: if_splits)
  show ?case
  proof (cases "q = b")
    case False
    then show ?thesis using "1.IH"[OF _ refl] c "1.prems" by simp
  qed (use c in simp)
qed

lemma alloc_bits_Some:
  assumes "alloc_bits s i b = Some r"
  obtains p where "i * 32 + b \<le> p" "p < i * 32 + 32" "\<And>q. i * 32 + b \<le> q \<Longrightarrow> q < p \<Longrightarrow> page_used s q"
    "p \<ge> managed s \<and> r = (0, s) \<or>
     p < managed s \<and> \<not> page_used s p \<and> r = (of_nat p * 4096, take_page p s)"
  using assms
proof (induction s i b arbitrary: thesis rule: alloc_bits.induct)
  case (1 s i b)
  show ?case
  proof (cases "i * 32 + b < managed s \<and> page_used s (i * 32 + b) \<and> b < 32")
    case True
    then have rec: "alloc_bits s i (Suc b) = Some r"
      using "1.prems"(2) by (simp add: alloc_bits.simps[of s i b] Let_def)
    obtain p where p: "i * 32 + Suc b \<le> p" "p < i * 32 + 32"
      "\<And>q. i * 32 + Suc b \<le> q \<Longrightarrow> q < p \<Longrightarrow> page_used s q"
      "p \<ge> managed s \<and> r = (0, s) \<or>
       p < managed s \<and> \<not> page_used s p \<and> r = (of_nat p * 4096, take_page p s)"
      using "1.IH"[OF _ refl _ _ _ rec] True by auto
    show ?thesis
    proof (rule "1.prems"(1)[of p])
      show "page_used s q" if "i * 32 + b \<le> q" "q < p" for q
        using that p(3)[of q] True by (cases "q = i * 32 + b") auto
    qed (use p in auto)
  next
    case False
    have "b < 32" using "1.prems"(2) by (simp add: alloc_bits.simps[of s i b] split: if_splits)
    with False "1.prems"(2) show ?thesis
      by (intro "1.prems"(1)[of "i * 32 + b"])
         (auto simp: alloc_bits.simps[of s i b] Let_def split: if_splits)
  qed
qed

lemma full_word_used:
  "pmm_bitmap s ! i = 0xFFFFFFFF \<Longrightarrow> i * 32 \<le> q \<Longrightarrow> q < i * 32 + 32 \<Longrightarrow> page_used s q"
proof -
  assume w: "pmm_bitmap s ! i = 0xFFFFFFFF" and q: "i * 32 \<le> q" "q < i * 32 + 32"
  have "q div 32 = i" using q by (simp add: div_nat_eqI)
  then show ?thesis using w
    by (simp only: bitmap_test_bit word_full_mask bit_mask_iff) simp
qed

lemma alloc_words_cases:
  assumes "\<And>q. q < i * 32 \<Longrightarrow> page_used s q"
  shows "(\<exists>p < managed s. \<not> page_used s p \<and> (\<forall>q < p. page_used s q)
            \<and> alloc_words s i = (of_nat p * 4096, take_page p s))
       \<or> (alloc_words s i = (0, s) \<and> (\<forall>p < managed s. p < PMM_MAX_PAGES \<longrightarrow> page_used s p))"
  using assms
proof (induction s i rule: alloc_words.induct)
  case (1 s i)
  show ?case
  proof (cases "i < PMM_BITMAP_SIZE")
    case False
    then have "alloc_words s i = (0, s)" by (simp add: alloc_words.simps[of s i])
    moreover have "\<forall>p < PMM_MAX_PAGES. page_used s p"
      using False "1.prems" by (simp add: PMM_BITMAP_SIZE_def PMM_MAX_PAGES_def)
    ultimately show ?thesis by blast
  next
    case in_map: True
    show ?thesis
    proof (cases "pmm_bitmap s ! i = 0xFFFFFFFF \<or> alloc_bits s i 0 = None")
      case True
      have step: "alloc_words s i = alloc_words s (Suc i)"
        using True in_map by (auto simp: alloc_words.simps[of s i])
      have pre: "page_used s q" if "q < Suc i * 32" for q
      proof (cases "q < i * 32")
        case False
        then have "i * 32 \<le> q" "q < i * 32 + 32" using that by auto
        then show ?thesis
          using True full_word_used[of s i q] alloc_bits_None[of s i 0 "q - i * 32"] by auto
      qed (use "1.prems" in blast)
      show ?thesis
        unfolding step using "1.IH" in_map True pre by auto
    next
      case False
      then obtain r where r: "alloc_bits s i 0 = Some r" by blast
      then have aw: "alloc_words s i = r"
        using False in_map by (simp add: alloc_words.simps[of s i])
      obtain p where p: "i * 32 + 0 \<le> p" "p < i * 32 + 32"
          "\<And>q. i * 32 + 0 \<le> q \<Longrightarrow> q < p \<Longrightarrow> page_used s q"
          "p \<ge> managed s \<and> r = (0, s) \<or>
           p < managed s \<and> \<not> page_used s p \<and> r = (of_nat p * 4096, take_page p s)"
        using r by (rule alloc_bits_Some) blast
      have low: "page_used s q" if "q < p" for q
        using "1.prems"[of q] p(3)[of q] that by (cases "q < i * 32") auto
      from p(4) show ?thesis
      proof
        assume "p \<ge> managed s \<and> r = (0, s)"
        then show ?thesis using low aw by auto
      next
        assume "p < managed s \<and> \<not> page_used s p \<and> r = (of_nat p * 4096, take_page p s)"
        then show ?thesis using low aw by blast
      qed
    qed
  qed
qed

lemma pmm_alloc_page_cases:
  assumes "pmm_wf s"
  obtains (found) p where "p < managed s" "\<not> page_used s p" "\<And>q. q < p \<Longrightarrow> page_used s q"
      "pmm_alloc_page s = (of_nat p * 4096, take_page p s)"
  | (full) "pmm_alloc_page s = (0, s)" "\<And>p. p < managed s \<Longrightarrow> page_used s p"
  using alloc_words_cases[of 0 s] assms
  unfolding pmm_alloc_page_def pmm_wf_def by fastforce

section \<open>Frames by address\<close>

text \<open>A frame address is free when it is page aligned, managed, and its bit is clear.\<close>

definition frame_free :: "pmm \<Rightarrow> u32 \<Rightarrow> bool" where
  "frame_free s a \<longleftrightarrow> unat a mod PAGE_SIZE = 0 \<and> unat a div PAGE_SIZE < managed s
     \<and> \<not> page_used s (unat a div PAGE_SIZE)"

text \<open>
  The state the kernel runs with: the counters agree with the bitmap, and the first 4 MB (real
  mode area, kernel image, bitmap, page tables) are never free.
\<close>

definition pmm_ok :: "pmm \<Rightarrow> bool" where
  "pmm_ok s \<longleftrightarrow> pmm_wf s \<and> (\<forall>p < 1024. p < managed s \<longrightarrow> page_used s p)"

lemma unat_frame:
  "p < PMM_MAX_PAGES \<Longrightarrow> unat (of_nat p * 4096 :: u32) = p * 4096"
  by (simp add: unat_word_ariths unat_of_nat PMM_MAX_PAGES_def)

lemma frame_free_range:
  assumes "pmm_ok s" "frame_free s a"
  shows "0x400000 \<le> a" "a < 0x800000" "a AND 0xFFF = 0"
proof -
  have "1024 \<le> unat a div 4096" "unat a div 4096 < 2048" "unat a mod 4096 = 0"
    using assms by (auto simp: pmm_ok_def pmm_wf_def frame_free_def PAGE_SIZE_def PMM_MAX_PAGES_def
        not_le[symmetric])
  then show "0x400000 \<le> a" "a < 0x800000"
    by (simp_all add: word_le_nat_alt word_less_nat_alt)
  show "a AND 0xFFF = 0"
    using \<open>unat a mod 4096 = 0\<close> aligned_and_mask_iff[of a 12] page_mask(3) by simp
qed

lemma frame_eq_iff:
  assumes "unat a mod PAGE_SIZE = 0" "unat b mod PAGE_SIZE = 0"
  shows "unat a div PAGE_SIZE = unat b div PAGE_SIZE \<longleftrightarrow> a = (b :: u32)"
  using assms by (metis div_mult_mod_eq word_unat_eq_iff)

lemma frame_free_take:
  assumes "pmm_wf s" "unat a div PAGE_SIZE < managed s" "unat a mod PAGE_SIZE = 0"
  shows "frame_free (take_page (unat a div PAGE_SIZE) s) b \<longleftrightarrow> b \<noteq> a \<and> frame_free s b"
  using assms frame_eq_iff[of b a] by (auto simp: frame_free_def)

lemma frame_free_give:
  assumes "pmm_wf s" "unat a div PAGE_SIZE < managed s" "unat a mod PAGE_SIZE = 0"
  shows "frame_free (give_page (unat a div PAGE_SIZE) s) b \<longleftrightarrow> b = a \<or> frame_free s b"
  using assms frame_eq_iff[of b a] by (auto simp: frame_free_def)

lemma pmm_alloc_page_ok:
  assumes ok: "pmm_ok s" and r: "pmm_alloc_page s = (a, s')" "a \<noteq> 0"
  shows "frame_free s a" "pmm_ok s'" "pmm_total s' = pmm_total s"
    "\<And>b. frame_free s' b \<longleftrightarrow> b \<noteq> a \<and> frame_free s b"
    "\<And>b. frame_free s b \<Longrightarrow> a \<le> b" "pmm_used s' = pmm_used s + 1"
proof -
  have wf: "pmm_wf s" using ok by (simp add: pmm_ok_def)
  then obtain p where p: "p < managed s" "\<not> page_used s p" "\<And>q. q < p \<Longrightarrow> page_used s q"
    "a = of_nat p * 4096" "s' = take_page p s"
    using r by (cases rule: pmm_alloc_page_cases) auto
  have "p < PMM_MAX_PAGES" using p(1) wf by (simp add: pmm_wf_def)
  then have a: "unat a = p * PAGE_SIZE" using p(4) unat_frame by (simp add: PAGE_SIZE_def)
  then have ap: "unat a div PAGE_SIZE = p" "unat a mod PAGE_SIZE = 0" by (simp_all add: PAGE_SIZE_def)
  show "frame_free s a" using ap p by (simp add: frame_free_def)
  show "pmm_ok s'" using ok p wf by (auto simp: pmm_ok_def pmm_wf_take)
  show "pmm_total s' = pmm_total s" "pmm_used s' = pmm_used s + 1"
    using p(5) by (simp_all add: take_page_def)
  show "frame_free s' b \<longleftrightarrow> b \<noteq> a \<and> frame_free s b" for b
    using frame_free_take[OF wf, of a b] p ap by simp
  show "a \<le> b" if "frame_free s b" for b
  proof -
    have "p \<le> unat b div PAGE_SIZE" using that p(3) not_le_imp_less by (auto simp: frame_free_def)
    then have "p * PAGE_SIZE \<le> unat b" using order_trans[OF mult_le_mono1 div_times_less_eq_dividend] by blast
    then show ?thesis using a by (simp add: word_le_nat_alt)
  qed
qed

lemma pmm_alloc_page_full:
  assumes ok: "pmm_ok s" and r: "pmm_alloc_page s = (0, s')"
  shows "s' = s" "\<not> frame_free s b"
proof -
  have wf: "pmm_wf s" using ok by (simp add: pmm_ok_def)
  have "s' = s \<and> (\<forall>p < managed s. page_used s p)"
    using wf
  proof (cases rule: pmm_alloc_page_cases)
    case (found p)
    have "p < PMM_MAX_PAGES" using found(1) wf by (simp add: pmm_wf_def)
    then have "p = 0" using unat_frame[of p] found(4) r by simp
    then have "page_used s p" using ok found(1) by (simp add: pmm_ok_def)
    then show ?thesis using found(2) by simp
  qed (use r in simp)
  then show "s' = s" "\<not> frame_free s b" by (auto simp: frame_free_def)
qed

text \<open>A frame is owned when it was handed out (or reserved) above the kernel's 4 MB.\<close>

definition frame_owned :: "pmm \<Rightarrow> u32 \<Rightarrow> bool" where
  "frame_owned s a \<longleftrightarrow> unat a mod PAGE_SIZE = 0 \<and> unat a div PAGE_SIZE < managed s
     \<and> page_used s (unat a div PAGE_SIZE) \<and> 0x400000 \<le> a"

lemma frame_owned_not_free: "frame_owned s a \<Longrightarrow> \<not> frame_free s a"
  by (simp add: frame_owned_def frame_free_def)

lemma frame_owned_take:
  assumes "pmm_wf s" "unat a div PAGE_SIZE < managed s" "unat a mod PAGE_SIZE = 0" "0x400000 \<le> a"
  shows "frame_owned (take_page (unat a div PAGE_SIZE) s) b \<longleftrightarrow> b = a \<or> frame_owned s b"
  using assms frame_eq_iff[of b a] by (auto simp: frame_owned_def)

lemma frame_owned_give:
  assumes "pmm_wf s" "unat a div PAGE_SIZE < managed s" "unat a mod PAGE_SIZE = 0"
  shows "frame_owned (give_page (unat a div PAGE_SIZE) s) b \<longleftrightarrow> b \<noteq> a \<and> frame_owned s b"
  using assms frame_eq_iff[of b a] by (auto simp: frame_owned_def)

lemma kernel_page_iff: "0x400000 \<le> a \<longleftrightarrow> 1024 \<le> unat (a :: u32) div PAGE_SIZE"
  by (simp add: word_le_nat_alt PAGE_SIZE_def less_eq_div_iff_mult_less_eq)

lemma pmm_alloc_page_owned:
  assumes ok: "pmm_ok s" and r: "pmm_alloc_page s = (a, s')" "a \<noteq> 0"
  shows "frame_owned s' b \<longleftrightarrow> b = a \<or> frame_owned s b"
proof -
  have wf: "pmm_wf s" using ok by (simp add: pmm_ok_def)
  have free: "frame_free s a" by (rule pmm_alloc_page_ok(1)[OF assms])
  have "s' = take_page (unat a div PAGE_SIZE) s"
    using wf
  proof (cases rule: pmm_alloc_page_cases)
    case (found p)
    then have "p < PMM_MAX_PAGES" using wf by (simp add: pmm_wf_def)
    then have "unat a = p * 4096" using found(4) r unat_frame by simp
    then show ?thesis using found(4) r by (simp add: PAGE_SIZE_def)
  qed (use r in simp)
  then show ?thesis
    using frame_owned_take[OF wf, of a b] free frame_free_range(1)[OF ok free]
    by (simp add: frame_free_def)
qed

lemma pmm_free_page_ok:
  assumes ok: "pmm_ok s" and own: "frame_owned s a"
  shows "pmm_ok (pmm_free_page a s)" "pmm_used (pmm_free_page a s) = pmm_used s - 1"
    "frame_free (pmm_free_page a s) b \<longleftrightarrow> b = a \<or> frame_free s b"
    "frame_owned (pmm_free_page a s) b \<longleftrightarrow> b \<noteq> a \<and> frame_owned s b"
proof -
  have wf: "pmm_wf s" using ok by (simp add: pmm_ok_def)
  let ?p = "unat a div PAGE_SIZE"
  have p: "?p < managed s" "page_used s ?p" "unat a mod PAGE_SIZE = 0" "1024 \<le> ?p"
    using own kernel_page_iff[of a] by (simp_all add: frame_owned_def)
  have eq: "pmm_free_page a s = give_page ?p s" using p by (simp add: pmm_free_page_def)
  show "pmm_ok (pmm_free_page a s)" using ok p wf by (auto simp: eq pmm_ok_def pmm_wf_give)
  show "pmm_used (pmm_free_page a s) = pmm_used s - 1" by (simp add: eq give_page_def)
  show "frame_free (pmm_free_page a s) b \<longleftrightarrow> b = a \<or> frame_free s b"
    "frame_owned (pmm_free_page a s) b \<longleftrightarrow> b \<noteq> a \<and> frame_owned s b"
    unfolding eq using frame_free_give[OF wf p(1,3)] frame_owned_give[OF wf p(1,3)] by blast+
qed

lemma pmm_alloc_page_at_cases:
  assumes ok: "pmm_ok s" and r: "pmm_alloc_page_at addr s = (a, s')"
  obtains (got) "a = addr" "frame_free s addr" "pmm_ok s'"
      "\<And>b. frame_free s' b \<longleftrightarrow> b \<noteq> addr \<and> frame_free s b"
      "\<And>b. frame_owned s' b \<longleftrightarrow> b = addr \<or> frame_owned s b"
  | (refused) "a = 0" "s' = s" "\<not> frame_free s addr"
proof (cases "frame_free s addr")
  case True
  have wf: "pmm_wf s" using ok by (simp add: pmm_ok_def)
  let ?p = "unat addr div PAGE_SIZE"
  have p: "?p < managed s" "\<not> page_used s ?p" "unat addr mod PAGE_SIZE = 0"
    using True by (simp_all add: frame_free_def)
  have "addr AND (4096 - 1) = 0"
    using p(3) aligned_and_mask_iff[of addr 12] unfolding page_mask(1) PAGE_SIZE_def by simp
  then have eq: "a = addr" "s' = take_page ?p s"
    using r p by (auto simp: pmm_alloc_page_at_def Let_def)
  show thesis
    using got[OF eq(1) True] eq(2) p ok wf frame_free_take[OF wf p(1,3)]
      frame_owned_take[OF wf p(1,3) frame_free_range(1)[OF ok True]]
    by (auto simp: pmm_ok_def pmm_wf_take)
next
  case False
  have "addr AND (4096 - 1) = 0 \<longleftrightarrow> unat addr mod PAGE_SIZE = 0"
    using aligned_and_mask_iff[of addr 12] unfolding page_mask(1) PAGE_SIZE_def by simp
  then show thesis using False refused r
    by (auto simp: pmm_alloc_page_at_def frame_free_def Let_def split: if_splits)
qed

section \<open>The allocator interface\<close>

text \<open>
  What the rest of the kernel relies on: the allocator laws, and that every frame handed out is a
  page-aligned address inside the 4 MB to 8 MB window. The page-table code, the heap, the ELF
  loader and fork are clients.
\<close>

locale frame_allocator = allocator ok avail owned alloc release
  for ok :: "'s \<Rightarrow> bool" and avail owned alloc release +
  assumes avail_range: "ok s \<Longrightarrow> avail s a \<Longrightarrow> 0x400000 \<le> a \<and> a < 0x800000 \<and> a AND 0xFFF = 0"
begin

lemma alloc_range:
  "ok s \<Longrightarrow> alloc s = (a, s') \<Longrightarrow> a \<noteq> 0 \<Longrightarrow> 0x400000 \<le> a \<and> a < 0x800000 \<and> a AND 0xFFF = 0"
  using alloc_avail avail_range by blast

end

interpretation frames: frame_allocator pmm_ok frame_free frame_owned pmm_alloc_page pmm_free_page
proof unfold_locales
  show "0x400000 \<le> a \<and> a < 0x800000 \<and> a AND 0xFFF = 0" if "pmm_ok s" "frame_free s a" for s a
    using frame_free_range[OF that] by blast
  show "s' = s \<and> \<not> frame_free s a" if "pmm_ok s" "pmm_alloc_page s = (0, s')" for s s' a
    using pmm_alloc_page_full[OF that] by blast
  show "pmm_ok s' \<and> frame_free s a" if "pmm_ok s" "pmm_alloc_page s = (a, s')" "a \<noteq> 0" for s a s'
    using pmm_alloc_page_ok[OF that] by blast
  show "(frame_free s' b \<longleftrightarrow> b \<noteq> a \<and> frame_free s b) \<and> (frame_owned s' b \<longleftrightarrow> b = a \<or> frame_owned s b)"
    if "pmm_ok s" "pmm_alloc_page s = (a, s')" "a \<noteq> 0" for s a s' b
    using pmm_alloc_page_ok(4)[OF that] pmm_alloc_page_owned[OF that] by blast
  show "pmm_ok (pmm_free_page a s)
      \<and> (frame_free (pmm_free_page a s) b \<longleftrightarrow> b = a \<or> frame_free s b)
      \<and> (frame_owned (pmm_free_page a s) b \<longleftrightarrow> b \<noteq> a \<and> frame_owned s b)"
    if "pmm_ok s" "frame_owned s a" for s a b
    using pmm_free_page_ok[OF that] by blast
qed (rule frame_owned_not_free)

section \<open>Initialisation from the boot memory map\<close>

definition region_pages :: "boot_mem_region \<Rightarrow> nat set" where
  "region_pages r = (if mr_type r = BOOT_MEM_USABLE
     then {unat (region_start r) div PAGE_SIZE ..< unat (region_end r) div PAGE_SIZE} else {})"

lemma unat_limit [simp]: "unat (ucast PMM_LIMIT_ADDR :: u64) = 0x800000"
  by (simp add: PMM_LIMIT_ADDR_def)

lemma region_start_unat:
  "unat (region_start r) = unat (mr_base r + 4096 - 1) div 4096 * 4096"
  unfolding region_start_def page_mask(2) by (simp add: unat_and_not_mask)

lemma region_end_unat:
  "unat (region_end r) = min 0x800000 (unat (mr_base r + mr_length r) div 4096 * 4096)"
proof -
  have "unat ((mr_base r + mr_length r) AND NOT (4096 - 1))
      = unat (mr_base r + mr_length r) div 4096 * 4096"
    unfolding page_mask(2) by (simp add: unat_and_not_mask)
  then show ?thesis
    unfolding region_end_def Let_def by (simp only: word_less_nat_alt unat_limit) simp
qed

lemma region_end_le: "unat (region_end r) \<le> 0x800000"
  by (simp add: region_end_unat)

lemma region_aligned:
  "unat (region_start r) mod 4096 = 0" "unat (region_end r) mod 4096 = 0"
  by (simp_all add: region_start_unat region_end_unat min_def)

lemma region_pages_bounded: "p \<in> region_pages r \<Longrightarrow> p < PMM_MAX_PAGES"
  using region_end_le[of r]
  by (auto simp: region_pages_def PAGE_SIZE_def PMM_MAX_PAGES_def split: if_splits)

lemma aligned_pages:
  fixes a b :: nat
  assumes "a \<le> b" "a mod 4096 = 0" "b mod 4096 = 0"
  shows "a div 4096 + (b - a + 4095) div 4096 = b div 4096"
proof -
  obtain i j where ij: "a = 4096 * i" "b = 4096 * j"
    using assms(2,3) by (auto simp: mod_eq_0_iff_dvd elim!: dvdE)
  then have "b - a + 4095 = (j - i) * 4096 + 4095" "i \<le> j"
    using assms(1) by (simp_all add: diff_mult_distrib2)
  then show ?thesis using ij by simp
qed

lemma pages_of_region:
  assumes "mr_type r = BOOT_MEM_USABLE" "region_start r < region_end r"
  shows "pages_of (ucast (region_start r)) (ucast (region_end r - region_start r)) = region_pages r"
proof -
  have le: "unat (region_start r) \<le> unat (region_end r)" "region_start r \<le> region_end r"
    using assms(2) by (simp_all add: word_less_nat_alt word_le_nat_alt)
  have s: "unat (ucast (region_start r) :: u32) = unat (region_start r)"
    using le(1) region_end_le[of r] by (simp add: unat_ucast)
  let ?d = "ucast (region_end r - region_start r) :: u32"
  have d: "unat ?d = unat (region_end r) - unat (region_start r)"
    using le region_end_le[of r] by (simp add: unat_ucast unat_sub)
  then have "unat (?d + 4095) = unat (region_end r) - unat (region_start r) + 4095"
    using region_end_le[of r] by (simp add: unat_word_ariths)
  moreover have "?d + 4096 - 1 = ?d + 4095" by simp
  ultimately show ?thesis
    using aligned_pages[OF le(1) region_aligned] s assms(1)
    by (simp add: pages_of_def region_pages_def PAGE_SIZE_def add.commute)
qed

lemma region_pages_empty: "\<not> region_start r < region_end r \<Longrightarrow> region_pages r = {}"
  using div_le_mono[of "unat (region_end r)" "unat (region_start r)" PAGE_SIZE]
  by (auto simp: region_pages_def word_less_nat_alt)

lemma free_regions_spec:
  assumes "free_regions rs h s = (h', s')" "pmm_wf s" "managed s = PMM_MAX_PAGES"
    "unat h \<le> 0x800000" "unat h mod 4096 = 0"
  shows "pmm_wf s' \<and> managed s' = PMM_MAX_PAGES \<and> unat h \<le> unat h' \<and> unat h' \<le> 0x800000
     \<and> unat h' mod 4096 = 0
     \<and> (\<forall>p. page_used s' p \<longleftrightarrow> page_used s p \<and> (\<forall>r \<in> set rs. p \<notin> region_pages r))
     \<and> (\<forall>r \<in> set rs. \<forall>p \<in> region_pages r. p < unat h' div PAGE_SIZE)"
  using assms
proof (induction rs arbitrary: h s)
  case Nil
  then show ?case by simp
next
  case (Cons r rs h s)
  show ?case
  proof (cases "mr_type r = BOOT_MEM_USABLE \<and> region_start r < region_end r")
    case False
    then have "region_pages r = {}"
      using region_pages_empty[of r] by (auto simp: region_pages_def)
    moreover have "free_regions rs h s = (h', s')"
      using Cons.prems(1) False by (auto simp: Let_def not_less split: if_splits)
    ultimately show ?thesis
      using Cons.IH[of h s] Cons.prems(2-5) by simp
  next
    case True
    let ?s = "pmm_mark_free (ucast (region_start r)) (ucast (region_end r - region_start r)) s"
    let ?h = "if region_end r > h then region_end r else h"
    have rec: "free_regions rs ?h ?s = (h', s')"
      using Cons.prems(1) True by (simp add: Let_def linorder_not_le[symmetric] split del: if_split)
    have pu: "page_used ?s p \<longleftrightarrow> page_used s p \<and> p \<notin> region_pages r" for p
      using pmm_mark_free_spec(3)[OF Cons.prems(2)] pages_of_region[of r] True
        region_pages_bounded[of p r] Cons.prems(3) by auto
    have h: "unat h \<le> unat ?h" "unat (region_end r) \<le> unat ?h" "unat ?h \<le> 0x800000"
        "unat ?h mod 4096 = 0"
      using Cons.prems(4,5) region_end_le[of r] region_aligned[of r] by (auto simp: word_less_nat_alt)
    have ih: "pmm_wf s' \<and> managed s' = PMM_MAX_PAGES \<and> unat ?h \<le> unat h' \<and> unat h' \<le> 0x800000
       \<and> unat h' mod 4096 = 0
       \<and> (\<forall>p. page_used s' p \<longleftrightarrow> page_used ?s p \<and> (\<forall>r \<in> set rs. p \<notin> region_pages r))
       \<and> (\<forall>r \<in> set rs. \<forall>p \<in> region_pages r. p < unat h' div PAGE_SIZE)"
      using Cons.IH[OF rec] pmm_mark_free_spec[OF Cons.prems(2)] Cons.prems(3) h(3,4)
      by simp
    have "p < unat h' div PAGE_SIZE" if "p \<in> region_pages r" for p
    proof -
      have "p < unat (region_end r) div PAGE_SIZE"
        using that by (auto simp: region_pages_def split: if_splits)
      also have "\<dots> \<le> unat h' div PAGE_SIZE"
        using h(2) ih by (intro div_le_mono) linarith
      finally show ?thesis .
    qed
    then show ?thesis using ih h(1) pu by auto
  qed
qed

lemma pmm_all_used_spec: "pmm_wf pmm_all_used" "managed pmm_all_used = PMM_MAX_PAGES"
  "p < PMM_MAX_PAGES \<Longrightarrow> page_used pmm_all_used p"
proof -
  show used: "page_used pmm_all_used p" if "p < PMM_MAX_PAGES" for p
  proof (rule full_word_used[of _ "p div 32"])
    have "p div 32 < PMM_BITMAP_SIZE"
      using that by (simp add: PMM_MAX_PAGES_def PMM_BITMAP_SIZE_def less_mult_imp_div_less)
    then show "pmm_bitmap pmm_all_used ! (p div 32) = 0xFFFFFFFF"
      by (simp add: pmm_all_used_def)
  qed auto
  show m: "managed pmm_all_used = PMM_MAX_PAGES"
    by (simp add: pmm_all_used_def PMM_MAX_PAGES_def)
  have "used_set pmm_all_used = {..<PMM_MAX_PAGES}"
    using used m by (auto simp: used_set_def)
  then show "pmm_wf pmm_all_used"
    using m by (simp add: pmm_wf_def) (simp add: pmm_all_used_def PMM_MAX_PAGES_def)
qed

lemma shrink_managed_spec:
  assumes wf: "pmm_wf s" "managed s = PMM_MAX_PAGES" and h: "unat h \<le> 0x800000"
    and low: "\<And>p. p < PMM_MAX_PAGES \<Longrightarrow> \<not> page_used s p \<Longrightarrow> p < unat h div PAGE_SIZE"
  shows "pmm_wf (shrink_managed h s)"
    "pmm_bitmap (shrink_managed h s) = pmm_bitmap s"
    "managed (shrink_managed h s) =
       (if h \<noteq> 0 \<and> unat h < 0x800000 then unat h div PAGE_SIZE else PMM_MAX_PAGES)"
proof -
  show "pmm_bitmap (shrink_managed h s) = pmm_bitmap s"
    by (simp add: shrink_managed_def Let_def)
  have lim: "h < ucast PMM_LIMIT_ADDR \<longleftrightarrow> unat h < 0x800000"
    by (simp only: word_less_nat_alt unat_limit)
  let ?m = "unat h div PAGE_SIZE"
  have m: "unat (ucast (h div 4096) :: u32) = ?m" "?m \<le> PMM_MAX_PAGES"
    using h by (simp_all add: unat_ucast unat_div PAGE_SIZE_def PMM_MAX_PAGES_def)
  show man: "managed (shrink_managed h s) =
       (if h \<noteq> 0 \<and> unat h < 0x800000 then ?m else PMM_MAX_PAGES)"
    unfolding shrink_managed_def lim using m(1) wf(2) by (simp add: Let_def)
  show "pmm_wf (shrink_managed h s)"
  proof (cases "h \<noteq> 0 \<and> unat h < 0x800000")
    case False
    then show ?thesis using wf(1) unfolding shrink_managed_def lim by auto
  next
    case True
    let ?s = "shrink_managed h s"
    have high: "page_used s p" if "?m \<le> p" "p < PMM_MAX_PAGES" for p
      using low that not_less by blast
    have bm: "page_used ?s p = page_used s p" for p
      by (simp add: shrink_managed_def Let_def)
    have "used_set s = used_set ?s \<union> {?m ..< PMM_MAX_PAGES}"
      using m(2) high wf(2) True unfolding used_set_def bm man by auto
    moreover have "used_set ?s \<inter> {?m ..< PMM_MAX_PAGES} = {}"
      using man True by (auto simp: used_set_def)
    ultimately have c: "card (used_set s) = card (used_set ?s) + (PMM_MAX_PAGES - ?m)"
      by (simp add: card_Un_disjoint)
    have d: "unat (of_nat PMM_MAX_PAGES - (ucast (h div 4096) :: u32)) = PMM_MAX_PAGES - ?m"
      using m by (simp add: unat_sub word_le_nat_alt unat_of_nat PMM_MAX_PAGES_def)
    have "unat (pmm_used ?s) = unat (pmm_used s) - (PMM_MAX_PAGES - ?m)"
      using True c d wf(1) unfolding shrink_managed_def lim
      by (simp add: Let_def unat_sub word_le_nat_alt pmm_wf_def)
    then have "unat (pmm_used ?s) = card (used_set ?s)" using c wf(1) by (simp add: pmm_wf_def)
    moreover have "length (pmm_bitmap ?s) = PMM_BITMAP_SIZE"
      using wf(1) by (simp add: pmm_wf_def shrink_managed_def Let_def)
    moreover have "managed ?s \<le> PMM_MAX_PAGES" using man m(2) by simp
    ultimately show ?thesis unfolding pmm_wf_def by blast
  qed
qed

lemma pmm_low_pages:
  "pages_of 0x0 0x100000 = {0 ..< 256}" "pages_of 0x100000 0x300000 = {256 ..< 1024}"
  "pages_of 0x100000 (PMM_LIMIT_ADDR - 0x100000) = {256 ..< 2048}"
  by (simp_all add: pages_of_def PAGE_SIZE_def PMM_LIMIT_ADDR_def)

lemma reserve_low_spec:
  assumes "pmm_wf s"
  defines "s' \<equiv> pmm_mark_used 0x100000 0x300000 (pmm_mark_used 0x0 0x100000 s)"
  shows "pmm_ok s'" "pmm_total s' = pmm_total s"
    "page_used s' p \<longleftrightarrow> page_used s p \<or> p < 1024 \<and> p < managed s"
proof -
  note spec = pmm_mark_used_spec[where addr = 0 and sz = "0x100000", OF assms(1)]
  note spec' = pmm_mark_used_spec[where addr = "0x100000" and sz = "0x300000", OF spec(1)]
  show t: "pmm_total s' = pmm_total s" unfolding s'_def spec'(2) spec(2) ..
  show u: "page_used s' p \<longleftrightarrow> page_used s p \<or> p < 1024 \<and> p < managed s" for p
    unfolding s'_def spec'(3) spec(3) spec(2) pmm_low_pages by auto
  show "pmm_ok s'" using spec'(1) u t by (auto simp: pmm_ok_def s'_def)
qed

lemma pmm_init_regions:
  assumes "mmap \<noteq> []"
  shows "pmm_ok (pmm_init mmap)"
    "p < managed (pmm_init mmap) \<and> \<not> page_used (pmm_init mmap) p
       \<longleftrightarrow> 1024 \<le> p \<and> (\<exists>r \<in> set mmap. p \<in> region_pages r)"
proof -
  obtain h s where fr: "free_regions mmap 0 pmm_all_used = (h, s)" by fastforce
  note sp = free_regions_spec[OF fr pmm_all_used_spec(1,2)]
  have used: "page_used s q \<longleftrightarrow> (\<forall>r \<in> set mmap. q \<notin> region_pages r)" if "q < PMM_MAX_PAGES" for q
    using sp pmm_all_used_spec(3) that by simp
  have low: "q < unat h div PAGE_SIZE" if "q < PMM_MAX_PAGES" "\<not> page_used s q" for q
    using sp used that by auto
  note sh = shrink_managed_spec[of s h, OF _ _ _ low]
  let ?s = "shrink_managed h s"
  have wf: "pmm_wf ?s" using sh(1) sp by simp
  have eq: "pmm_init mmap = pmm_mark_used 0x100000 0x300000 (pmm_mark_used 0x0 0x100000 ?s)"
    using assms fr by (simp add: pmm_init_def)
  note rl = reserve_low_spec[OF wf]
  show "pmm_ok (pmm_init mmap)" using rl(1) by (simp only: eq)
  have man: "managed ?s \<le> PMM_MAX_PAGES" "\<And>q. q < PMM_MAX_PAGES \<Longrightarrow> \<not> page_used s q \<Longrightarrow> q < managed ?s"
    using wf low sh(3) sp by (auto simp: pmm_wf_def)
  show "p < managed (pmm_init mmap) \<and> \<not> page_used (pmm_init mmap) p
       \<longleftrightarrow> 1024 \<le> p \<and> (\<exists>r \<in> set mmap. p \<in> region_pages r)"
    unfolding eq rl(2,3) sh(2)[OF sp[THEN conjunct1]]
    using man used[of p] sh(2) sp region_pages_bounded[of p] by (auto simp: not_less)
qed

lemma pmm_init_fallback:
  "pmm_ok (pmm_init [])" "pmm_total (pmm_init []) = of_nat PMM_MAX_PAGES"
  "p < PMM_MAX_PAGES \<Longrightarrow> page_used (pmm_init []) p \<longleftrightarrow> p < 1024"
proof -
  note mf = pmm_mark_free_spec[where addr = "0x100000" and sz = "PMM_LIMIT_ADDR - 0x100000",
      OF pmm_all_used_spec(1)]
  note rl = reserve_low_spec[OF mf(1)]
  have eq: "pmm_init [] = pmm_mark_used 0x100000 0x300000 (pmm_mark_used 0x0 0x100000
      (pmm_mark_free 0x100000 (PMM_LIMIT_ADDR - 0x100000) pmm_all_used))"
    by (simp add: pmm_init_def)
  show "pmm_ok (pmm_init [])" using rl(1) by (simp only: eq)
  show "pmm_total (pmm_init []) = of_nat PMM_MAX_PAGES"
    unfolding eq rl(2) mf(2) by (simp add: pmm_all_used_def)
  show "page_used (pmm_init []) p \<longleftrightarrow> p < 1024" if "p < PMM_MAX_PAGES"
    unfolding eq rl(3) mf(2,3) pmm_low_pages pmm_all_used_spec(2)
    using that pmm_all_used_spec(3)[OF that] by (auto simp: PMM_MAX_PAGES_def)
qed

lemma pmm_ok_init: "pmm_ok (pmm_init mmap)"
  using pmm_init_regions(1) pmm_init_fallback(1) by (cases "mmap = []") simp_all

lemma region_page_inside:
  assumes "p \<in> region_pages r" "unat (mr_base r) + unat (mr_length r) + 4096 < 2 ^ 64"
  shows "mr_type r = BOOT_MEM_USABLE" "unat (mr_base r) \<le> p * 4096"
    "p * 4096 + 4096 \<le> unat (mr_base r) + unat (mr_length r)"
proof -
  show "mr_type r = BOOT_MEM_USABLE"
    using assms(1) by (simp add: region_pages_def split: if_splits)
  then have p: "unat (region_start r) div 4096 \<le> p" "p < unat (region_end r) div 4096"
    using assms(1) by (simp_all add: region_pages_def PAGE_SIZE_def)
  have "mr_base r + 4096 - 1 = mr_base r + 4095" by simp
  then have "unat (mr_base r + 4096 - 1) = unat (mr_base r) + 4095"
    using assms(2) by (simp add: unat_word_ariths)
  then have "(unat (mr_base r) + 4095) div 4096 \<le> p"
    using p(1) by (simp add: region_start_unat)
  then show "unat (mr_base r) \<le> p * 4096" by linarith
  have "unat (mr_base r + mr_length r) = unat (mr_base r) + unat (mr_length r)"
    using assms(2) by (simp add: unat_word_ariths)
  then have "unat (region_end r) \<le> (unat (mr_base r) + unat (mr_length r)) div 4096 * 4096"
    by (simp add: region_end_unat)
  then show "p * 4096 + 4096 \<le> unat (mr_base r) + unat (mr_length r)"
    using p(2) by linarith
qed

lemma take_give: "length (pmm_bitmap s) = PMM_BITMAP_SIZE \<Longrightarrow> p < PMM_MAX_PAGES \<Longrightarrow> \<not> page_used s p
    \<Longrightarrow> give_page p (take_page p s) = s"
proof -
  assume len: "length (pmm_bitmap s) = PMM_BITMAP_SIZE" and p: "p < PMM_MAX_PAGES" "\<not> page_used s p"
  have i: "p div 32 < length (pmm_bitmap s)"
    using len p(1) by (simp add: PMM_BITMAP_SIZE_def PMM_MAX_PAGES_def less_mult_imp_div_less)
  let ?w = "pmm_bitmap s ! (p div 32)"
  have "(?w OR push_bit (p mod 32) 1) AND NOT (push_bit (p mod 32) 1) = ?w"
    using p(2) by (intro bit_eqI) (auto simp: bit_simps bitmap_test_bit)
  then have "bitmap_clear (bitmap_set (pmm_bitmap s) p) p = pmm_bitmap s"
    using i by (simp add: bitmap_clear_def bitmap_set_def)
  then show ?thesis by (simp add: give_page_def take_page_def)
qed

lemma frame_free_addr:
  "pmm_wf s \<Longrightarrow> {a. frame_free s a} = (\<lambda>p. of_nat (p * 4096)) ` ({..<managed s} - used_set s)"
proof (intro set_eqI iffI)
  fix a assume a: "a \<in> {a. frame_free s a}"
  then have "unat a div PAGE_SIZE * 4096 = unat a"
    by (auto simp: frame_free_def PAGE_SIZE_def)
  then have "a = of_nat (unat a div PAGE_SIZE * 4096)" by (simp only: of_nat_unat_id)
  then show "a \<in> (\<lambda>p. of_nat (p * 4096)) ` ({..<managed s} - used_set s)"
    by (rule image_eqI) (use a in \<open>simp add: frame_free_def used_set_def\<close>)
next
  fix a :: u32 assume wf: "pmm_wf s" and "a \<in> (\<lambda>p. of_nat (p * 4096)) ` ({..<managed s} - used_set s)"
  then obtain p where p: "a = of_nat (p * 4096)" "p < managed s" "\<not> page_used s p"
    by (auto simp: used_set_def)
  then have "unat a = p * 4096"
    using wf unat_frame[of p] by (simp add: pmm_wf_def)
  then show "a \<in> {a. frame_free s a}" using p by (simp add: frame_free_def PAGE_SIZE_def)
qed

lemma card_frame_free:
  assumes "pmm_wf s"
  shows "card {a. frame_free s a} = managed s - card (used_set s)"
proof -
  have u: "unat (of_nat (p * 4096) :: u32) = p * 4096" if "p < managed s" for p
    using unat_frame[of p] that assms by (simp add: pmm_wf_def)
  have "inj_on (\<lambda>p. of_nat (p * 4096) :: u32) ({..<managed s} - used_set s)"
  proof (rule inj_onI)
    fix p q assume pq: "p \<in> {..<managed s} - used_set s" "q \<in> {..<managed s} - used_set s"
      and eq: "(of_nat (p * 4096) :: u32) = of_nat (q * 4096)"
    have "p * 4096 = q * 4096" using u[of p] u[of q] pq arg_cong[OF eq, of unat] by auto
    then show "p = q" by simp
  qed
  moreover have "used_set s \<subseteq> {..<managed s}" by (auto simp: used_set_def)
  ultimately show ?thesis
    unfolding frame_free_addr[OF assms] by (simp add: card_image card_Diff_subset)
qed

lemma frame_free_init_nil:
  "frame_free (pmm_init []) a \<longleftrightarrow> 0x400000 \<le> a \<and> a < 0x800000 \<and> unat a mod PAGE_SIZE = 0"
proof -
  have m: "managed (pmm_init []) = 2048"
    using pmm_init_fallback(2) by (simp add: PMM_MAX_PAGES_def)
  have "a < 0x800000 \<longleftrightarrow> unat a div PAGE_SIZE < 2048"
    by (simp add: word_less_nat_alt PAGE_SIZE_def div_less_iff_less_mult)
  then show ?thesis
    unfolding frame_free_def m kernel_page_iff
    using pmm_init_fallback(3)[of "unat a div PAGE_SIZE"] by (auto simp: PMM_MAX_PAGES_def)
qed

lemma pmm_alloc_init_nil: "\<exists>s'. pmm_alloc_page (pmm_init []) = (0x400000, s')"
proof -
  obtain a s' where r: "pmm_alloc_page (pmm_init []) = (a, s')" by fastforce
  have free: "frame_free (pmm_init []) 0x400000"
    by (simp add: frame_free_init_nil PAGE_SIZE_def)
  have nz: "a \<noteq> 0" using pmm_alloc_page_full(2)[OF pmm_ok_init, of "[]" s' "0x400000"] r free by auto
  note al = pmm_alloc_page_ok[OF pmm_ok_init r nz]
  have "a = 0x400000"
    using al(5)[OF free] frame_free_range(1)[OF pmm_ok_init al(1)] by (rule order.antisym)
  then show ?thesis using r by blast
qed

section \<open>Properties\<close>

text \<open>
  C1. Allocation contract of \<open>pmm_alloc_page\<close>: it keeps the allocator's invariant; it returns 0,
  changing nothing, exactly when no frame is free; otherwise it returns the lowest free frame,
  and that frame is the only one that stops being free.
\<close>

theorem pmm_alloc_page_correct:
  assumes "pmm_ok s" "pmm_alloc_page s = (a, s')"
  shows "pmm_ok s' \<and>
    (if a = 0 then s' = s \<and> (\<forall>b. \<not> frame_free s b)
     else frame_free s a \<and> (\<forall>b. frame_free s b \<longrightarrow> a \<le> b)
        \<and> (\<forall>b. frame_free s' b \<longleftrightarrow> b \<noteq> a \<and> frame_free s b))"
proof (cases "a = 0")
  case True
  then show ?thesis using frames.alloc_none[of s s'] assms by simp
next
  case False
  then show ?thesis
    using frames.alloc_avail[OF assms False] frames.alloc_effect[OF assms False] pmm_alloc_page_ok(5)[OF assms False]
    by simp
qed

theorem pmm_alloc_page_correct_witness:
  "\<exists>s'. pmm_alloc_page (pmm_init []) = (0x400000, s') \<and> frame_free (pmm_init []) 0x400000
     \<and> \<not> frame_free s' 0x400000"
proof -
  obtain s' where r: "pmm_alloc_page (pmm_init []) = (0x400000, s')"
    using pmm_alloc_init_nil by blast
  show ?thesis using pmm_alloc_page_correct[OF pmm_ok_init r] r by auto
qed

text \<open>
  C2. Freeing the frame that was just allocated restores the allocator's state exactly (bitmap
  and both counters).
\<close>

theorem pmm_alloc_free_roundtrip:
  assumes "pmm_ok s" "pmm_alloc_page s = (a, s')" "a \<noteq> 0"
  shows "pmm_free_page a s' = s"
proof -
  have wf: "pmm_wf s" using assms(1) by (simp add: pmm_ok_def)
  then show ?thesis
  proof (cases rule: pmm_alloc_page_cases)
    case (found p)
    then have pm: "p < PMM_MAX_PAGES" using wf by (simp add: pmm_wf_def)
    then have "unat a div PAGE_SIZE = p"
      using found(4) assms(2) unat_frame by (simp add: PAGE_SIZE_def)
    moreover have "s' = take_page p s" using found(4) assms(2) by simp
    ultimately show ?thesis
      using found pm wf take_give[of s p] by (simp add: pmm_free_page_def pmm_wf_def)
  qed (use assms in simp)
qed

theorem pmm_alloc_free_roundtrip_witness:
  "pmm_free_page 0x400000 (snd (pmm_alloc_page (pmm_init []))) = pmm_init []"
proof -
  obtain s' where r: "pmm_alloc_page (pmm_init []) = (0x400000, s')"
    using pmm_alloc_init_nil by blast
  show ?thesis using pmm_alloc_free_roundtrip[OF pmm_ok_init r] r by simp
qed



text \<open>
  C4. The page counters are exact after every initialisation and the low 4 MB are reserved:
  \<open>pmm_free_pages\<close>, a subtraction of two 32-bit counters, is the number of frames that are free
  in the bitmap.
\<close>

theorem pmm_init_accounting:
  "pmm_ok (pmm_init mmap)
   \<and> unat (pmm_free_pages (pmm_init mmap)) = card {a. frame_free (pmm_init mmap) a}"
proof -
  have wf: "pmm_wf (pmm_init mmap)" using pmm_ok_init by (simp add: pmm_ok_def)
  then have "pmm_used (pmm_init mmap) \<le> pmm_total (pmm_init mmap)"
    using card_used_le[of "pmm_init mmap"] by (simp add: pmm_wf_def word_le_nat_alt)
  then show ?thesis
    using wf card_frame_free[OF wf] pmm_ok_init
    by (simp add: pmm_free_pages_def unat_sub pmm_wf_def)
qed


end
