(* ===== verification/Fifo.thy ===== *)
theory Fifo
  imports Prelude
begin

text \<open>
  Bounded queues in circular buffers: the contents of a ring, the read loop, and the interface
  that the pipe buffers and the two keyboard buffers implement.
\<close>

text \<open>The \<open>n\<close> elements of a circular buffer from index \<open>t\<close> on.\<close>

definition ring :: "'a list \<Rightarrow> nat \<Rightarrow> nat \<Rightarrow> 'a list" where
  "ring buf t n = map (\<lambda>i. buf ! ((t + i) mod length buf)) [0..<n]"

text \<open>The loop \<open>while (read < len && nonempty)\<close>: take elements until \<open>len\<close> are read or none is left.\<close>

fun drain :: "('s \<Rightarrow> bool) \<Rightarrow> ('s \<Rightarrow> 'e \<times> 's) \<Rightarrow> nat \<Rightarrow> 's \<Rightarrow> 'e list \<times> 's" where
  "drain nonempty get 0 s = ([], s)"
| "drain nonempty get (Suc len) s =
     (if nonempty s then
        (let (x, s') = get s; (xs, s'') = drain nonempty get len s' in (x # xs, s''))
      else ([], s))"

lemma length_ring [simp]: "length (ring buf t n) = n"
  by (simp add: ring_def)

lemma ring_0 [simp]: "ring buf t 0 = []"
  by (simp add: ring_def)

lemma mod_add_inj:
  assumes "i < N" "j < N" "(t + i) mod N = (t + j) mod (N :: nat)"
  shows "i = j"
proof -
  have le: "i = j" if "i \<le> j" "j < N" "(t + i) mod N = (t + j) mod N" for i j :: nat
  proof -
    have "N dvd (t + j) - (t + i)" 
      using that(1,3) mod_eq_dvd_iff_nat[of "t + i" "t + j" N] by simp
    then show ?thesis using that(1,2) dvd_imp_le[of N "j - i"] by (cases "j = i") auto
  qed
  show ?thesis
  proof (cases "i \<le> j")
    case False
    then show ?thesis using le[of j i] assms by simp
  qed (use le[of i j] assms in simp)
qed

lemma ring_put:
  assumes "n < length buf"
  shows "ring (buf[(t + n) mod length buf := x]) t (Suc n) = ring buf t n @ [x]"
proof -
  have "buf[(t + n) mod length buf := x] ! ((t + i) mod length buf) = buf ! ((t + i) mod length buf)"
    if "i < n" for i
  proof -
    have "(t + n) mod length buf \<noteq> (t + i) mod length buf"
      using mod_add_inj[of i "length buf" n t] assms that by force
    then show ?thesis by (rule nth_list_update_neq)
  qed
  moreover have "(t + n) mod length buf < length buf" using assms by (intro mod_less_divisor) linarith
  ultimately show ?thesis by (simp add: ring_def)
qed

lemma ring_get:
  assumes "t < length buf"
  shows "ring buf t (Suc n) = buf ! t # ring buf ((t + 1) mod length buf) n"
proof -
  have "(t + Suc i) mod length buf = ((t + 1) mod length buf + i) mod length buf" for i
    by (simp add: mod_add_left_eq)
  then show ?thesis using assms by (simp add: ring_def upt_conv_Cons map_Suc_upt[symmetric] del: upt_Suc)
qed

locale bounded_fifo =
  fixes inv :: "'s \<Rightarrow> bool"
    and content :: "'s \<Rightarrow> 'e list"
    and cap :: nat
    and put :: "'e \<Rightarrow> 's \<Rightarrow> 's"
    and get :: "'s \<Rightarrow> 'e \<times> 's"
    and nonempty :: "'s \<Rightarrow> bool"
  assumes content_cap: "inv s \<Longrightarrow> length (content s) \<le> cap"
    and put_effect: "inv s \<Longrightarrow> length (content s) < cap \<Longrightarrow> inv (put x s) \<and> content (put x s) = content s @ [x]"
    and get_effect: "inv s \<Longrightarrow> content s \<noteq> [] \<Longrightarrow> inv (snd (get s)) \<and> content s = fst (get s) # content (snd (get s))"
    and nonempty_iff: "inv s \<Longrightarrow> nonempty s \<longleftrightarrow> content s \<noteq> []"
begin

lemma fold_put:
  "inv s \<Longrightarrow> length (content s) + length xs \<le> cap \<Longrightarrow>
     inv (fold put xs s) \<and> content (fold put xs s) = content s @ xs"
proof (induction xs arbitrary: s)
  case (Cons x xs)
  then show ?case using put_effect[of s x] by simp
qed simp

lemma drain_effect:
  "inv s \<Longrightarrow> drain nonempty get n s = (xs, s') \<Longrightarrow>
     inv s' \<and> xs = take n (content s) \<and> content s' = drop n (content s)"
proof (induction n arbitrary: s xs)
  case (Suc n)
  show ?case
  proof (cases "content s = []")
    case True
    then show ?thesis using Suc.prems nonempty_iff[of s] by simp
  next
    case False
    obtain ys where ys: "drain nonempty get n (snd (get s)) = (ys, s')" "xs = fst (get s) # ys"
      using Suc.prems False nonempty_iff[of s] by (auto simp: Let_def split: prod.splits)
    then show ?thesis
      using Suc.IH[OF _ ys(1)] get_effect[OF Suc.prems(1) False] by (metis drop_Suc_Cons take_Suc_Cons)
  qed
qed simp

lemma fill_then_drain:
  assumes "inv s" "content s = []" "length xs \<le> cap" "length xs \<le> n"
  shows "fst (drain nonempty get n (fold put xs s)) = xs"
proof -
  have "inv (fold put xs s) \<and> content (fold put xs s) = xs"
    using fold_put[of s xs] assms by simp
  then show ?thesis
    using drain_effect[of "fold put xs s" n "fst (drain nonempty get n (fold put xs s))"] assms(4)
    by (metis prod.collapse take_all)
qed

end

end
