(* ===== verification/Process.thy ===== *)
theory Process
  imports Prelude
begin

text \<open>
  Processes and the round-robin scheduler (kernel/process.c, kernel/scheduler.c, the tick handler
  of kernel/timer.c). A \<open>process_t *\<close> is the index of its slot in the table. The control transfer
  of \<open>context_switch\<close> is not a state change of the C code: \<open>scheduler_run_once\<close> is split at that
  call into \<open>scheduler_dispatch\<close> (up to the switch) and \<open>scheduler_return\<close> (after it), and an
  operation that switches back to the scheduler says so in its result.
\<close>

section \<open>State\<close>

definition PROCESS_MAX :: nat where "PROCESS_MAX = 16"
definition PROCESS_NAME_MAX :: nat where "PROCESS_NAME_MAX = 24"
definition PROCESS_STACK_SIZE :: u32 where "PROCESS_STACK_SIZE = 4096"
definition PREEMPT_TICKS :: u32 where "PREEMPT_TICKS = 10"

datatype process_state =
    PROCESS_UNUSED | PROCESS_READY | PROCESS_RUNNING | PROCESS_SLEEPING | PROCESS_BLOCKED
  | PROCESS_ZOMBIE

record process =
  p_pid :: u32
  p_name :: string
  p_state :: process_state
  p_entry :: u32
  p_arg :: u32
  p_esp :: u32
  p_stack :: u32
  p_stack_size :: u32
  p_cr3 :: u32
  p_user_stack :: u32
  p_user_esp :: u32
  p_wake_tick :: u32
  p_ticks_run :: u32
  p_runs :: u32
  p_cwd_cluster :: u32
  p_stdin_redirect :: int
  p_stdout_redirect :: int
  p_waiting_for_pid :: u32

text \<open>The globals of process.c, scheduler.c and timer.c; \<open>esp0\<close> is the TSS field that
  \<open>tss_set_stack\<close> sets and \<open>process_stacks\<close> the address of the static array of kernel stacks.\<close>

record kproc =
  process_table :: "process list"
  current_process :: "nat option"
  next_pid :: u32
  scheduler_ready :: bool
  current_index :: nat
  ticks :: u32
  esp0 :: u32
  process_stacks :: u32

abbreviation proc :: "kproc \<Rightarrow> nat \<Rightarrow> process" where
  "proc k i \<equiv> process_table k ! i"

abbreviation st :: "kproc \<Rightarrow> nat \<Rightarrow> process_state" where
  "st k i \<equiv> p_state (proc k i)"

definition upd_proc :: "nat \<Rightarrow> (process \<Rightarrow> process) \<Rightarrow> kproc \<Rightarrow> kproc" where
  "upd_proc i f k = k\<lparr>process_table := (process_table k)[i := f (proc k i)]\<rparr>"

abbreviation set_state :: "nat \<Rightarrow> process_state \<Rightarrow> kproc \<Rightarrow> kproc" where
  "set_state i s \<equiv> upd_proc i (\<lambda>p. p\<lparr>p_state := s\<rparr>)"

section \<open>Process table operations\<close>

definition alloc_pid :: "kproc \<Rightarrow> u32 \<times> kproc" where
  "alloc_pid k = (next_pid k, k\<lparr>next_pid := next_pid k + 1\<rparr>)"

definition stack_push :: "u32 \<Rightarrow> u32 \<Rightarrow> mem \<Rightarrow> u32 \<times> mem" where
  "stack_push sp v m = (sp - 4, write32 m (sp - 4) v)"

definition build_initial_stack :: "u32 \<Rightarrow> u32 \<Rightarrow> u32 \<Rightarrow> mem \<Rightarrow> u32 \<times> mem" where
  "build_initial_stack stack_mem stack_sz bootstrap m =
     (let sp = stack_mem + stack_sz;
          (sp, m) = stack_push sp bootstrap m;
          (sp, m) = stack_push sp 0 m;
          (sp, m) = stack_push sp 0 m;
          (sp, m) = stack_push sp 0 m;
          (sp, m) = stack_push sp 0 m
      in (sp, m))"

definition copy_name :: "string option \<Rightarrow> string" where
  "copy_name src =
     (let s = (case src of None \<Rightarrow> ''kernel-task'' | Some s \<Rightarrow> if s = [] then ''kernel-task'' else s)
      in take (PROCESS_NAME_MAX - 1) s)"

definition process_init :: "kproc \<Rightarrow> kproc" where
  "process_init k = k\<lparr>process_table := map (\<lambda>p. p\<lparr>p_pid := 0, p_name := [], p_state := PROCESS_UNUSED,
       p_entry := 0, p_arg := 0, p_esp := 0, p_stack := 0, p_stack_size := 0, p_wake_tick := 0,
       p_ticks_run := 0, p_runs := 0, p_cwd_cluster := 0, p_stdin_redirect := -1,
       p_stdout_redirect := -1, p_waiting_for_pid := 0\<rparr>) (process_table k),
     current_process := None, next_pid := 1\<rparr>"

fun scan_unused :: "process list \<Rightarrow> nat \<Rightarrow> nat option" where
  "scan_unused [] i = None"
| "scan_unused (p # ps) i = (if p_state p = PROCESS_UNUSED then Some i else scan_unused ps (Suc i))"

text \<open>The interrupt-off section of \<open>process_spawn_user\<close>.\<close>

definition spawn_claim :: "kproc \<Rightarrow> (nat \<times> kproc) option" where
  "spawn_claim k =
     (case scan_unused (process_table k) 0 of
        None \<Rightarrow> None
      | Some i \<Rightarrow>
          let (pid, k') = alloc_pid (set_state i PROCESS_BLOCKED k)
          in Some (i, upd_proc i (\<lambda>p. p\<lparr>p_pid := pid, p_waiting_for_pid := 0\<rparr>) k'))"

definition spawn_fill :: "nat \<Rightarrow> string option \<Rightarrow> u32 \<Rightarrow> u32 \<Rightarrow> u32 \<Rightarrow> u32 \<Rightarrow> u32 \<Rightarrow> mem \<Rightarrow> kproc
    \<Rightarrow> mem \<times> kproc" where
  "spawn_fill i name user_entry user_esp cr3 cwd bootstrap m k =
     (let stack = process_stacks k + of_nat i * PROCESS_STACK_SIZE;
          (esp, m) = build_initial_stack stack PROCESS_STACK_SIZE bootstrap m
      in (m, upd_proc i (\<lambda>p. p\<lparr>p_name := copy_name name, p_entry := 0, p_arg := user_entry,
            p_stack := stack, p_stack_size := PROCESS_STACK_SIZE, p_esp := esp, p_cr3 := cr3,
            p_user_esp := user_esp, p_user_stack := 0, p_wake_tick := 0, p_ticks_run := 0,
            p_runs := 0, p_cwd_cluster := cwd, p_stdin_redirect := -1, p_stdout_redirect := -1\<rparr>) k))"

definition process_spawn_user :: "string option \<Rightarrow> u32 \<Rightarrow> u32 \<Rightarrow> u32 \<Rightarrow> u32 \<Rightarrow> bool \<Rightarrow> u32 \<Rightarrow> mem
    \<Rightarrow> kproc \<Rightarrow> nat option \<times> mem \<times> kproc" where
  "process_spawn_user name user_entry user_esp cr3 cwd start_blocked bootstrap m k =
     (if bootstrap = 0 then (None, m, k)
      else case spawn_claim k of
        None \<Rightarrow> (None, m, k)
      | Some (i, k1) \<Rightarrow>
          let (m, k2) = spawn_fill i name user_entry user_esp cr3 cwd bootstrap m k1
          in (Some i, m, if start_blocked then k2 else set_state i PROCESS_READY k2))"

definition process_make_ready :: "nat option \<Rightarrow> kproc \<Rightarrow> kproc" where
  "process_make_ready p k =
     (case p of None \<Rightarrow> k
      | Some i \<Rightarrow> if st k i = PROCESS_BLOCKED then set_state i PROCESS_READY k else k)"

definition process_at :: "nat \<Rightarrow> nat option" where
  "process_at index = (if index \<ge> PROCESS_MAX then None else Some index)"

definition wake_waiter :: "u32 \<Rightarrow> process \<Rightarrow> process" where
  "wake_waiter exited_pid p =
     (if p_state p = PROCESS_BLOCKED \<and> p_waiting_for_pid p = exited_pid
      then p\<lparr>p_waiting_for_pid := 0, p_state := PROCESS_READY\<rparr> else p)"

definition process_exit :: "nat option \<Rightarrow> kproc \<Rightarrow> kproc" where
  "process_exit pr k =
     (case pr of None \<Rightarrow> k
      | Some i \<Rightarrow>
          if st k i = PROCESS_UNUSED then k
          else let exited_pid = p_pid (proc k i);
                   k' = upd_proc i (\<lambda>p. p\<lparr>p_state := PROCESS_UNUSED, p_pid := 0\<rparr>) k
               in k'\<lparr>process_table := map (wake_waiter exited_pid) (process_table k')\<rparr>)"

definition process_sleep :: "nat option \<Rightarrow> u32 \<Rightarrow> u32 \<Rightarrow> kproc \<Rightarrow> kproc" where
  "process_sleep pr now n k =
     (case pr of None \<Rightarrow> k
      | Some i \<Rightarrow>
          if st k i = PROCESS_UNUSED then k
          else upd_proc i (\<lambda>p. p\<lparr>p_wake_tick := now + n, p_state := PROCESS_SLEEPING\<rparr>) k)"

definition wake_sleeper :: "u32 \<Rightarrow> process \<Rightarrow> process" where
  "wake_sleeper now p =
     (if p_state p = PROCESS_SLEEPING \<and> now \<ge> p_wake_tick p then p\<lparr>p_state := PROCESS_READY\<rparr> else p)"

definition process_wake_sleepers :: "u32 \<Rightarrow> kproc \<Rightarrow> kproc" where
  "process_wake_sleepers now k =
     k\<lparr>process_table := map (wake_sleeper now) (process_table k)\<rparr>"

section \<open>Scheduler and tick handler\<close>

definition scheduler_init :: "kproc \<Rightarrow> kproc" where
  "scheduler_init k = (process_init k)\<lparr>scheduler_ready := True, current_index := PROCESS_MAX - 1\<rparr>"

definition scheduler_spawn_user :: "string option \<Rightarrow> u32 \<Rightarrow> u32 \<Rightarrow> u32 \<Rightarrow> u32 \<Rightarrow> bool \<Rightarrow> u32 \<Rightarrow> mem
    \<Rightarrow> kproc \<Rightarrow> nat option \<times> mem \<times> kproc" where
  "scheduler_spawn_user name user_entry user_esp cr3 cwd start_blocked bootstrap m k =
     (if \<not> scheduler_ready k then (None, m, k)
      else process_spawn_user name user_entry user_esp cr3 cwd start_blocked bootstrap m k)"

definition scheduler_tick :: "u32 \<Rightarrow> kproc \<Rightarrow> kproc" where
  "scheduler_tick tick k = (if \<not> scheduler_ready k then k else process_wake_sleepers tick k)"

function scan_ready :: "kproc \<Rightarrow> nat \<Rightarrow> nat option" where
  "scan_ready k scanned =
     (if scanned < PROCESS_MAX then
        (let index = (current_index k + 1 + scanned) mod PROCESS_MAX in
         case process_at index of
           None \<Rightarrow> scan_ready k (Suc scanned)
         | Some i \<Rightarrow> if st k i \<noteq> PROCESS_READY then scan_ready k (Suc scanned) else Some i)
      else None)"
  by pat_completeness auto
termination by (relation "measure (\<lambda>(k, scanned). PROCESS_MAX - scanned)") auto

text \<open>\<open>scheduler_run_once\<close> up to \<open>context_switch\<close>; the process switched to is the new
  \<open>current_process\<close>.\<close>

definition scheduler_dispatch :: "kproc \<Rightarrow> kproc" where
  "scheduler_dispatch k =
     (if \<not> scheduler_ready k then k
      else case scan_ready k 0 of
        None \<Rightarrow> k
      | Some i \<Rightarrow>
          let k1 = upd_proc i (\<lambda>p. p\<lparr>p_state := PROCESS_RUNNING, p_runs := p_runs p + 1,
                     p_ticks_run := ticks k\<rparr>) (k\<lparr>current_index := i, current_process := Some i\<rparr>)
          in k1\<lparr>esp0 := p_stack (proc k1 i) + p_stack_size (proc k1 i)\<rparr>)"

text \<open>\<open>scheduler_run_once\<close> after \<open>context_switch\<close>: its local \<open>process\<close> is the slot it dispatched,
  which \<open>current_index\<close> still names.\<close>

definition scheduler_return :: "kproc \<Rightarrow> kproc" where
  "scheduler_return k =
     (let i = current_index k;
          k1 = (if st k i = PROCESS_RUNNING then set_state i PROCESS_READY k else k)
      in k1\<lparr>current_process := None\<rparr>)"

text \<open>The result's second component says whether the CPU was switched to the scheduler.\<close>

definition scheduler_yield :: "kproc \<Rightarrow> kproc \<times> bool" where
  "scheduler_yield k =
     (case current_process k of None \<Rightarrow> (k, False)
      | Some i \<Rightarrow>
          (if st k i = PROCESS_RUNNING then set_state i PROCESS_READY k else k, True))"

definition scheduler_sleep_current :: "u32 \<Rightarrow> kproc \<Rightarrow> kproc \<times> bool" where
  "scheduler_sleep_current n k =
     (case current_process k of None \<Rightarrow> (k, False)
      | Some i \<Rightarrow> if n = 0 then scheduler_yield k
                  else (process_sleep (Some i) (ticks k) n k, True))"

definition scheduler_block_current :: "kproc \<Rightarrow> kproc \<times> bool" where
  "scheduler_block_current k =
     (case current_process k of None \<Rightarrow> (k, False) | Some i \<Rightarrow> (k, True))"

definition timer_callback :: "kproc \<Rightarrow> kproc \<times> bool" where
  "timer_callback k =
     (let k1 = scheduler_tick (ticks k + 1) (k\<lparr>ticks := ticks k + 1\<rparr>) in
      case current_process k1 of None \<Rightarrow> (k1, False)
      | Some i \<Rightarrow>
          if st k1 i = PROCESS_RUNNING \<and> ticks k1 - p_ticks_run (proc k1 i) \<ge> PREEMPT_TICKS
          then scheduler_yield k1 else (k1, False))"

text \<open>The slot claim of \<open>process_fork\<close>: the interrupt-off section, lines 193 to 207.\<close>

definition fork_claim :: "kproc \<Rightarrow> (nat \<times> kproc) option" where
  "fork_claim k =
     (case scan_unused (process_table k) 0 of
        None \<Rightarrow> None
      | Some i \<Rightarrow>
          let (pid, k') = alloc_pid k
          in Some (i, upd_proc i (\<lambda>p. p\<lparr>p_pid := pid, p_state := PROCESS_BLOCKED\<rparr>) k'))"

text \<open>Waiting and killing by pid (kernel/syscall.c). One round of \<open>sys_wait\<close> is the
  interrupt-off section: \<open>True\<close> means the pid is gone and the call returns 0, \<open>False\<close> that the
  caller is now blocked on it.\<close>

fun find_pid :: "u32 \<Rightarrow> process list \<Rightarrow> nat \<Rightarrow> nat option" where
  "find_pid pid [] i = None"
| "find_pid pid (p # ps) i =
     (if p_pid p = pid \<and> p_state p \<noteq> PROCESS_UNUSED then Some i else find_pid pid ps (Suc i))"

definition sys_wait_round :: "nat \<Rightarrow> u32 \<Rightarrow> kproc \<Rightarrow> bool \<times> kproc" where
  "sys_wait_round cur pid k =
     (case find_pid pid (process_table k) 0 of
        None \<Rightarrow> (True, k)
      | Some _ \<Rightarrow>
          (False, upd_proc cur (\<lambda>p. p\<lparr>p_waiting_for_pid := pid, p_state := PROCESS_BLOCKED\<rparr>) k))"

definition sys_kill :: "u32 \<Rightarrow> kproc \<Rightarrow> int \<times> kproc" where
  "sys_kill pid k =
     (case find_pid pid (process_table k) 0 of
        None \<Rightarrow> (-1, k)
      | Some i \<Rightarrow> (0, process_exit (Some i) k))"

declare scan_ready.simps [simp del]

section \<open>Slot lemmas\<close>

lemma length_upd_proc [simp]: "length (process_table (upd_proc i f k)) = length (process_table k)"
  by (simp add: upd_proc_def)

lemma upd_proc_simps [simp]:
  "current_process (upd_proc i f k) = current_process k"
  "next_pid (upd_proc i f k) = next_pid k"
  "scheduler_ready (upd_proc i f k) = scheduler_ready k"
  "current_index (upd_proc i f k) = current_index k"
  "ticks (upd_proc i f k) = ticks k"
  "process_stacks (upd_proc i f k) = process_stacks k"
  by (simp_all add: upd_proc_def)

lemma proc_upd_proc:
  "i < length (process_table k) \<Longrightarrow> proc (upd_proc i f k) j = (if j = i then f (proc k i) else proc k j)"
  by (simp add: upd_proc_def)

lemma scan_unused_Some:
  "scan_unused ps i = Some j \<Longrightarrow> i \<le> j \<and> j < i + length ps \<and> p_state (ps ! (j - i)) = PROCESS_UNUSED"
proof (induction ps arbitrary: i)
  case (Cons p ps)
  then show ?case
    by (cases "p_state p = PROCESS_UNUSED") (fastforce simp: nth_Cons' Suc_diff_Suc)+
qed simp

lemma scan_unused_None:
  "scan_unused ps i = None \<longleftrightarrow> (\<forall>p \<in> set ps. p_state p \<noteq> PROCESS_UNUSED)"
  by (induction ps arbitrary: i) auto

lemma find_pid_Some:
  "find_pid pid ps i = Some j \<Longrightarrow>
     i \<le> j \<and> j < i + length ps \<and> p_pid (ps ! (j - i)) = pid \<and> p_state (ps ! (j - i)) \<noteq> PROCESS_UNUSED"
proof (induction ps arbitrary: i)
  case (Cons p ps)
  then show ?case
    by (cases "p_pid p = pid \<and> p_state p \<noteq> PROCESS_UNUSED") (fastforce simp: nth_Cons' Suc_diff_Suc)+
qed simp

lemma find_pid_None:
  "find_pid pid ps i = None \<longleftrightarrow> (\<forall>p \<in> set ps. p_pid p = pid \<longrightarrow> p_state p = PROCESS_UNUSED)"
  by (induction ps arbitrary: i) auto

section \<open>Round robin\<close>

text \<open>How many slots the scheduler passes before it reaches slot \<open>i\<close> from \<open>current_index\<close>.\<close>

definition rr_dist :: "nat \<Rightarrow> nat \<Rightarrow> nat" where
  "rr_dist ci i = (i + (2 * PROCESS_MAX - 1 - ci)) mod PROCESS_MAX"

lemma rr_dist_less [simp]: "rr_dist ci i < PROCESS_MAX"
  by (simp add: rr_dist_def PROCESS_MAX_def)

lemma rr_dist_inv:
  assumes "ci < PROCESS_MAX" "i < PROCESS_MAX"
  shows "(ci + 1 + rr_dist ci i) mod PROCESS_MAX = i"
proof -
  have "(ci + 1 + rr_dist ci i) mod PROCESS_MAX
      = (ci + 1 + (i + (2 * PROCESS_MAX - 1 - ci))) mod PROCESS_MAX"
    unfolding rr_dist_def by (rule mod_add_right_eq)
  also have "ci + 1 + (i + (2 * PROCESS_MAX - 1 - ci)) = i + 2 * PROCESS_MAX"
    using assms(1) by simp
  finally show ?thesis using assms(2) by simp
qed

lemma rr_dist_of_step:
  assumes "ci < PROCESS_MAX" "d < PROCESS_MAX"
  shows "rr_dist ci ((ci + 1 + d) mod PROCESS_MAX) = d"
proof -
  have "rr_dist ci ((ci + 1 + d) mod PROCESS_MAX)
      = (ci + 1 + d + (2 * PROCESS_MAX - 1 - ci)) mod PROCESS_MAX"
    unfolding rr_dist_def by (rule mod_add_left_eq)
  also have "ci + 1 + d + (2 * PROCESS_MAX - 1 - ci) = d + 2 * PROCESS_MAX"
    using assms(1) by simp
  finally show ?thesis using assms(2) by simp
qed

lemma rr_dist_decreases:
  assumes "ci < PROCESS_MAX" "i < PROCESS_MAX" "j < PROCESS_MAX" "rr_dist ci j < rr_dist ci i"
  shows "rr_dist j i < rr_dist ci i"
proof -
  have "j = (ci + 1 + rr_dist ci j) mod PROCESS_MAX" "i = (ci + 1 + rr_dist ci i) mod PROCESS_MAX"
    using rr_dist_inv assms by simp_all
  have "i = (ci + 1 + rr_dist ci j + 1 + (rr_dist ci i - rr_dist ci j - 1)) mod PROCESS_MAX"
    using rr_dist_inv[OF assms(1,2)] assms(4) by (simp add: algebra_simps)
  also have "\<dots> = ((ci + 1 + rr_dist ci j) mod PROCESS_MAX + (1 + (rr_dist ci i - rr_dist ci j - 1))) mod PROCESS_MAX"
    unfolding mod_add_left_eq by (simp add: algebra_simps)
  also have "\<dots> = (j + 1 + (rr_dist ci i - rr_dist ci j - 1)) mod PROCESS_MAX"
    using rr_dist_inv[OF assms(1,3)] by (simp add: algebra_simps)
  finally have "rr_dist j i = rr_dist ci i - rr_dist ci j - 1"
    using rr_dist_of_step[OF assms(3), of "rr_dist ci i - rr_dist ci j - 1"]
      less_imp_diff_less[OF rr_dist_less[of ci i]] by (simp add: algebra_simps)
  then show ?thesis using assms(4) by simp
qed

lemma scan_ready_from:
  "case scan_ready k n of
     None \<Rightarrow> \<forall>e. n \<le> e \<and> e < PROCESS_MAX \<longrightarrow> st k ((current_index k + 1 + e) mod PROCESS_MAX) \<noteq> PROCESS_READY
   | Some i \<Rightarrow> \<exists>d. n \<le> d \<and> d < PROCESS_MAX \<and> i = (current_index k + 1 + d) mod PROCESS_MAX
        \<and> st k i = PROCESS_READY
        \<and> (\<forall>e. n \<le> e \<and> e < d \<longrightarrow> st k ((current_index k + 1 + e) mod PROCESS_MAX) \<noteq> PROCESS_READY)"
proof (induction k n rule: scan_ready.induct)
  case (1 k n)
  let ?ix = "(current_index k + 1 + n) mod PROCESS_MAX"
  have at: "process_at ?ix = Some ?ix" by (simp add: process_at_def PROCESS_MAX_def)
  show ?case
  proof (cases "n < PROCESS_MAX \<and> st k ?ix \<noteq> PROCESS_READY")
    case True
    then have eq: "scan_ready k n = scan_ready k (Suc n)"
      using at by (simp add: scan_ready.simps[of k n] Let_def)
    have ih: "case scan_ready k (Suc n) of
       None \<Rightarrow> \<forall>e. Suc n \<le> e \<and> e < PROCESS_MAX \<longrightarrow> st k ((current_index k + 1 + e) mod PROCESS_MAX) \<noteq> PROCESS_READY
     | Some i \<Rightarrow> \<exists>d. Suc n \<le> d \<and> d < PROCESS_MAX \<and> i = (current_index k + 1 + d) mod PROCESS_MAX
          \<and> st k i = PROCESS_READY
          \<and> (\<forall>e. Suc n \<le> e \<and> e < d \<longrightarrow> st k ((current_index k + 1 + e) mod PROCESS_MAX) \<noteq> PROCESS_READY)"
      using "1.IH"(2)[OF _ refl at] True by simp
    have split: "n \<le> e \<longleftrightarrow> e = n \<or> Suc n \<le> e" for e by auto
    show ?thesis
    proof (cases "scan_ready k (Suc n)")
      case None
      then show ?thesis using ih True unfolding eq by (auto simp: split)
    next
      case (Some i)
      then obtain d where d: "Suc n \<le> d" "d < PROCESS_MAX" "i = (current_index k + 1 + d) mod PROCESS_MAX"
          "st k i = PROCESS_READY"
          "\<And>e. Suc n \<le> e \<Longrightarrow> e < d \<Longrightarrow> st k ((current_index k + 1 + e) mod PROCESS_MAX) \<noteq> PROCESS_READY"
        using ih by auto
      then have "\<forall>e. n \<le> e \<and> e < d \<longrightarrow> st k ((current_index k + 1 + e) mod PROCESS_MAX) \<noteq> PROCESS_READY"
        using True by (auto simp: split)
      then have "\<exists>d. n \<le> d \<and> d < PROCESS_MAX \<and> i = (current_index k + 1 + d) mod PROCESS_MAX
          \<and> st k i = PROCESS_READY
          \<and> (\<forall>e. n \<le> e \<and> e < d \<longrightarrow> st k ((current_index k + 1 + e) mod PROCESS_MAX) \<noteq> PROCESS_READY)"
        using d(1-4) Suc_leD[OF d(1)] by blast
      then show ?thesis unfolding eq Some option.case .
    qed
  next
    case False
    then show ?thesis
      using at by (auto simp: scan_ready.simps[of k n] Let_def intro!: exI[of _ n])
  qed
qed

lemma scan_ready_Some:
  assumes "scan_ready k 0 = Some i" "current_index k < PROCESS_MAX"
  shows "i < PROCESS_MAX" "st k i = PROCESS_READY"
    "\<And>j. j < PROCESS_MAX \<Longrightarrow> st k j = PROCESS_READY \<Longrightarrow> rr_dist (current_index k) i \<le> rr_dist (current_index k) j"
proof -
  obtain d where d: "d < PROCESS_MAX" "i = (current_index k + 1 + d) mod PROCESS_MAX" "st k i = PROCESS_READY"
     "\<And>e. e < d \<Longrightarrow> st k ((current_index k + 1 + e) mod PROCESS_MAX) \<noteq> PROCESS_READY"
    using scan_ready_from[where k = k and n = 0] assms(1) by auto
  show "i < PROCESS_MAX" "st k i = PROCESS_READY" using d by (simp_all add: PROCESS_MAX_def)
  show "rr_dist (current_index k) i \<le> rr_dist (current_index k) j"
    if "j < PROCESS_MAX" "st k j = PROCESS_READY" for j
    using d(4)[of "rr_dist (current_index k) j"] rr_dist_inv[OF assms(2) that(1)] that(2)
      rr_dist_of_step[OF assms(2) d(1)] d(2) by (metis not_le_imp_less)
qed

lemma scan_ready_None:
  assumes "scan_ready k 0 = None" "current_index k < PROCESS_MAX" "j < PROCESS_MAX"
  shows "st k j \<noteq> PROCESS_READY"
proof -
  have "st k ((current_index k + 1 + rr_dist (current_index k) j) mod PROCESS_MAX) \<noteq> PROCESS_READY"
    using scan_ready_from[where k = k and n = 0] assms(1) rr_dist_less by simp
  then show ?thesis using rr_dist_inv[OF assms(2,3)] by simp
qed

text \<open>What a dispatch does: nothing when no slot is ready, otherwise it runs the nearest one.\<close>

lemma dispatch_ready:
  assumes "length (process_table k) = PROCESS_MAX" "current_index k < PROCESS_MAX"
    "scheduler_ready k" "i < PROCESS_MAX" "st k i = PROCESS_READY"
  obtains j where "j < PROCESS_MAX" "st k j = PROCESS_READY"
    "rr_dist (current_index k) j \<le> rr_dist (current_index k) i"
    "current_index (scheduler_dispatch k) = j" "current_process (scheduler_dispatch k) = Some j"
    "\<And>l. l \<noteq> j \<Longrightarrow> proc (scheduler_dispatch k) l = proc k l"
    "st (scheduler_dispatch k) j = PROCESS_RUNNING"
    "scheduler_ready (scheduler_dispatch k)"
    "length (process_table (scheduler_dispatch k)) = PROCESS_MAX"
proof -
  obtain j where j: "scan_ready k 0 = Some j"
    using scan_ready_None[OF _ assms(2,4)] assms(5) by fastforce
  note jj = scan_ready_Some[OF j assms(2)]
  have "j < length (process_table k)" using jj(1) assms(1) by simp
  then show thesis
    using that[of j] jj assms j by (simp add: scheduler_dispatch_def Let_def upd_proc_def)
qed

lemma return_other:
  assumes "length (process_table k) = PROCESS_MAX" "current_index k < PROCESS_MAX"
  shows "current_index (scheduler_return k) = current_index k"
    "scheduler_ready (scheduler_return k) = scheduler_ready k"
    "length (process_table (scheduler_return k)) = PROCESS_MAX"
    "current_process (scheduler_return k) = None"
    "st (scheduler_return k) i =
       (if i = current_index k \<and> st k i = PROCESS_RUNNING then PROCESS_READY else st k i)"
  using assms by (auto simp: scheduler_return_def Let_def upd_proc_def)

text \<open>Consecutive scheduling rounds: the slots dispatched, where the functions say what the
  dispatched processes and the interrupts do until control returns to the scheduler.\<close>

fun dispatched :: "(kproc \<Rightarrow> kproc) list \<Rightarrow> kproc \<Rightarrow> nat list" where
  "dispatched [] k = []"
| "dispatched (f # fs) k =
     current_index (scheduler_dispatch k) # dispatched fs (scheduler_return (f (scheduler_dispatch k)))"

text \<open>Activity that leaves the scheduler's own variables alone and keeps a ready slot ready.\<close>

definition keeps_ready :: "nat \<Rightarrow> (kproc \<Rightarrow> kproc) \<Rightarrow> bool" where
  "keeps_ready i f \<longleftrightarrow> (\<forall>k. length (process_table (f k)) = length (process_table k)
     \<and> current_index (f k) = current_index k \<and> scheduler_ready (f k) = scheduler_ready k
     \<and> (i < length (process_table k) \<and> st k i = PROCESS_READY \<longrightarrow> st (f k) i = PROCESS_READY))"

lemma dispatched_within_dist:
  assumes "length (process_table k) = PROCESS_MAX" "current_index k < PROCESS_MAX"
    "scheduler_ready k" "i < PROCESS_MAX" "st k i = PROCESS_READY"
    "\<forall>f \<in> set fs. keeps_ready i f" "rr_dist (current_index k) i < length fs"
  shows "i \<in> set (take (Suc (rr_dist (current_index k) i)) (dispatched fs k))"
  using assms
proof (induction fs arbitrary: k)
  case (Cons f fs)
  let ?ci = "current_index k"
  let ?k = "scheduler_dispatch k"
  obtain j where j: "j < PROCESS_MAX" "rr_dist ?ci j \<le> rr_dist ?ci i"
      "current_index ?k = j" "\<And>l. l \<noteq> j \<Longrightarrow> proc ?k l = proc k l" "scheduler_ready ?k"
      "length (process_table ?k) = PROCESS_MAX"
    using dispatch_ready[OF Cons.prems(1-5)] by metis
  show ?case
  proof (cases "j = i")
    case True
    then show ?thesis using j(3) by simp
  next
    case False
    have lt: "rr_dist ?ci j < rr_dist ?ci i"
      using j(1,2) False rr_dist_inv[OF Cons.prems(2) j(1)] rr_dist_inv[OF Cons.prems(2) Cons.prems(4)]
      by (metis le_neq_implies_less)
    have dec: "rr_dist j i < rr_dist ?ci i"
      by (rule rr_dist_decreases[OF Cons.prems(2,4) j(1) lt])
    have keep: "keeps_ready i f" using Cons.prems(6) by simp
    let ?k' = "f ?k"
    have ks: "length (process_table ?k') = PROCESS_MAX" "current_index ?k' = j" "scheduler_ready ?k'"
        "st ?k' i = PROCESS_READY"
      using keep j(3-6) False Cons.prems(4,5) unfolding keeps_ready_def by simp_all
    have lt': "current_index ?k' < PROCESS_MAX" using ks(2) j(1) by simp
    note ret = return_other[OF ks(1) lt']
    have "rr_dist (current_index (scheduler_return ?k')) i < length fs"
      using dec Cons.prems(7) by (simp add: ret ks(2))
    then have "i \<in> set (take (Suc (rr_dist j i)) (dispatched fs (scheduler_return ?k')))"
      using Cons.IH[of "scheduler_return ?k'"] Cons.prems(4,6) ret ks j(1) by simp
    then have "i \<in> set (take (rr_dist ?ci i) (dispatched fs (scheduler_return ?k')))"
      using dec set_take_subset_set_take by (meson Suc_leI subsetD)
    then show ?thesis by simp
  qed
qed simp

section \<open>The process state machine\<close>

text \<open>
  The steps that change the process table while the machine runs. The running process can yield,
  sleep, wait for a pid, block on an event and exit; interrupts can tick, preempt and wake; a
  process can be killed by another one and a new one spawned. A step that gives up the CPU ends
  with \<open>scheduler_return\<close>. A process that enters a blocking call has no pid wait pending, which
  \<open>sys_wait\<close> ensures by clearing the field right after it resumes; a process is not killed by
  itself, and the 32-bit pid counter has not wrapped when a process is spawned.
\<close>

inductive kstep :: "kproc \<Rightarrow> kproc \<Rightarrow> bool" where
  ks_dispatch: "current_process k = None \<Longrightarrow> kstep k (scheduler_dispatch k)"
| ks_tick: "timer_callback k = (k', False) \<Longrightarrow> kstep k k'"
| ks_preempt: "timer_callback k = (k', True) \<Longrightarrow> kstep k (scheduler_return k')"
| ks_yield: "scheduler_yield k = (k', True) \<Longrightarrow> kstep k (scheduler_return k')"
| ks_sleep: "scheduler_sleep_current n k = (k', True) \<Longrightarrow> kstep k (scheduler_return k')"
| ks_wait: "current_process k = Some c \<Longrightarrow> sys_wait_round c pid k = (False, k') \<Longrightarrow>
    kstep k (scheduler_return (fst (scheduler_block_current k')))"
| ks_wait_resume: "current_process k = Some c \<Longrightarrow>
    kstep k (upd_proc c (\<lambda>p. p\<lparr>p_waiting_for_pid := 0\<rparr>) k)"
| ks_block: "current_process k = Some c \<Longrightarrow> p_waiting_for_pid (proc k c) = 0 \<Longrightarrow>
    kstep k (scheduler_return (fst (scheduler_block_current (set_state c PROCESS_BLOCKED k))))"
| ks_wake: "j < PROCESS_MAX \<Longrightarrow> kstep k (process_make_ready (Some j) k)"
| ks_exit: "current_process k = Some c \<Longrightarrow>
    kstep k (scheduler_return (fst (scheduler_yield (process_exit (Some c) k))))"
| ks_kill: "current_process k = Some c \<Longrightarrow> p_pid (proc k c) \<noteq> pid \<Longrightarrow> sys_kill pid k = (r, k') \<Longrightarrow> kstep k k'"
| ks_spawn: "next_pid k \<noteq> -1 \<Longrightarrow> next_pid k \<noteq> 0 \<Longrightarrow>
    scheduler_spawn_user name entry uesp cr3 cwd blk boot m k = (r, m', k') \<Longrightarrow> kstep k k'"

definition live :: "kproc \<Rightarrow> nat \<Rightarrow> bool" where
  "live k i \<longleftrightarrow> i < PROCESS_MAX \<and> st k i \<noteq> PROCESS_UNUSED"

text \<open>
  The invariant: only the current slot runs; a current process is live; live pids are nonzero,
  pairwise different and below the next one; and whoever is blocked on a pid waits for a live
  process, so its wake-up is still to come.
\<close>

definition sched_shape :: "kproc \<Rightarrow> bool" where
  "sched_shape k \<longleftrightarrow> length (process_table k) = PROCESS_MAX \<and> current_index k < PROCESS_MAX
     \<and> current_process k \<in> {None, Some (current_index k)}
     \<and> (\<forall>i < PROCESS_MAX. st k i = PROCESS_RUNNING \<longrightarrow> current_process k = Some i)"

definition sched_inv :: "kproc \<Rightarrow> bool" where
  "sched_inv k \<longleftrightarrow> sched_shape k \<and> (current_process k \<noteq> None \<longrightarrow> live k (current_index k))"

definition pid_inv :: "kproc \<Rightarrow> bool" where
  "pid_inv k \<longleftrightarrow> (\<forall>i. live k i \<longrightarrow> p_pid (proc k i) \<noteq> 0 \<and> p_pid (proc k i) < next_pid k)
     \<and> (\<forall>i j. live k i \<longrightarrow> live k j \<longrightarrow> p_pid (proc k i) = p_pid (proc k j) \<longrightarrow> i = j)"

definition wait_inv :: "kproc \<Rightarrow> bool" where
  "wait_inv k \<longleftrightarrow> (\<forall>i < PROCESS_MAX. st k i = PROCESS_BLOCKED \<and> p_waiting_for_pid (proc k i) \<noteq> 0
     \<longrightarrow> (\<exists>j. live k j \<and> p_pid (proc k j) = p_waiting_for_pid (proc k i)))"

definition proc_inv :: "kproc \<Rightarrow> bool" where
  "proc_inv k \<longleftrightarrow> sched_inv k \<and> pid_inv k \<and> wait_inv k"

text \<open>Most steps change only the state field of slots, never from or to \<open>UNUSED\<close>, and leave the
  pids alone; then the pid invariant is kept, and the wait invariant when no slot becomes blocked.\<close>

definition same_ids :: "kproc \<Rightarrow> kproc \<Rightarrow> bool" where
  "same_ids k k' \<longleftrightarrow> next_pid k' = next_pid k \<and> (\<forall>i < PROCESS_MAX.
     p_pid (proc k' i) = p_pid (proc k i)
     \<and> (st k' i = PROCESS_UNUSED \<longleftrightarrow> st k i = PROCESS_UNUSED)
     \<and> (st k' i = PROCESS_BLOCKED \<and> p_waiting_for_pid (proc k' i) \<noteq> 0 \<longrightarrow>
          st k i = PROCESS_BLOCKED \<and> p_waiting_for_pid (proc k' i) = p_waiting_for_pid (proc k i)))"

lemma same_ids_live: "same_ids k k' \<Longrightarrow> live k' i = live k i"
  by (auto simp: same_ids_def live_def)

lemma same_ids_keeps:
  assumes "same_ids k k'" "pid_inv k" "wait_inv k"
  shows "pid_inv k' \<and> wait_inv k'"
proof
  have pid: "p_pid (proc k' i) = p_pid (proc k i)" if "live k i" for i
    using assms(1) that by (auto simp: same_ids_def live_def)
  then show "pid_inv k'"
    using assms(1,2) same_ids_live[OF assms(1)] unfolding pid_inv_def same_ids_def by metis
  show "wait_inv k'"
    unfolding wait_inv_def
  proof (intro allI impI, elim conjE)
    fix i assume i: "i < PROCESS_MAX" "st k' i = PROCESS_BLOCKED" "p_waiting_for_pid (proc k' i) \<noteq> 0"
    then have w: "st k i = PROCESS_BLOCKED" "p_waiting_for_pid (proc k' i) = p_waiting_for_pid (proc k i)"
      using assms(1) by (auto simp: same_ids_def)
    then obtain j where "live k j" "p_pid (proc k j) = p_waiting_for_pid (proc k i)"
      using assms(3) i by (auto simp: wait_inv_def)
    then show "\<exists>j. live k' j \<and> p_pid (proc k' j) = p_waiting_for_pid (proc k' i)"
      using pid same_ids_live[OF assms(1)] w by metis
  qed
qed

lemma same_ids_trans: "same_ids k k' \<Longrightarrow> same_ids k' k'' \<Longrightarrow> same_ids k k''"
  by (auto simp: same_ids_def)

lemma same_ids_upd:
  assumes "i < length (process_table k)"
    "p_pid (f (proc k i)) = p_pid (proc k i)"
    "p_state (f (proc k i)) = PROCESS_UNUSED \<longleftrightarrow> st k i = PROCESS_UNUSED"
    "p_state (f (proc k i)) = PROCESS_BLOCKED \<and> p_waiting_for_pid (f (proc k i)) \<noteq> 0 \<longrightarrow>
       st k i = PROCESS_BLOCKED \<and> p_waiting_for_pid (f (proc k i)) = p_waiting_for_pid (proc k i)"
  shows "same_ids k (upd_proc i f k)"
  using assms by (auto simp: same_ids_def proc_upd_proc)

lemma same_ids_return:
  assumes "length (process_table k) = PROCESS_MAX" "current_index k < PROCESS_MAX"
  shows "same_ids k (scheduler_return k)"
proof -
  have "same_ids k (set_state (current_index k) PROCESS_READY k)" if "st k (current_index k) = PROCESS_RUNNING"
    using assms that by (intro same_ids_upd) auto
  then show ?thesis by (auto simp: scheduler_return_def Let_def same_ids_def)
qed

lemma sched_inv_return:
  assumes "sched_shape k"
  shows "sched_inv (scheduler_return k)"
proof -
  have a: "length (process_table k) = PROCESS_MAX" "current_index k < PROCESS_MAX"
    using assms by (auto simp: sched_shape_def)
  note r = return_other[OF a]
  have "st (scheduler_return k) i \<noteq> PROCESS_RUNNING" if "i < PROCESS_MAX" for i
    using r(5)[of i] assms that by (auto simp: sched_shape_def split: if_splits)
  then show ?thesis using r(1,3,4) a by (simp add: sched_inv_def sched_shape_def)
qed

lemma sched_shape_upd:
  assumes "sched_shape k" "i < PROCESS_MAX"
    "p_state (f (proc k i)) = PROCESS_RUNNING \<Longrightarrow> current_process k = Some i"
  shows "sched_shape (upd_proc i f k)"
  using assms by (auto simp: sched_shape_def proc_upd_proc)

lemma sched_inv_upd:
  assumes "sched_inv k" "i < PROCESS_MAX"
    "p_state (f (proc k i)) = PROCESS_RUNNING \<Longrightarrow> current_process k = Some i"
    "current_process k = Some i \<Longrightarrow> p_state (f (proc k i)) \<noteq> PROCESS_UNUSED"
  shows "sched_inv (upd_proc i f k)"
proof -
  have "length (process_table k) = PROCESS_MAX"
    using assms(1) by (simp add: sched_inv_def sched_shape_def)
  moreover have "current_process k = Some (current_index k)" if "current_process k \<noteq> None"
    using assms(1) that by (auto simp: sched_inv_def sched_shape_def)
  ultimately show ?thesis
    using assms sched_shape_upd[of k i f] by (auto simp: sched_inv_def live_def proc_upd_proc)
qed

lemma current_slot:
  "sched_inv k \<Longrightarrow> current_process k = Some c \<Longrightarrow> c < PROCESS_MAX \<and> st k c \<noteq> PROCESS_UNUSED
     \<and> c < length (process_table k)"
  by (auto simp: sched_inv_def sched_shape_def live_def)

lemma step_return:
  assumes "same_ids k k1" "sched_shape k1" "proc_inv k"
  shows "proc_inv (scheduler_return k1)"
proof -
  have "same_ids k1 (scheduler_return k1)"
    using assms(2) by (intro same_ids_return) (auto simp: sched_shape_def)
  then have "same_ids k (scheduler_return k1)" using assms(1) same_ids_trans by blast
  then show ?thesis
    using same_ids_keeps assms(3) sched_inv_return[OF assms(2)] by (simp add: proc_inv_def)
qed

lemma step_direct:
  assumes "same_ids k k1" "sched_inv k1" "proc_inv k"
  shows "proc_inv k1"
  using assms same_ids_keeps by (simp add: proc_inv_def)

lemma same_ids_refl: "same_ids k k"
  by (simp add: same_ids_def)

lemma dispatch_step:
  assumes "proc_inv k" "current_process k = None"
  shows "proc_inv (scheduler_dispatch k)"
proof (cases "scheduler_ready k \<and> scan_ready k 0 \<noteq> None")
  case False
  then have "scheduler_dispatch k = k" by (auto simp: scheduler_dispatch_def)
  then show ?thesis using assms(1) by simp
next
  case True
  then obtain i where i: "scan_ready k 0 = Some i" by auto
  have k: "length (process_table k) = PROCESS_MAX" "current_index k < PROCESS_MAX"
    using assms(1) by (simp_all add: proc_inv_def sched_inv_def sched_shape_def)
  note s = scan_ready_Some[OF i k(2)]
  have idle: "\<forall>j < PROCESS_MAX. st k j \<noteq> PROCESS_RUNNING"
    using assms by (auto simp: proc_inv_def sched_inv_def sched_shape_def)
  show ?thesis
  proof (rule step_direct[OF _ _ assms(1)])
    show "same_ids k (scheduler_dispatch k)"
      using True i s k by (auto simp: scheduler_dispatch_def Let_def same_ids_def upd_proc_def nth_list_update)
    show "sched_inv (scheduler_dispatch k)"
      using True i s k idle
      by (auto simp: scheduler_dispatch_def Let_def sched_inv_def sched_shape_def live_def upd_proc_def
          nth_list_update)
  qed
qed

lemma proc_tick:
  assumes "length (process_table k) = PROCESS_MAX" "i < PROCESS_MAX"
  shows "proc (scheduler_tick t (k\<lparr>ticks := t\<rparr>)) i =
     (if scheduler_ready k then wake_sleeper t (proc k i) else proc k i)"
  using assms by (simp add: scheduler_tick_def process_wake_sleepers_def)

lemma tick_simps:
  "length (process_table (scheduler_tick t k)) = length (process_table k)"
  "current_process (scheduler_tick t k) = current_process k"
  "current_index (scheduler_tick t k) = current_index k"
  "next_pid (scheduler_tick t k) = next_pid k"
  by (simp_all add: scheduler_tick_def process_wake_sleepers_def)

lemma wake_sleeper_facts:
  "p_pid (wake_sleeper t p) = p_pid p"
  "p_waiting_for_pid (wake_sleeper t p) = p_waiting_for_pid p"
  "p_state (wake_sleeper t p) = PROCESS_UNUSED \<longleftrightarrow> p_state p = PROCESS_UNUSED"
  "p_state (wake_sleeper t p) = PROCESS_BLOCKED \<longleftrightarrow> p_state p = PROCESS_BLOCKED"
  "p_state (wake_sleeper t p) = PROCESS_RUNNING \<longleftrightarrow> p_state p = PROCESS_RUNNING"
  by (auto simp: wake_sleeper_def)

lemma tick_facts:
  assumes "sched_inv k"
  defines "k1 \<equiv> scheduler_tick (ticks k + 1) (k\<lparr>ticks := ticks k + 1\<rparr>)"
  shows "sched_inv k1" "same_ids k k1" "current_process k1 = current_process k"
proof -
  have len: "length (process_table k) = PROCESS_MAX"
    using assms(1) by (simp add: sched_inv_def sched_shape_def)
  have pr: "p_pid (proc k1 i) = p_pid (proc k i)"
    "p_waiting_for_pid (proc k1 i) = p_waiting_for_pid (proc k i)"
    "st k1 i = PROCESS_UNUSED \<longleftrightarrow> st k i = PROCESS_UNUSED"
    "st k1 i = PROCESS_BLOCKED \<longleftrightarrow> st k i = PROCESS_BLOCKED"
    "st k1 i = PROCESS_RUNNING \<longleftrightarrow> st k i = PROCESS_RUNNING" if "i < PROCESS_MAX" for i
    unfolding k1_def proc_tick[OF len that] by (simp_all add: wake_sleeper_facts)
  show cp: "current_process k1 = current_process k" by (simp add: k1_def tick_simps)
  show "same_ids k k1" using pr by (simp add: same_ids_def) (simp add: k1_def tick_simps)
  have "length (process_table k1) = length (process_table k)" "current_index k1 = current_index k"
    by (simp_all add: k1_def tick_simps)
  then show "sched_inv k1"
    using assms(1) pr by (simp add: sched_inv_def sched_shape_def live_def cp)
qed

lemma yield_facts:
  assumes "sched_inv k" "scheduler_yield k = (k', b)"
  shows "sched_shape k'" "same_ids k k'"
proof -
  have sh: "sched_shape k" using assms(1) by (simp add: sched_inv_def)
  show "sched_shape k'" "same_ids k k'"
    using assms(2) current_slot[OF assms(1)] sh
    by (auto simp: scheduler_yield_def same_ids_refl split: option.splits if_splits
        intro!: sched_shape_upd same_ids_upd)
qed

lemma timer_facts:
  assumes "sched_inv k" "timer_callback k = (k', b)"
  shows "sched_shape k'" "same_ids k k'" "\<not> b \<Longrightarrow> sched_inv k'"
proof -
  let ?k1 = "scheduler_tick (ticks k + 1) (k\<lparr>ticks := ticks k + 1\<rparr>)"
  note t = tick_facts[OF assms(1)]
  have "(k', b) = (?k1, False) \<or> (k', b) = scheduler_yield ?k1 \<and> current_process ?k1 \<noteq> None"
    using assms(2) by (auto simp: timer_callback_def Let_def split: option.splits if_splits)
  then consider "k' = ?k1" | "scheduler_yield ?k1 = (k', b)" "b"
    by (auto simp: scheduler_yield_def)
  then have "sched_shape k' \<and> same_ids k k' \<and> (\<not> b \<longrightarrow> sched_inv k')"
  proof cases
    case 1
    show ?thesis unfolding 1 using t(1,2) unfolding sched_inv_def by blast
  next
    case 2
    show ?thesis using yield_facts[OF t(1) 2(1)] same_ids_trans[OF t(2)] 2(2) by blast
  qed
  then show "sched_shape k'" "same_ids k k'" "\<not> b \<Longrightarrow> sched_inv k'" by blast+
qed

lemma sleep_facts:
  assumes "sched_inv k" "scheduler_sleep_current n k = (k', b)"
  shows "sched_shape k'" "same_ids k k'"
proof -
  have sh: "sched_shape k" using assms(1) by (simp add: sched_inv_def)
  show "sched_shape k'" "same_ids k k'"
    using assms(2) current_slot[OF assms(1)] sh yield_facts[OF assms(1)]
    by (auto simp: scheduler_sleep_current_def process_sleep_def same_ids_refl
        split: option.splits if_splits intro!: sched_shape_upd same_ids_upd)
qed

lemma wait_facts:
  assumes "proc_inv k" "current_process k = Some c" "sys_wait_round c pid k = (False, k')"
  shows "proc_inv (scheduler_return (fst (scheduler_block_current k')))"
proof -
  have inv: "sched_inv k" "pid_inv k" "wait_inv k" using assms(1) by (simp_all add: proc_inv_def)
  have len: "length (process_table k) = PROCESS_MAX"
    using inv(1) by (simp add: sched_inv_def sched_shape_def)
  note c = current_slot[OF inv(1) assms(2)]
  let ?f = "\<lambda>p. p\<lparr>p_waiting_for_pid := pid, p_state := PROCESS_BLOCKED\<rparr>"
  obtain j where j: "find_pid pid (process_table k) 0 = Some j" and k': "k' = upd_proc c ?f k"
    using assms(3) by (auto simp: sys_wait_round_def split: option.splits)
  have lj: "live k j" "p_pid (proc k j) = pid"
    using find_pid_Some[OF j] len by (auto simp: live_def)
  have pr: "proc k' i = (if i = c then ?f (proc k c) else proc k i)" for i
    using k' c by (simp add: proc_upd_proc)
  have lv: "live k' i \<longleftrightarrow> live k i" for i using c by (auto simp: live_def pr)
  have "sched_shape k'"
    unfolding k' using inv(1) c by (intro sched_shape_upd) (auto simp: sched_inv_def)
  moreover have "pid_inv k'"
  proof -
    have "p_pid (proc k' i) = p_pid (proc k i)" "next_pid k' = next_pid k" for i
      by (simp_all add: pr) (simp add: k')
    then show ?thesis using inv(2) unfolding pid_inv_def lv by simp
  qed
  moreover have "wait_inv k'"
    using inv(3) lj unfolding wait_inv_def lv by (auto simp: pr)
  moreover have "same_ids k' (scheduler_return k')"
    using calculation(1) by (intro same_ids_return) (auto simp: sched_shape_def)
  moreover have "fst (scheduler_block_current k') = k'"
    by (simp add: scheduler_block_current_def split: option.splits)
  ultimately show ?thesis
    using same_ids_keeps[of k' "scheduler_return k'"] sched_inv_return[of k']
    by (simp add: proc_inv_def)
qed

lemma exit_facts:
  assumes "proc_inv k" "live k i"
  defines "k' \<equiv> process_exit (Some i) k"
  shows "sched_shape k'" "pid_inv k'" "wait_inv k'" "current_process k' = current_process k"
    "current_index k' = current_index k"
    "\<And>j. j < PROCESS_MAX \<Longrightarrow> j \<noteq> i \<Longrightarrow> (st k' j = PROCESS_UNUSED \<longleftrightarrow> st k j = PROCESS_UNUSED)"
proof -
  have inv: "sched_inv k" "pid_inv k" "wait_inv k" using assms(1) by (simp_all add: proc_inv_def)
  have len: "length (process_table k) = PROCESS_MAX"
    using inv(1) by (simp add: sched_inv_def sched_shape_def)
  let ?x = "p_pid (proc k i)"
  have i: "i < PROCESS_MAX" "st k i \<noteq> PROCESS_UNUSED" using assms(2) by (auto simp: live_def)
  have k': "k' = k\<lparr>process_table := map (wake_waiter ?x)
      ((process_table k)[i := (proc k i)\<lparr>p_state := PROCESS_UNUSED, p_pid := 0\<rparr>])\<rparr>"
    using i by (simp add: k'_def process_exit_def Let_def upd_proc_def)
  have pr_i: "st k' i = PROCESS_UNUSED" using i len by (simp add: k' wake_waiter_def)
  have pr_j: "proc k' j = wake_waiter ?x (proc k j)" if "j \<noteq> i" "j < PROCESS_MAX" for j
    using that len by (simp add: k')
  show cp: "current_process k' = current_process k" "current_index k' = current_index k"
    by (simp_all add: k')
  have np: "next_pid k' = next_pid k" by (simp add: k')
  show un: "st k' j = PROCESS_UNUSED \<longleftrightarrow> st k j = PROCESS_UNUSED" if "j < PROCESS_MAX" "j \<noteq> i" for j
    by (simp add: pr_j that wake_waiter_def)
  have lv: "live k' j \<longleftrightarrow> live k j \<and> j \<noteq> i" for j
    using pr_i un[of j] by (auto simp: live_def)
  have pid: "p_pid (proc k' j) = p_pid (proc k j)" if "live k' j" for j
  proof -
    have "j \<noteq> i" "j < PROCESS_MAX" using that unfolding lv by (auto simp: live_def)
    then show ?thesis by (simp add: pr_j wake_waiter_def)
  qed
  show "pid_inv k'"
    using inv(2) pid lv np unfolding pid_inv_def by auto
  have "st k' j = PROCESS_RUNNING \<Longrightarrow> st k j = PROCESS_RUNNING" if "j < PROCESS_MAX" for j
    using pr_i pr_j[of j] that by (cases "j = i") (auto simp: wake_waiter_def split: if_splits)
  moreover have "length (process_table k') = PROCESS_MAX" using len by (simp add: k')
  ultimately show "sched_shape k'"
    using inv(1) cp by (simp add: sched_inv_def sched_shape_def)
  show "wait_inv k'"
    unfolding wait_inv_def
  proof (intro allI impI, elim conjE)
    fix j assume j: "j < PROCESS_MAX" "st k' j = PROCESS_BLOCKED" "p_waiting_for_pid (proc k' j) \<noteq> 0"
    then have ji: "j \<noteq> i" using pr_i by auto
    have w: "st k j = PROCESS_BLOCKED" "p_waiting_for_pid (proc k j) \<noteq> ?x"
        "p_waiting_for_pid (proc k' j) = p_waiting_for_pid (proc k j)"
      using j pr_j[OF ji j(1)] by (auto simp: wake_waiter_def split: if_splits)
    then obtain l where l: "live k l" "p_pid (proc k l) = p_waiting_for_pid (proc k j)"
      using inv(3) j by (auto simp: wait_inv_def)
    have "l \<noteq> i" using l(2) w(2) by auto
    then have "live k' l" using l(1) lv by blast
    then show "\<exists>l. live k' l \<and> p_pid (proc k' l) = p_waiting_for_pid (proc k' j)"
      using pid[of l] l(2) w(3) by metis
  qed
qed

lemma spawn_claim_proc:
  assumes "length (process_table k) = PROCESS_MAX" "spawn_claim k = Some (i, k')"
  shows "i < PROCESS_MAX" "st k i = PROCESS_UNUSED" "next_pid k' = next_pid k + 1"
    "proc k' j = (if j = i then (proc k i)\<lparr>p_state := PROCESS_BLOCKED, p_pid := next_pid k,
        p_waiting_for_pid := 0\<rparr> else proc k j)"
    "length (process_table k') = PROCESS_MAX" "current_process k' = current_process k"
    "current_index k' = current_index k"
proof -
  obtain i' where i': "scan_unused (process_table k) 0 = Some i'"
    using assms(2) by (auto simp: spawn_claim_def split: option.splits)
  then have [simp]: "i' = i" using assms(2) by (simp add: spawn_claim_def alloc_pid_def)
  show i: "i < PROCESS_MAX" "st k i = PROCESS_UNUSED"
    using scan_unused_Some[OF i'] assms(1) by simp_all
  have k': "k' = upd_proc i (\<lambda>p. p\<lparr>p_pid := next_pid k, p_waiting_for_pid := 0\<rparr>)
     ((set_state i PROCESS_BLOCKED k)\<lparr>next_pid := next_pid k + 1\<rparr>)"
    using assms(2) i' by (simp add: spawn_claim_def alloc_pid_def)
  show "next_pid k' = next_pid k + 1" "length (process_table k') = PROCESS_MAX"
    "current_process k' = current_process k" "current_index k' = current_index k"
    "proc k' j = (if j = i then (proc k i)\<lparr>p_state := PROCESS_BLOCKED, p_pid := next_pid k,
        p_waiting_for_pid := 0\<rparr> else proc k j)"
    using assms(1) i by (simp_all add: k' upd_proc_def)
qed

lemma spawn_claim_inv:
  assumes "proc_inv k" "spawn_claim k = Some (i, k')" "next_pid k \<noteq> -1" "next_pid k \<noteq> 0"
  shows "proc_inv k'"
proof -
  have inv: "sched_inv k" "pid_inv k" "wait_inv k" using assms(1) by (simp_all add: proc_inv_def)
  have len: "length (process_table k) = PROCESS_MAX"
    using inv(1) by (simp add: sched_inv_def sched_shape_def)
  note c = spawn_claim_proc[OF len assms(2)]
  have lv: "live k' j \<longleftrightarrow> j = i \<or> live k j" for j using c by (auto simp: live_def)
  have nl: "\<not> live k i" using c by (simp add: live_def)
  have lt: "next_pid k < next_pid k + 1" using assms(3) by (rule word_less_Suc)
  have "pid_inv k'"
    unfolding pid_inv_def
  proof (intro conjI allI impI)
    fix j assume "live k' j"
    then show "p_pid (proc k' j) \<noteq> 0" using inv(2) assms(4) by (auto simp: c lv pid_inv_def)
    show "p_pid (proc k' j) < next_pid k'"
      using \<open>live k' j\<close> inv(2) lt order.strict_trans by (auto simp: c lv pid_inv_def)
  next
    fix j l assume "live k' j" "live k' l" "p_pid (proc k' j) = p_pid (proc k' l)"
    then show "j = l"
      using inv(2) nl by (auto simp: c(4) lv pid_inv_def split: if_splits)
  qed
  moreover have "wait_inv k'"
    unfolding wait_inv_def
  proof (intro allI impI, elim conjE)
    fix j assume j: "j < PROCESS_MAX" "st k' j = PROCESS_BLOCKED" "p_waiting_for_pid (proc k' j) \<noteq> 0"
    then have "j \<noteq> i" by (auto simp: c(4))
    then obtain l where "live k l" "p_pid (proc k l) = p_waiting_for_pid (proc k' j)"
      using inv(3) j by (auto simp: c(4) wait_inv_def)
    then show "\<exists>l. live k' l \<and> p_pid (proc k' l) = p_waiting_for_pid (proc k' j)"
      using nl by (intro exI[of _ l]) (auto simp: c(4) lv)
  qed
  moreover have "sched_inv k'"
    using inv(1) lv c by (auto simp: sched_inv_def sched_shape_def)
  ultimately show ?thesis by (simp add: proc_inv_def)
qed

lemma spawn_facts:
  assumes "proc_inv k" "next_pid k \<noteq> -1" "next_pid k \<noteq> 0"
    "scheduler_spawn_user name entry uesp cr3 cwd blk boot m k = (r, m', k')"
  shows "proc_inv k'"
proof (cases "spawn_claim k")
  case None
  then show ?thesis using assms
    by (auto simp: scheduler_spawn_user_def process_spawn_user_def split: if_splits)
next
  case (Some ik)
  obtain i k1 where ik: "spawn_claim k = Some (i, k1)" using Some by (cases ik) auto
  have inv1: "proc_inv k1" using spawn_claim_inv assms(1-3) ik by blast
  have len: "length (process_table k) = PROCESS_MAX"
    using assms(1) by (simp add: proc_inv_def sched_inv_def sched_shape_def)
  note c = spawn_claim_proc[OF len ik]
  obtain m2 k2 where f: "spawn_fill i name entry uesp cr3 cwd boot m k1 = (m2, k2)" by fastforce
  then obtain g where g: "k2 = upd_proc i g k1" "p_state (g (proc k1 i)) = st k1 i"
      "p_pid (g (proc k1 i)) = p_pid (proc k1 i)"
      "p_waiting_for_pid (g (proc k1 i)) = p_waiting_for_pid (proc k1 i)"
    by (auto simp: spawn_fill_def Let_def split: prod.splits)
  have len1: "i < length (process_table k1)" using c by simp
  have cur: "current_process k1 \<noteq> Some i"
    using current_slot[of k i] assms(1) c(2) c(6) by (auto simp: proc_inv_def)
  have inv2: "proc_inv k2"
  proof (rule step_direct[OF _ _ inv1])
    show "same_ids k1 k2" unfolding g(1) using g(2-4) len1 by (intro same_ids_upd) auto
    show "sched_inv k2" unfolding g(1)
      using inv1 c(1) c(4)[of i] g(2) cur by (intro sched_inv_upd) (auto simp: proc_inv_def)
  qed
  have st2: "st k2 i = PROCESS_BLOCKED" using g(1,2) len1 c(4)[of i] by (simp add: proc_upd_proc)
  have "proc_inv (set_state i PROCESS_READY k2)"
  proof (rule step_direct[OF _ _ inv2])
    show "same_ids k2 (set_state i PROCESS_READY k2)"
      using st2 len1 g(1) by (intro same_ids_upd) auto
    show "sched_inv (set_state i PROCESS_READY k2)"
      using inv2 c(1) by (intro sched_inv_upd) (auto simp: proc_inv_def)
  qed
  then show ?thesis
    using assms(1,4) ik f inv2
    by (auto simp: scheduler_spawn_user_def process_spawn_user_def split: if_splits)
qed

lemma kill_facts:
  assumes "proc_inv k" "current_process k = Some c" "p_pid (proc k c) \<noteq> pid" "sys_kill pid k = (r, k')"
  shows "proc_inv k'"
proof (cases "find_pid pid (process_table k) 0")
  case None
  then show ?thesis using assms by (simp add: sys_kill_def)
next
  case (Some i)
  have inv: "sched_inv k" using assms(1) by (simp add: proc_inv_def)
  have len: "length (process_table k) = PROCESS_MAX"
    using inv by (simp add: sched_inv_def sched_shape_def)
  have i: "live k i" "p_pid (proc k i) = pid"
    using find_pid_Some[OF Some] len by (auto simp: live_def)
  have k': "k' = process_exit (Some i) k" using assms(4) Some by (simp add: sys_kill_def)
  note e = exit_facts[OF assms(1) i(1), folded k']
  note c = current_slot[OF inv assms(2)]
  have "current_index k = c"
    using inv assms(2) by (auto simp: sched_inv_def sched_shape_def)
  moreover have "st k' c \<noteq> PROCESS_UNUSED" using e(6)[of c] c i(2) assms(3) by auto
  ultimately have "sched_inv k'" using e(1,5) c by (simp add: sched_inv_def live_def)
  then show ?thesis using e by (simp add: proc_inv_def)
qed

lemma exit_step:
  assumes "proc_inv k" "current_process k = Some c"
  shows "proc_inv (scheduler_return (fst (scheduler_yield (process_exit (Some c) k))))"
proof -
  have inv: "sched_inv k" using assms(1) by (simp add: proc_inv_def)
  note c = current_slot[OF inv assms(2)]
  then have lc: "live k c" by (simp add: live_def)
  let ?k' = "process_exit (Some c) k"
  note e = exit_facts[OF assms(1) lc]
  have "st ?k' c \<noteq> PROCESS_RUNNING"
  proof -
    have "proc ?k' c = wake_waiter (p_pid (proc k c)) ((proc k c)\<lparr>p_state := PROCESS_UNUSED, p_pid := 0\<rparr>)"
      using c by (simp add: process_exit_def Let_def upd_proc_def)
    then show ?thesis by (simp add: wake_waiter_def)
  qed
  then have y: "fst (scheduler_yield ?k') = ?k'"
    using e(4) assms(2) by (simp add: scheduler_yield_def)
  have "same_ids ?k' (scheduler_return ?k')"
    using e(1) by (intro same_ids_return) (auto simp: sched_shape_def)
  then have "pid_inv (scheduler_return ?k') \<and> wait_inv (scheduler_return ?k')"
    using same_ids_keeps e(2,3) by blast
  then show ?thesis unfolding y using sched_inv_return[OF e(1)] by (simp add: proc_inv_def)
qed

lemma block_current_id [simp]: "fst (scheduler_block_current k) = k"
  by (simp add: scheduler_block_current_def split: option.splits)

lemma kstep_inv: "kstep k k' \<Longrightarrow> proc_inv k \<Longrightarrow> proc_inv k'"
proof (induction rule: kstep.induct)
  case (ks_dispatch k)
  then show ?case by (rule dispatch_step[rotated])
next
  case (ks_tick k k')
  then have "sched_inv k" by (simp add: proc_inv_def)
  note t = timer_facts[OF this ks_tick(1)]
  show ?case by (rule step_direct[OF t(2) t(3) ks_tick(2)]) simp
next
  case (ks_preempt k k')
  then have "sched_inv k" by (simp add: proc_inv_def)
  note t = timer_facts[OF this ks_preempt(1)]
  show ?case by (rule step_return[OF t(2) t(1) ks_preempt(2)])
next
  case (ks_yield k k')
  then have "sched_inv k" by (simp add: proc_inv_def)
  note t = yield_facts[OF this ks_yield(1)]
  show ?case by (rule step_return[OF t(2) t(1) ks_yield(2)])
next
  case (ks_sleep n k k')
  then have "sched_inv k" by (simp add: proc_inv_def)
  note t = sleep_facts[OF this ks_sleep(1)]
  show ?case by (rule step_return[OF t(2) t(1) ks_sleep(2)])
next
  case (ks_wait k c pid k')
  then show ?case using wait_facts by blast
next
  case (ks_wait_resume k c)
  have inv: "sched_inv k" using ks_wait_resume by (simp add: proc_inv_def)
  note c = current_slot[OF inv ks_wait_resume(1)]
  show ?case
  proof (rule step_direct[OF _ _ ks_wait_resume(2)])
    show "same_ids k (upd_proc c (\<lambda>p. p\<lparr>p_waiting_for_pid := 0\<rparr>) k)"
      using c by (intro same_ids_upd) auto
    show "sched_inv (upd_proc c (\<lambda>p. p\<lparr>p_waiting_for_pid := 0\<rparr>) k)"
      using inv c by (intro sched_inv_upd) (auto simp: ks_wait_resume)
  qed
next
  case (ks_block k c)
  have inv: "sched_inv k" using ks_block by (simp add: proc_inv_def)
  note c = current_slot[OF inv ks_block(1)]
  have "same_ids k (set_state c PROCESS_BLOCKED k)"
    using c ks_block(2) by (intro same_ids_upd) auto
  moreover have "sched_shape (set_state c PROCESS_BLOCKED k)"
    using inv c by (intro sched_shape_upd) (auto simp: sched_inv_def)
  ultimately show ?case using step_return ks_block(3) by simp
next
  case (ks_wake j k)
  have inv: "sched_inv k" using ks_wake by (simp add: proc_inv_def)
  have j: "j < length (process_table k)"
    using inv ks_wake(1) by (simp add: sched_inv_def sched_shape_def)
  show ?case
  proof (cases "st k j = PROCESS_BLOCKED")
    case True
    have "same_ids k (set_state j PROCESS_READY k)"
      using True j by (intro same_ids_upd) auto
    moreover have "sched_inv (set_state j PROCESS_READY k)"
      using inv ks_wake(1) by (intro sched_inv_upd) auto
    ultimately show ?thesis using True step_direct ks_wake(2) by (simp add: process_make_ready_def)
  next
    case False
    then show ?thesis using ks_wake(2) by (simp add: process_make_ready_def)
  qed
next
  case (ks_exit k c)
  then show ?case using exit_step by blast
next
  case (ks_kill k c pid r k')
  then show ?case using kill_facts by blast
next
  case (ks_spawn k name entry uesp cr3 cwd blk boot m r m' k')
  then show ?case using spawn_facts by blast
qed

lemma proc_inv_init:
  "length (process_table k) = PROCESS_MAX \<Longrightarrow> proc_inv (scheduler_init k)"
proof -
  assume len: "length (process_table k) = PROCESS_MAX"
  then have un: "st (scheduler_init k) i = PROCESS_UNUSED" if "i < PROCESS_MAX" for i
    using that by (simp add: scheduler_init_def process_init_def)
  then have "\<not> live (scheduler_init k) i" for i by (auto simp: live_def)
  moreover have "length (process_table (scheduler_init k)) = PROCESS_MAX"
      "current_index (scheduler_init k) < PROCESS_MAX" "current_process (scheduler_init k) = None"
    using len by (simp_all add: scheduler_init_def process_init_def PROCESS_MAX_def)
  ultimately show ?thesis
    using un by (simp add: proc_inv_def sched_inv_def sched_shape_def pid_inv_def wait_inv_def)
qed

lemma reachable_inv:
  "kstep\<^sup>*\<^sup>* k k' \<Longrightarrow> proc_inv k \<Longrightarrow> proc_inv k'"
  by (induction rule: rtranclp_induct) (auto intro: kstep_inv)

section \<open>Boot state and examples\<close>

text \<open>The statically initialised globals: zeroed slots, \<open>next_pid = 1\<close>.\<close>

definition zero_process :: process where
  "zero_process = \<lparr>p_pid = 0, p_name = [], p_state = PROCESS_UNUSED, p_entry = 0, p_arg = 0, p_esp = 0,
     p_stack = 0, p_stack_size = 0, p_cr3 = 0, p_user_stack = 0, p_user_esp = 0, p_wake_tick = 0,
     p_ticks_run = 0, p_runs = 0, p_cwd_cluster = 0, p_stdin_redirect = 0, p_stdout_redirect = 0,
     p_waiting_for_pid = 0\<rparr>"

definition boot_kproc :: "u32 \<Rightarrow> kproc" where
  "boot_kproc stacks = \<lparr>process_table = replicate PROCESS_MAX zero_process, current_process = None,
     next_pid = 1, scheduler_ready = False, current_index = PROCESS_MAX - 1, ticks = 0, esp0 = 0,
     process_stacks = stacks\<rparr>"

lemma zero_process_simps [simp]:
  "p_state zero_process = PROCESS_UNUSED" "p_pid zero_process = 0" "p_waiting_for_pid zero_process = 0"
  by (simp_all add: zero_process_def)

lemma length_boot_kproc [simp]: "length (process_table (boot_kproc a)) = PROCESS_MAX"
  by (simp add: boot_kproc_def)

text \<open>A table with given first slots, for examples.\<close>

definition table_of :: "process list \<Rightarrow> process list" where
  "table_of ps = ps @ replicate (PROCESS_MAX - length ps) zero_process"

lemma length_table_of [simp]: "length ps \<le> PROCESS_MAX \<Longrightarrow> length (table_of ps) = PROCESS_MAX"
  by (simp add: table_of_def)

lemma exit_proc:
  assumes "i < length (process_table k)" "st k i \<noteq> PROCESS_UNUSED" "j < length (process_table k)"
  shows "proc (process_exit (Some i) k) j =
     (if j = i then (proc k i)\<lparr>p_state := PROCESS_UNUSED, p_pid := 0\<rparr>
      else wake_waiter (p_pid (proc k i)) (proc k j))"
  using assms by (simp add: process_exit_def Let_def upd_proc_def wake_waiter_def)

lemma length_exit [simp]:
  "length (process_table (process_exit pr k)) = length (process_table k)"
  by (simp add: process_exit_def Let_def split: option.splits)

primrec run_ticks :: "nat \<Rightarrow> kproc \<Rightarrow> kproc" where
  "run_ticks 0 k = k"
| "run_ticks (Suc n) k = fst (timer_callback (run_ticks n k))"

lemma timer_unused:
  assumes "sched_shape k" "current_process k = Some c" "st k c = PROCESS_UNUSED"
  shows "snd (timer_callback k) = False \<and> sched_shape (fst (timer_callback k))
     \<and> current_process (fst (timer_callback k)) = Some c \<and> st (fst (timer_callback k)) c = PROCESS_UNUSED"
proof -
  let ?k1 = "scheduler_tick (ticks k + 1) (k\<lparr>ticks := ticks k + 1\<rparr>)"
  have c: "c = current_index k" "c < PROCESS_MAX" and len: "length (process_table k) = PROCESS_MAX"
    using assms(1,2) by (auto simp: sched_shape_def)
  have st1: "st ?k1 i = PROCESS_UNUSED \<longleftrightarrow> st k i = PROCESS_UNUSED"
      "st ?k1 i = PROCESS_RUNNING \<longleftrightarrow> st k i = PROCESS_RUNNING" if "i < PROCESS_MAX" for i
    unfolding proc_tick[OF len that] by (simp_all add: wake_sleeper_facts)
  have cp: "current_process ?k1 = Some c" using assms(2) by (simp add: tick_simps)
  have eq: "timer_callback k = (?k1, False)"
    using cp st1(1)[OF c(2)] assms(3) by (simp add: timer_callback_def)
  have "sched_shape ?k1"
    using assms(1) st1(2) by (simp add: sched_shape_def tick_simps)
  then show ?thesis using eq cp st1(1)[OF c(2)] assms(3) by simp
qed

section \<open>Properties\<close>



text \<open>
  C7. Round-robin fairness: a process that is READY, and that nothing takes out of READY, is
  dispatched within the next 16 scheduling rounds, whatever the other processes and the
  interrupts do in between.
\<close>

theorem scheduler_fair:
  assumes "length (process_table k) = PROCESS_MAX" "current_index k < PROCESS_MAX" "scheduler_ready k"
    "i < PROCESS_MAX" "st k i = PROCESS_READY"
    "\<forall>f \<in> set fs. keeps_ready i f" "PROCESS_MAX \<le> length fs"
  shows "i \<in> set (take PROCESS_MAX (dispatched fs k))"
proof -
  let ?d = "rr_dist (current_index k) i"
  have "i \<in> set (take (Suc ?d) (dispatched fs k))"
    using assms rr_dist_less[of "current_index k" i] by (intro dispatched_within_dist) linarith+
  then show ?thesis
    using set_take_subset_set_take[of "Suc ?d" PROCESS_MAX "dispatched fs k"] rr_dist_less
    by (meson Suc_leI subsetD)
qed

theorem scheduler_fair_witness:
  "let k = (boot_kproc 0)\<lparr>scheduler_ready := True,
         process_table := table_of [zero_process\<lparr>p_state := PROCESS_READY\<rparr>, zero_process\<lparr>p_state := PROCESS_READY\<rparr>]\<rparr>
   in 1 \<in> set (take PROCESS_MAX (dispatched (replicate 16 (\<lambda>k. k\<lparr>ticks := ticks k + 1\<rparr>)) k))"
  unfolding Let_def
  by (rule scheduler_fair) (simp_all add: boot_kproc_def table_of_def PROCESS_MAX_def keeps_ready_def)

text \<open>
  C8. The child's first kernel stack: after \<open>process_spawn_user\<close> claims slot \<open>i\<close>, the saved stack
  pointer is 20 bytes below the top of that slot's own 4096-byte stack, and \<open>context_switch\<close>, which
  pops four registers and returns, finds four zeros and then the bootstrap address there.
\<close>

theorem spawn_initial_stack:
  assumes "process_spawn_user name entry uesp cr3 cwd blk boot m k = (Some i, m', k')"
    "length (process_table k) = PROCESS_MAX" "process_stacks k AND 3 = 0"
  shows "p_esp (proc k' i) = process_stacks k + of_nat i * 4096 + 4096 - 20
     \<and> read32 m' (p_esp (proc k' i)) = 0 \<and> read32 m' (p_esp (proc k' i) + 4) = 0
     \<and> read32 m' (p_esp (proc k' i) + 8) = 0 \<and> read32 m' (p_esp (proc k' i) + 12) = 0
     \<and> read32 m' (p_esp (proc k' i) + 16) = boot
     \<and> p_cr3 (proc k' i) = cr3 \<and> p_arg (proc k' i) = entry \<and> p_user_esp (proc k' i) = uesp
     \<and> st k' i = (if blk then PROCESS_BLOCKED else PROCESS_READY)"
proof -
  obtain k1 where k1: "spawn_claim k = Some (i, k1)"
    using assms(1) by (auto simp: process_spawn_user_def Let_def split: if_splits option.splits prod.splits)
  note c = spawn_claim_proc[OF assms(2) k1]
  have stk: "process_stacks k1 = process_stacks k"
    using k1 by (auto simp: spawn_claim_def alloc_pid_def split: option.splits)
  have len1: "i < length (process_table k1)" using c by simp
  define e where "e = process_stacks k + of_nat i * 4096 + 4076"
  have al: "e AND 3 = 0"
    using aligned_index[OF assms(3), of "of_nat i * 1024 + 1019"] by (simp add: e_def algebra_simps)
  define m1 where "m1 = write32 (write32 (write32 (write32 (write32 m
      (e + 16) boot) (e + 12) 0) (e + 8) 0) (e + 4) 0) e 0"
  have bis: "build_initial_stack (process_stacks k + of_nat i * 4096) 4096 boot m = (e, m1)"
    by (simp add: build_initial_stack_def stack_push_def e_def m1_def algebra_simps)
  have sep: "sep32 (e + 4 * of_nat a) (e + 4 * of_nat b)" if "a < 5" "b < 5" "a \<noteq> b" for a b
    using that by (intro sep32_index[OF al]) simp_all
  have rd: "read32 m1 e = 0" "read32 m1 (e + 4) = 0" "read32 m1 (e + 8) = 0"
      "read32 m1 (e + 12) = 0" "read32 m1 (e + 16) = boot"
    using sep[of 0 1] sep[of 0 2] sep[of 0 3] sep[of 0 4] sep[of 1 2] sep[of 1 3] sep[of 1 4]
      sep[of 2 3] sep[of 2 4] sep[of 3 4]
    by (simp_all add: m1_def read32_write32_sep)
  have m': "m' = m1" and k': "proc k' i = (proc k1 i)\<lparr>p_name := copy_name name, p_entry := 0, p_arg := entry,
            p_stack := process_stacks k + of_nat i * 4096, p_stack_size := 4096, p_esp := e, p_cr3 := cr3,
            p_user_esp := uesp, p_user_stack := 0, p_wake_tick := 0, p_ticks_run := 0,
            p_runs := 0, p_cwd_cluster := cwd, p_stdin_redirect := -1, p_stdout_redirect := -1,
            p_state := (if blk then PROCESS_BLOCKED else PROCESS_READY)\<rparr>"
    using assms(1) k1 bis len1 c(4)[of i]
    by (auto simp: process_spawn_user_def spawn_fill_def PROCESS_STACK_SIZE_def stk upd_proc_def
        split: if_splits)
  show ?thesis unfolding k' m' using rd by (simp add: e_def)
qed

theorem spawn_initial_stack_witness:
  "let r = process_spawn_user (Some ''init'') 0x1000000 0x2002000 0x400000 0 False 0x100400 (\<lambda>_. 0)
        (boot_kproc 0x350000)
   in fst r = Some 0 \<and> read32 (fst (snd r)) (p_esp (proc (snd (snd r)) 0) + 16) = 0x100400"
proof -
  let ?k = "boot_kproc 0x350000"
  let ?r = "process_spawn_user (Some ''init'') 0x1000000 0x2002000 0x400000 0 False 0x100400 (\<lambda>_. 0) ?k"
  have "scan_unused (process_table ?k) 0 = Some 0"
    by (simp add: boot_kproc_def PROCESS_MAX_def eval_nat_numeral zero_process_def)
  then have f: "fst ?r = Some 0"
    by (simp add: process_spawn_user_def spawn_claim_def alloc_pid_def split: prod.splits)
  then obtain m' k' where r: "?r = (Some 0, m', k')" by (metis prod.collapse)
  have "process_stacks ?k AND 3 = 0" by (simp add: boot_kproc_def)
  from spawn_initial_stack[OF r length_boot_kproc this] show ?thesis
    unfolding Let_def r fst_conv snd_conv by blast
qed



text \<open>
  C10. A race in \<open>process_fork\<close>: the slot it reserves keeps the previous occupant's
  \<open>waiting_for_pid\<close> until it is filled in, with interrupts on in between. If the occupant was killed
  while it waited for a process \<open>b\<close>, and \<open>b\<close> exits in that window, the half-built slot becomes
  READY with the old stack pointer and page directory. \<open>process_spawn_user\<close> clears the field in
  its interrupt-off section, and in the same situation its slot stays BLOCKED.
\<close>

theorem fork_claim_stale_waiter:
  assumes "length (process_table k) = PROCESS_MAX" "w < PROCESS_MAX" "b < PROCESS_MAX" "w \<noteq> b"
    "st k w = PROCESS_BLOCKED" "p_waiting_for_pid (proc k w) = p_pid (proc k b)"
    "st k b = PROCESS_READY" "p_pid (proc k b) \<noteq> p_pid (proc k w)" "p_pid (proc k b) \<noteq> 0"
    "fork_claim (process_exit (Some w) k) = Some (w, k1)"
    "spawn_claim (process_exit (Some w) k) = Some (w, k2)"
  shows "st (process_exit (Some b) k1) w = PROCESS_READY
     \<and> p_esp (proc (process_exit (Some b) k1) w) = p_esp (proc k w)
     \<and> p_cr3 (proc (process_exit (Some b) k1) w) = p_cr3 (proc k w)
     \<and> st (process_exit (Some b) k2) w = PROCESS_BLOCKED"
proof -
  let ?k = "process_exit (Some w) k"
  have len: "length (process_table ?k) = PROCESS_MAX" using assms(1) by simp
  have kb: "proc ?k b = proc k b"
    using exit_proc[of w k b] assms by (auto simp: wake_waiter_def)
  have kw: "proc ?k w = (proc k w)\<lparr>p_state := PROCESS_UNUSED, p_pid := 0\<rparr>"
    using exit_proc[of w k w] assms by simp
  obtain x where x: "scan_unused (process_table ?k) 0 = Some x"
    using assms(10) by (auto simp: fork_claim_def split: option.splits)
  then have k1: "k1 = upd_proc w (\<lambda>p. p\<lparr>p_pid := next_pid ?k, p_state := PROCESS_BLOCKED\<rparr>)
      (?k\<lparr>next_pid := next_pid ?k + 1\<rparr>)"
    using assms(10) by (auto simp: fork_claim_def alloc_pid_def)
  have f: "proc k1 w = (proc k w)\<lparr>p_state := PROCESS_BLOCKED, p_pid := next_pid ?k\<rparr>" "proc k1 b = proc k b"
      "length (process_table k1) = PROCESS_MAX"
    using len assms(2,4) kw kb by (simp_all add: k1 upd_proc_def)
  note c2 = spawn_claim_proc[OF len assms(11)]
  have p2: "p_waiting_for_pid (proc k2 w) = 0" "st k2 w = PROCESS_BLOCKED" "proc k2 b = proc k b"
    using c2(4)[of w] c2(4)[of b] assms(4) kb by simp_all
  have e1: "proc (process_exit (Some b) k1) w = wake_waiter (p_pid (proc k b)) (proc k1 w)"
    using exit_proc[of b k1 w] assms(2-4,7) f by simp
  have e2: "proc (process_exit (Some b) k2) w = wake_waiter (p_pid (proc k b)) (proc k2 w)"
    using exit_proc[of b k2 w] assms(2-4,7) p2 c2(5) by simp
  show ?thesis using assms(6,9) f(1) p2 by (simp add: e1 e2 wake_waiter_def)
qed

theorem fork_claim_stale_waiter_witness:
  "let k = (boot_kproc 0)\<lparr>next_pid := 4, process_table := table_of
       [zero_process\<lparr>p_state := PROCESS_RUNNING, p_pid := 1\<rparr>,
        zero_process\<lparr>p_state := PROCESS_BLOCKED, p_pid := 2, p_waiting_for_pid := 3, p_esp := 0x1234\<rparr>,
        zero_process\<lparr>p_state := PROCESS_READY, p_pid := 3\<rparr>]\<rparr>;
       k1 = snd (the (fork_claim (process_exit (Some 1) k)))
   in st (process_exit (Some 2) k1) 1 = PROCESS_READY"
proof -
  let ?k = "(boot_kproc 0)\<lparr>next_pid := 4, process_table := table_of
       [zero_process\<lparr>p_state := PROCESS_RUNNING, p_pid := 1\<rparr>,
        zero_process\<lparr>p_state := PROCESS_BLOCKED, p_pid := 2, p_waiting_for_pid := 3, p_esp := 0x1234\<rparr>,
        zero_process\<lparr>p_state := PROCESS_READY, p_pid := 3\<rparr>]\<rparr>"
  have "scan_unused (process_table (process_exit (Some 1) ?k)) 0 = Some 1"
    by (simp add: process_exit_def Let_def upd_proc_def table_of_def wake_waiter_def)
  then obtain k1 k2 where "fork_claim (process_exit (Some 1) ?k) = Some (1, k1)"
      "spawn_claim (process_exit (Some 1) ?k) = Some (1, k2)"
    by (auto simp: fork_claim_def spawn_claim_def alloc_pid_def)
  then show ?thesis
    using fork_claim_stale_waiter[of ?k 1 2 k1 k2]
    by (simp add: Let_def table_of_def PROCESS_MAX_def)
qed

text \<open>
  C11. A process that kills itself keeps the CPU: \<open>sys_kill\<close> on its own pid marks its slot UNUSED
  and returns 0 to it, and from then on no timer tick ever preempts it, because preemption
  requires the current slot to be RUNNING.
\<close>

theorem kill_self_not_preempted:
  assumes "proc_inv k" "current_process k = Some c" "sys_kill (p_pid (proc k c)) k = (r, k')"
  shows "r = 0 \<and> st k' c = PROCESS_UNUSED
     \<and> (\<forall>n. snd (timer_callback (run_ticks n k')) = False
          \<and> current_process (run_ticks n k') = Some c)"
proof -
  have inv: "sched_inv k" "pid_inv k" using assms(1) by (simp_all add: proc_inv_def)
  note c = current_slot[OF inv(1) assms(2)]
  have len: "length (process_table k) = PROCESS_MAX"
    using inv(1) by (simp add: sched_inv_def sched_shape_def)
  have "find_pid (p_pid (proc k c)) (process_table k) 0 \<noteq> None"
    using c unfolding find_pid_None using nth_mem[of c "process_table k"] by blast
  then obtain i where i: "find_pid (p_pid (proc k c)) (process_table k) 0 = Some i" by blast
  then have "live k i" "p_pid (proc k i) = p_pid (proc k c)"
    using find_pid_Some[OF i] len by (auto simp: live_def)
  then have "i = c" using inv(2) c unfolding pid_inv_def live_def by blast
  then have k': "k' = process_exit (Some c) k" "r = 0" using assms(3) i by (auto simp: sys_kill_def)
  have lc: "live k c" using c by (simp add: live_def)
  note e = exit_facts[OF assms(1) lc, folded k'(1)]
  have un: "st k' c = PROCESS_UNUSED" using exit_proc[of c k c] c k'(1) by simp
  have "sched_shape (run_ticks n k') \<and> current_process (run_ticks n k') = Some c
      \<and> st (run_ticks n k') c = PROCESS_UNUSED" for n
  proof (induction n)
    case 0
    then show ?case using e(1,4) un assms(2) by simp
  next
    case (Suc n)
    then show ?case using timer_unused[of "run_ticks n k'" c] by simp
  qed
  then show ?thesis using k'(2) un timer_unused by blast
qed

theorem kill_self_not_preempted_witness:
  "let k = (boot_kproc 0)\<lparr>next_pid := 2, scheduler_ready := True, current_index := 0, current_process := Some 0,
       process_table := table_of [zero_process\<lparr>p_state := PROCESS_RUNNING, p_pid := 1\<rparr>]\<rparr>
   in snd (timer_callback (run_ticks 100 (snd (sys_kill 1 k)))) = False"
proof -
  let ?k = "(boot_kproc 0)\<lparr>next_pid := 2, scheduler_ready := True, current_index := 0, current_process := Some 0,
       process_table := table_of [zero_process\<lparr>p_state := PROCESS_RUNNING, p_pid := 1\<rparr>]\<rparr>"
  have st: "proc ?k i = (if i = 0 then zero_process\<lparr>p_state := PROCESS_RUNNING, p_pid := 1\<rparr> else zero_process)"
    if "i < PROCESS_MAX" for i
    using that by (simp add: table_of_def nth_append nth_Cons')
  have live: "live ?k i \<longleftrightarrow> i = 0" for i
  proof (cases "i < PROCESS_MAX")
    case True
    show ?thesis unfolding live_def st[OF True] using True by simp
  qed (auto simp: live_def PROCESS_MAX_def)
  have z: "(0::nat) < PROCESS_MAX" by (simp add: PROCESS_MAX_def)
  have "sched_inv ?k" unfolding sched_inv_def sched_shape_def live using st z by simp
  moreover have "pid_inv ?k" unfolding pid_inv_def live using st[OF z] by simp
  moreover have "wait_inv ?k" unfolding wait_inv_def using st by simp
  ultimately have "proc_inv ?k" by (simp add: proc_inv_def)
  moreover have "p_pid (proc ?k 0) = 1" using st[of 0] by (simp add: PROCESS_MAX_def)
  ultimately show ?thesis
    using kill_self_not_preempted[of ?k 0 "fst (sys_kill 1 ?k)" "snd (sys_kill 1 ?k)"] by (simp add: Let_def)
qed

end
