(* ===== verification/Pipe.thy ===== *)
theory Pipe
  imports Fifo Process
begin

text \<open>
  Kernel pipes (kernel/pipe.c): a pool of eight 512-byte circular buffers with reference counts
  and one waiter per direction. \<open>pipe_read\<close> and \<open>pipe_write\<close> are loops whose body is one
  interrupt-off section; a round of the loop is one atomic operation here, and its result says
  whether the call returned, goes round again, or blocked the caller.
\<close>

section \<open>State and operations\<close>

definition PIPE_MAX :: nat where "PIPE_MAX = 8"
definition PIPE_BUF_SIZE :: nat where "PIPE_BUF_SIZE = 512"

record pipe =
  pp_buf :: "u8 list"
  pp_head :: nat
  pp_tail :: nat
  pp_count :: nat
  pp_used :: bool
  pp_read_refs :: u32
  pp_write_refs :: u32
  pp_read_waiter :: "nat option"
  pp_write_waiter :: "nat option"

record pstate =
  pipe_table :: "pipe list"
  procs :: kproc

abbreviation pipe_at :: "pstate \<Rightarrow> nat \<Rightarrow> pipe" where
  "pipe_at s i \<equiv> pipe_table s ! i"

definition set_pipe :: "nat \<Rightarrow> pipe \<Rightarrow> pstate \<Rightarrow> pstate" where
  "set_pipe i p s = s\<lparr>pipe_table := (pipe_table s)[i := p]\<rparr>"

fun scan_pipe :: "pipe list \<Rightarrow> nat \<Rightarrow> nat option" where
  "scan_pipe [] i = None"
| "scan_pipe (p # ps) i = (if pp_used p then scan_pipe ps (Suc i) else Some i)"

definition pipe_create :: "pstate \<Rightarrow> nat option \<times> pstate" where
  "pipe_create s =
     (case scan_pipe (pipe_table s) 0 of
        None \<Rightarrow> (None, s)
      | Some i \<Rightarrow> (Some i, set_pipe i ((pipe_at s i)\<lparr>pp_head := 0, pp_tail := 0, pp_count := 0,
            pp_used := True, pp_read_refs := 1, pp_write_refs := 1, pp_read_waiter := None,
            pp_write_waiter := None\<rparr>) s))"

text \<open>One byte out of and one byte into the buffer: the bodies of the two copy loops.\<close>

definition pipe_get :: "pipe \<Rightarrow> u8 \<times> pipe" where
  "pipe_get p = (pp_buf p ! pp_tail p,
     p\<lparr>pp_tail := (pp_tail p + 1) mod PIPE_BUF_SIZE, pp_count := pp_count p - 1\<rparr>)"

definition pipe_put :: "u8 \<Rightarrow> pipe \<Rightarrow> pipe" where
  "pipe_put b p = p\<lparr>pp_buf := (pp_buf p)[pp_head p := b],
     pp_head := (pp_head p + 1) mod PIPE_BUF_SIZE, pp_count := pp_count p + 1\<rparr>"

text \<open>Wake a registered waiter: clear the registration, and make it READY if it is still BLOCKED.\<close>

definition wake_reader :: "nat \<Rightarrow> pstate \<Rightarrow> pstate" where
  "wake_reader i s =
     (case pp_read_waiter (pipe_at s i) of None \<Rightarrow> s
      | Some r \<Rightarrow> (set_pipe i ((pipe_at s i)\<lparr>pp_read_waiter := None\<rparr>) s)
          \<lparr>procs := (if st (procs s) r = PROCESS_BLOCKED then set_state r PROCESS_READY (procs s) else procs s)\<rparr>)"

definition wake_writer :: "nat \<Rightarrow> pstate \<Rightarrow> pstate" where
  "wake_writer i s =
     (case pp_write_waiter (pipe_at s i) of None \<Rightarrow> s
      | Some w \<Rightarrow> (set_pipe i ((pipe_at s i)\<lparr>pp_write_waiter := None\<rparr>) s)
          \<lparr>procs := (if st (procs s) w = PROCESS_BLOCKED then set_state w PROCESS_READY (procs s) else procs s)\<rparr>)"

datatype read_result = ReadErr | ReadDone "u8 list" | ReadBlocked

text \<open>\<open>ReadDone\<close> carries the bytes copied to the caller; the C return value is their number
  (0 at end of file).\<close>

definition pipe_read_round :: "nat \<Rightarrow> nat \<Rightarrow> pstate \<Rightarrow> read_result \<times> pstate" where
  "pipe_read_round i len s =
     (if i \<ge> PIPE_MAX then (ReadErr, s)
      else if pp_count (pipe_at s i) > 0 then
        (let (bs, p) = drain (\<lambda>p. pp_count p > 0) pipe_get len (pipe_at s i)
         in (ReadDone bs, wake_writer i (set_pipe i p s)))
      else if pp_write_refs (pipe_at s i) = 0 then (ReadDone [], s)
      else case current_process (procs s) of
        None \<Rightarrow> (ReadDone [], s)
      | Some self \<Rightarrow> (ReadBlocked, (set_pipe i ((pipe_at s i)\<lparr>pp_read_waiter := Some self\<rparr>) s)
            \<lparr>procs := set_state self PROCESS_BLOCKED (procs s)\<rparr>))"

datatype write_result = WriteErr | WriteDone | WriteAgain nat | WriteBlocked

text \<open>\<open>WriteAgain n\<close>: the loop continues with \<open>written = n\<close>.\<close>

definition pipe_write_round :: "nat \<Rightarrow> u8 list \<Rightarrow> nat \<Rightarrow> pstate \<Rightarrow> write_result \<times> pstate" where
  "pipe_write_round i buf written s =
     (if i \<ge> PIPE_MAX then (WriteErr, s)
      else if pp_read_refs (pipe_at s i) = 0 then (WriteErr, s)
      else
        let free_space = PIPE_BUF_SIZE - pp_count (pipe_at s i) in
        if free_space > 0 then
          (let remaining = length buf - written;
               to_write = (if remaining < free_space then remaining else free_space);
               s1 = wake_reader i (set_pipe i (fold pipe_put (take to_write (drop written buf)) (pipe_at s i)) s);
               written' = written + to_write
           in if written' = length buf then (WriteDone, s1) else (WriteAgain written', s1))
        else case current_process (procs s) of
          None \<Rightarrow> (WriteErr, s)
        | Some self \<Rightarrow> (WriteBlocked, (set_pipe i ((pipe_at s i)\<lparr>pp_write_waiter := Some self\<rparr>) s)
            \<lparr>procs := set_state self PROCESS_BLOCKED (procs s)\<rparr>))"

definition pipe_add_read_ref :: "nat \<Rightarrow> pstate \<Rightarrow> pstate" where
  "pipe_add_read_ref i s =
     (if i \<ge> PIPE_MAX then s
      else set_pipe i ((pipe_at s i)\<lparr>pp_read_refs := pp_read_refs (pipe_at s i) + 1\<rparr>) s)"

definition pipe_add_write_ref :: "nat \<Rightarrow> pstate \<Rightarrow> pstate" where
  "pipe_add_write_ref i s =
     (if i \<ge> PIPE_MAX then s
      else set_pipe i ((pipe_at s i)\<lparr>pp_write_refs := pp_write_refs (pipe_at s i) + 1\<rparr>) s)"

definition free_if_unreferenced :: "nat \<Rightarrow> pstate \<Rightarrow> pstate" where
  "free_if_unreferenced i s =
     (if pp_read_refs (pipe_at s i) = 0 \<and> pp_write_refs (pipe_at s i) = 0
      then set_pipe i ((pipe_at s i)\<lparr>pp_used := False\<rparr>) s else s)"

definition pipe_release_read :: "nat \<Rightarrow> pstate \<Rightarrow> pstate" where
  "pipe_release_read i s =
     (if i \<ge> PIPE_MAX then s
      else let p = pipe_at s i;
               s1 = (if pp_read_refs p > 0 then set_pipe i (p\<lparr>pp_read_refs := pp_read_refs p - 1\<rparr>) s else s);
               s2 = (if pp_read_refs (pipe_at s1 i) = 0 then wake_writer i s1 else s1)
           in free_if_unreferenced i s2)"

definition pipe_release_write :: "nat \<Rightarrow> pstate \<Rightarrow> pstate" where
  "pipe_release_write i s =
     (if i \<ge> PIPE_MAX then s
      else let p = pipe_at s i;
               s1 = (if pp_write_refs p > 0 then set_pipe i (p\<lparr>pp_write_refs := pp_write_refs p - 1\<rparr>) s else s);
               s2 = (if pp_write_refs (pipe_at s1 i) = 0 then wake_reader i s1 else s1)
           in free_if_unreferenced i s2)"

section \<open>The buffer is a bounded queue\<close>

definition pipe_wf :: "pipe \<Rightarrow> bool" where
  "pipe_wf p \<longleftrightarrow> length (pp_buf p) = PIPE_BUF_SIZE \<and> pp_tail p < PIPE_BUF_SIZE
     \<and> pp_count p \<le> PIPE_BUF_SIZE \<and> pp_head p = (pp_tail p + pp_count p) mod PIPE_BUF_SIZE"

definition pipe_content :: "pipe \<Rightarrow> u8 list" where
  "pipe_content p = ring (pp_buf p) (pp_tail p) (pp_count p)"

lemma length_pipe_content [simp]: "length (pipe_content p) = pp_count p"
  by (simp add: pipe_content_def)

lemma pipe_put_effect:
  assumes "pipe_wf p" "pp_count p < PIPE_BUF_SIZE"
  shows "pipe_wf (pipe_put b p)" "pipe_content (pipe_put b p) = pipe_content p @ [b]"
proof -
  have "((pp_tail p + pp_count p) mod PIPE_BUF_SIZE + 1) mod PIPE_BUF_SIZE
      = (pp_tail p + (pp_count p + 1)) mod PIPE_BUF_SIZE"
    by (simp add: mod_Suc_eq)
  then show "pipe_wf (pipe_put b p)" using assms by (simp add: pipe_wf_def pipe_put_def)
  show "pipe_content (pipe_put b p) = pipe_content p @ [b]"
    using assms ring_put[of "pp_count p" "pp_buf p" "pp_tail p" b]
    by (simp add: pipe_wf_def pipe_put_def pipe_content_def)
qed

lemma pipe_get_effect:
  assumes "pipe_wf p" "pp_count p \<noteq> 0"
  shows "pipe_wf (snd (pipe_get p))" "pipe_content p = fst (pipe_get p) # pipe_content (snd (pipe_get p))"
proof -
  have "((pp_tail p + 1) mod PIPE_BUF_SIZE + (pp_count p - 1)) mod PIPE_BUF_SIZE
      = (pp_tail p + 1 + (pp_count p - 1)) mod PIPE_BUF_SIZE"
    by (rule mod_add_left_eq)
  then show "pipe_wf (snd (pipe_get p))"
    using assms by (auto simp: pipe_wf_def pipe_get_def PIPE_BUF_SIZE_def)
  show "pipe_content p = fst (pipe_get p) # pipe_content (snd (pipe_get p))"
    using assms ring_get[of "pp_tail p" "pp_buf p" "pp_count p - 1"]
    by (simp add: pipe_wf_def pipe_get_def pipe_content_def)
qed

interpretation pipe_fifo: bounded_fifo pipe_wf pipe_content PIPE_BUF_SIZE pipe_put pipe_get "\<lambda>p. pp_count p > 0"
proof unfold_locales
  show "length (pipe_content p) \<le> PIPE_BUF_SIZE" if "pipe_wf p" for p
    using that by (simp add: pipe_wf_def)
  show "pipe_wf (pipe_put b p) \<and> pipe_content (pipe_put b p) = pipe_content p @ [b]"
    if "pipe_wf p" "length (pipe_content p) < PIPE_BUF_SIZE" for p b
    using pipe_put_effect that by simp
  show "pipe_wf (snd (pipe_get p)) \<and> pipe_content p = fst (pipe_get p) # pipe_content (snd (pipe_get p))"
    if "pipe_wf p" "pipe_content p \<noteq> []" for p
  proof -
    have "pp_count p \<noteq> 0" using that(2) length_pipe_content[of p] by (metis length_0_conv)
    then show ?thesis using pipe_get_effect[OF that(1)] by blast
  qed
  show "(0 < pp_count p) = (pipe_content p \<noteq> [])" if "pipe_wf p" for p
    using length_pipe_content[of p] by (metis length_greater_0_conv)
qed

section \<open>Effects on the pool\<close>

lemma pipe_at_set_pipe:
  "i < length (pipe_table s) \<Longrightarrow> pipe_at (set_pipe i p s) j = (if j = i then p else pipe_at s j)"
  by (simp add: set_pipe_def)

lemma length_set_pipe [simp]: "length (pipe_table (set_pipe i p s)) = length (pipe_table s)"
  by (simp add: set_pipe_def)

lemma procs_set_pipe [simp]: "procs (set_pipe i p s) = procs s"
  by (simp add: set_pipe_def)

lemma length_wake [simp]:
  "length (pipe_table (wake_reader i s)) = length (pipe_table s)"
  "length (pipe_table (wake_writer i s)) = length (pipe_table s)"
  by (simp_all add: wake_reader_def wake_writer_def split: option.splits)

lemma pipe_at_wake_reader:
  "i < length (pipe_table s) \<Longrightarrow>
     pipe_at (wake_reader i s) j = (if j = i then (pipe_at s i)\<lparr>pp_read_waiter := None\<rparr> else pipe_at s j)"
  by (cases "pipe_at s i") (auto simp: wake_reader_def set_pipe_def split: option.splits)

lemma pipe_at_wake_writer:
  "i < length (pipe_table s) \<Longrightarrow>
     pipe_at (wake_writer i s) j = (if j = i then (pipe_at s i)\<lparr>pp_write_waiter := None\<rparr> else pipe_at s j)"
  by (cases "pipe_at s i") (auto simp: wake_writer_def set_pipe_def split: option.splits)

text \<open>A waiter field does not affect the queue.\<close>

lemma wf_content_fields [simp]:
  "pipe_wf (p\<lparr>pp_read_waiter := w\<rparr>) = pipe_wf p" "pipe_content (p\<lparr>pp_read_waiter := w\<rparr>) = pipe_content p"
  "pipe_wf (p\<lparr>pp_write_waiter := w\<rparr>) = pipe_wf p" "pipe_content (p\<lparr>pp_write_waiter := w\<rparr>) = pipe_content p"
  "pipe_wf (p\<lparr>pp_used := u\<rparr>) = pipe_wf p" "pipe_content (p\<lparr>pp_used := u\<rparr>) = pipe_content p"
  "pipe_wf (p\<lparr>pp_read_refs := n\<rparr>) = pipe_wf p" "pipe_content (p\<lparr>pp_read_refs := n\<rparr>) = pipe_content p"
  "pipe_wf (p\<lparr>pp_write_refs := n\<rparr>) = pipe_wf p" "pipe_content (p\<lparr>pp_write_refs := n\<rparr>) = pipe_content p"
  by (simp_all add: pipe_wf_def pipe_content_def)

text \<open>The copy loops touch only the queue fields.\<close>

lemma fold_put_fields [simp]:
  "pp_used (fold pipe_put bs p) = pp_used p"
  "pp_read_refs (fold pipe_put bs p) = pp_read_refs p"
  "pp_write_refs (fold pipe_put bs p) = pp_write_refs p"
  "pp_read_waiter (fold pipe_put bs p) = pp_read_waiter p"
  "pp_write_waiter (fold pipe_put bs p) = pp_write_waiter p"
  by (induction bs arbitrary: p) (simp_all add: pipe_put_def)

lemma drain_get_fields:
  "drain (\<lambda>p. pp_count p > 0) pipe_get n p = (bs, p') \<Longrightarrow>
     pp_used p' = pp_used p \<and> pp_read_refs p' = pp_read_refs p \<and> pp_write_refs p' = pp_write_refs p
     \<and> pp_read_waiter p' = pp_read_waiter p \<and> pp_write_waiter p' = pp_write_waiter p"
  by (induction n arbitrary: p bs) (fastforce simp: pipe_get_def Let_def split: if_splits prod.splits)+

lemma count_content: "pipe_content p = [] \<longleftrightarrow> pp_count p = 0"
  using length_pipe_content[of p] by (metis length_0_conv)

text \<open>One round of each call, in terms of the queue's contents.\<close>

lemma read_round_cases:
  assumes "pipe_read_round i len s = (r, s')" "i < PIPE_MAX" "length (pipe_table s) = PIPE_MAX"
    "pipe_wf (pipe_at s i)"
  obtains (data) bs p where "pp_count (pipe_at s i) > 0" "r = ReadDone bs" "bs = take len (pipe_content (pipe_at s i))"
      "pipe_wf p" "pipe_content p = drop len (pipe_content (pipe_at s i))"
      "pp_read_waiter p = pp_read_waiter (pipe_at s i)" "pp_read_refs p = pp_read_refs (pipe_at s i)"
      "pp_write_refs p = pp_write_refs (pipe_at s i)"
      "s' = wake_writer i (set_pipe i p s)"
  | (eof) "pp_count (pipe_at s i) = 0" "r = ReadDone []" "s' = s"
      "pp_write_refs (pipe_at s i) = 0 \<or> current_process (procs s) = None"
  | (blocked) c where "pp_count (pipe_at s i) = 0" "pp_write_refs (pipe_at s i) \<noteq> 0"
      "current_process (procs s) = Some c" "r = ReadBlocked"
      "s' = (set_pipe i ((pipe_at s i)\<lparr>pp_read_waiter := Some c\<rparr>) s)
            \<lparr>procs := set_state c PROCESS_BLOCKED (procs s)\<rparr>"
proof (cases "pp_count (pipe_at s i) > 0")
  case True
  obtain bs p where d: "drain (\<lambda>p. pp_count p > 0) pipe_get len (pipe_at s i) = (bs, p)" by fastforce
  have "(r, s') = (ReadDone bs, wake_writer i (set_pipe i p s))"
    using assms(1,2) True d by (simp add: pipe_read_round_def)
  then show thesis
    using data[OF True, of bs p] pipe_fifo.drain_effect[OF assms(4) d] drain_get_fields[OF d] by simp
next
  case False
  then show thesis using assms(1,2) eof blocked
    by (auto simp: pipe_read_round_def split: if_splits option.splits)
qed

lemma write_round_cases:
  assumes "pipe_write_round i buf w s = (r, s')" "i < PIPE_MAX" "length (pipe_table s) = PIPE_MAX"
    "pipe_wf (pipe_at s i)" "w \<le> length buf"
  obtains (broken) "pp_read_refs (pipe_at s i) = 0" "r = WriteErr" "s' = s"
  | (data) n p where "pp_read_refs (pipe_at s i) \<noteq> 0" "n = min (length buf - w) (PIPE_BUF_SIZE - pp_count (pipe_at s i))"
      "pp_count (pipe_at s i) < PIPE_BUF_SIZE"
      "r = (if w + n = length buf then WriteDone else WriteAgain (w + n))"
      "pipe_wf p" "pipe_content p = pipe_content (pipe_at s i) @ take n (drop w buf)"
      "pp_write_waiter p = pp_write_waiter (pipe_at s i)" "pp_read_refs p = pp_read_refs (pipe_at s i)"
      "pp_write_refs p = pp_write_refs (pipe_at s i)"
      "s' = wake_reader i (set_pipe i p s)"
  | (no_process) "r = WriteErr" "s' = s" "current_process (procs s) = None"
  | (blocked) c where "pp_read_refs (pipe_at s i) \<noteq> 0" "pp_count (pipe_at s i) = PIPE_BUF_SIZE"
      "current_process (procs s) = Some c" "r = WriteBlocked"
      "s' = (set_pipe i ((pipe_at s i)\<lparr>pp_write_waiter := Some c\<rparr>) s)
            \<lparr>procs := set_state c PROCESS_BLOCKED (procs s)\<rparr>"
proof (cases "pp_read_refs (pipe_at s i) \<noteq> 0 \<and> pp_count (pipe_at s i) < PIPE_BUF_SIZE")
  case True
  let ?n = "min (length buf - w) (PIPE_BUF_SIZE - pp_count (pipe_at s i))"
  let ?p = "fold pipe_put (take ?n (drop w buf)) (pipe_at s i)"
  have n: "(if length buf - w < PIPE_BUF_SIZE - pp_count (pipe_at s i) then length buf - w
            else PIPE_BUF_SIZE - pp_count (pipe_at s i)) = ?n" by (simp add: min_def)
  have f: "pipe_wf ?p \<and> pipe_content ?p = pipe_content (pipe_at s i) @ take ?n (drop w buf)"
    using True by (intro pipe_fifo.fold_put[OF assms(4)]) (auto simp: min_def)
  have "(r, s') = (if w + ?n = length buf then WriteDone else WriteAgain (w + ?n), wake_reader i (set_pipe i ?p s))"
    using assms(1,2) True unfolding pipe_write_round_def Let_def n by (simp split: if_splits)
  then show thesis using data[of ?n ?p] True f by simp
next
  case False
  then have "pp_read_refs (pipe_at s i) \<noteq> 0 \<Longrightarrow> pp_count (pipe_at s i) = PIPE_BUF_SIZE"
    using assms(4) by (auto simp: pipe_wf_def)
  then show thesis using assms(1,2) False broken no_process blocked
    by (auto simp: pipe_write_round_def Let_def split: if_splits option.splits)
qed

section \<open>Interleavings of pipe operations\<close>

fun read_bytes :: "read_result \<Rightarrow> u8 list" where
  "read_bytes (ReadDone bs) = bs"
| "read_bytes r = []"

fun written_bytes :: "u8 list \<Rightarrow> nat \<Rightarrow> write_result \<Rightarrow> u8 list" where
  "written_bytes buf w WriteDone = drop w buf"
| "written_bytes buf w (WriteAgain n) = take (n - w) (drop w buf)"
| "written_bytes buf w r = []"

text \<open>
  One atomic operation by any process on any pipe, observed at pipe \<open>i\<close>: the bytes it takes out of
  pipe \<open>i\<close> and the bytes it puts in. Between two operations the process table may change in any way.
  Pipe \<open>i\<close> is not handed out again while it is observed, and the reference counts do not wrap.
\<close>

inductive pstep :: "nat \<Rightarrow> pstate \<Rightarrow> u8 list \<Rightarrow> u8 list \<Rightarrow> pstate \<Rightarrow> bool" for i where
  ps_read: "j < PIPE_MAX \<Longrightarrow> pipe_read_round j len s = (r, s') \<Longrightarrow>
    pstep i s (if j = i then read_bytes r else []) [] s'"
| ps_write: "j < PIPE_MAX \<Longrightarrow> w \<le> length buf \<Longrightarrow> pipe_write_round j buf w s = (r, s') \<Longrightarrow>
    pstep i s [] (if j = i then written_bytes buf w r else []) s'"
| ps_create: "pipe_create s = (r, s') \<Longrightarrow> r \<noteq> Some i \<Longrightarrow> pstep i s [] [] s'"
| ps_add_read: "pp_read_refs (pipe_at s j) \<noteq> -1 \<Longrightarrow> pstep i s [] [] (pipe_add_read_ref j s)"
| ps_add_write: "pp_write_refs (pipe_at s j) \<noteq> -1 \<Longrightarrow> pstep i s [] [] (pipe_add_write_ref j s)"
| ps_release_read: "pstep i s [] [] (pipe_release_read j s)"
| ps_release_write: "pstep i s [] [] (pipe_release_write j s)"
| ps_procs: "pstep i s [] [] (s\<lparr>procs := k\<rparr>)"

inductive ptrace :: "nat \<Rightarrow> pstate \<Rightarrow> u8 list \<Rightarrow> u8 list \<Rightarrow> pstate \<Rightarrow> bool" for i s where
  pt_nil: "ptrace i s [] [] s"
| pt_step: "ptrace i s R W s' \<Longrightarrow> pstep i s' r w s'' \<Longrightarrow> ptrace i s (R @ r) (W @ w) s''"

definition waiter_ok :: "pipe \<Rightarrow> bool" where
  "waiter_ok p \<longleftrightarrow> (pp_read_waiter p \<noteq> None \<longrightarrow> pp_count p = 0 \<and> pp_write_refs p \<noteq> 0)
     \<and> (pp_write_waiter p \<noteq> None \<longrightarrow> pp_count p = PIPE_BUF_SIZE \<and> pp_read_refs p \<noteq> 0)"

definition pipe_ok :: "pipe \<Rightarrow> bool" where
  "pipe_ok p \<longleftrightarrow> pipe_wf p \<and> waiter_ok p"

definition pipes_inv :: "pstate \<Rightarrow> bool" where
  "pipes_inv s \<longleftrightarrow> length (pipe_table s) = PIPE_MAX \<and> (\<forall>i < PIPE_MAX. pipe_ok (pipe_at s i))"

lemma scan_pipe_Some:
  "scan_pipe ps i = Some j \<Longrightarrow> i \<le> j \<and> j < i + length ps \<and> \<not> pp_used (ps ! (j - i))"
proof (induction ps arbitrary: i)
  case (Cons p ps)
  then show ?case by (cases "pp_used p") (fastforce simp: nth_Cons' Suc_diff_Suc)+
qed simp

text \<open>An operation that rewrites one pipe keeps the pool's invariant if the new pipe is well formed.\<close>

lemma pool_step:
  assumes "pipes_inv s" "j < PIPE_MAX" "\<And>l. l < PIPE_MAX \<Longrightarrow> pipe_at s' l = (if l = j then p else pipe_at s l)"
    "length (pipe_table s') = length (pipe_table s)" "pipe_ok p"
  shows "pipes_inv s'"
  using assms by (auto simp: pipes_inv_def)

lemma read_round_step:
  assumes "pipes_inv s" "j < PIPE_MAX" "pipe_read_round j len s = (r, s')"
  shows "pipes_inv s'" "i < PIPE_MAX \<Longrightarrow>
    (if j = i then read_bytes r else []) @ pipe_content (pipe_at s' i) = pipe_content (pipe_at s i)"
proof -
  have len: "length (pipe_table s) = PIPE_MAX" and wf: "pipe_wf (pipe_at s j)" and w: "waiter_ok (pipe_at s j)"
    using assms(1,2) by (auto simp: pipes_inv_def pipe_ok_def)
  have "pipes_inv s' \<and> (i < PIPE_MAX \<longrightarrow>
    (if j = i then read_bytes r else []) @ pipe_content (pipe_at s' i) = pipe_content (pipe_at s i))"
  proof (rule read_round_cases[OF assms(3,2) len wf])
    fix bs p
    assume d: "pp_count (pipe_at s j) > 0" "r = ReadDone bs" "bs = take len (pipe_content (pipe_at s j))"
      "pipe_wf p" "pipe_content p = drop len (pipe_content (pipe_at s j))"
      "pp_read_waiter p = pp_read_waiter (pipe_at s j)" "s' = wake_writer j (set_pipe j p s)"
    have s': "pipe_at s' l = (if l = j then p\<lparr>pp_write_waiter := None\<rparr> else pipe_at s l)" for l
      using d(7) len assms(2) by (simp add: pipe_at_wake_writer pipe_at_set_pipe)
    have "pp_read_waiter p = None" using w d(1,6) by (auto simp: waiter_ok_def)
    then have "pipe_ok (p\<lparr>pp_write_waiter := None\<rparr>)" using d(4) by (simp add: pipe_ok_def waiter_ok_def)
    moreover have "length (pipe_table s') = length (pipe_table s)" using d(7) by simp
    ultimately have "pipes_inv s'" using pool_step[OF assms(1,2) s'] by blast
    then show ?thesis using d(2,3,5) s' by simp
  next
    fix c
    assume d: "pp_count (pipe_at s j) = 0" "pp_write_refs (pipe_at s j) \<noteq> 0" "r = ReadBlocked"
      "s' = (set_pipe j ((pipe_at s j)\<lparr>pp_read_waiter := Some c\<rparr>) s)
            \<lparr>procs := set_state c PROCESS_BLOCKED (procs s)\<rparr>"
    have s': "pipe_at s' l = (if l = j then (pipe_at s j)\<lparr>pp_read_waiter := Some c\<rparr> else pipe_at s l)" for l
      using d(4) len assms(2) by (simp add: set_pipe_def)
    have "pipe_ok ((pipe_at s j)\<lparr>pp_read_waiter := Some c\<rparr>)"
      using w wf d(1,2) by (auto simp: pipe_ok_def waiter_ok_def)
    moreover have "length (pipe_table s') = length (pipe_table s)" using d(4) by simp
    ultimately have "pipes_inv s'" using pool_step[OF assms(1,2) s'] by blast
    then show ?thesis using d(3) s' by simp
  qed (use assms(1) in simp_all)
  then show "pipes_inv s'" "i < PIPE_MAX \<Longrightarrow>
    (if j = i then read_bytes r else []) @ pipe_content (pipe_at s' i) = pipe_content (pipe_at s i)"
    by blast+
qed

lemma write_round_step:
  assumes "pipes_inv s" "j < PIPE_MAX" "w \<le> length buf" "pipe_write_round j buf w s = (r, s')"
  shows "pipes_inv s'" "i < PIPE_MAX \<Longrightarrow> pipe_content (pipe_at s' i)
    = pipe_content (pipe_at s i) @ (if j = i then written_bytes buf w r else [])"
proof -
  have len: "length (pipe_table s) = PIPE_MAX" and wf: "pipe_wf (pipe_at s j)" and wo: "waiter_ok (pipe_at s j)"
    using assms(1,2) by (auto simp: pipes_inv_def pipe_ok_def)
  have "pipes_inv s' \<and> (i < PIPE_MAX \<longrightarrow> pipe_content (pipe_at s' i)
    = pipe_content (pipe_at s i) @ (if j = i then written_bytes buf w r else []))"
  proof (rule write_round_cases[OF assms(4,2) len wf assms(3)])
    fix n p
    assume d: "n = min (length buf - w) (PIPE_BUF_SIZE - pp_count (pipe_at s j))"
      "pp_count (pipe_at s j) < PIPE_BUF_SIZE"
      "r = (if w + n = length buf then WriteDone else WriteAgain (w + n))"
      "pipe_wf p" "pipe_content p = pipe_content (pipe_at s j) @ take n (drop w buf)"
      "pp_write_waiter p = pp_write_waiter (pipe_at s j)" "s' = wake_reader j (set_pipe j p s)"
    have s': "pipe_at s' l = (if l = j then p\<lparr>pp_read_waiter := None\<rparr> else pipe_at s l)" for l
      using d(7) len assms(2) by (simp add: pipe_at_wake_reader pipe_at_set_pipe)
    have "pp_write_waiter p = None" using wo d(2,6) by (auto simp: waiter_ok_def)
    then have "pipe_ok (p\<lparr>pp_read_waiter := None\<rparr>)" using d(4) by (simp add: pipe_ok_def waiter_ok_def)
    moreover have "length (pipe_table s') = length (pipe_table s)" using d(7) by simp
    ultimately have "pipes_inv s'" using pool_step[OF assms(1,2) s'] by blast
    moreover have "written_bytes buf w r = take n (drop w buf)"
      using d(3) assms(3) by auto
    ultimately show ?thesis using d(5) s' by simp
  next
    fix c
    assume d: "pp_read_refs (pipe_at s j) \<noteq> 0" "pp_count (pipe_at s j) = PIPE_BUF_SIZE" "r = WriteBlocked"
      "s' = (set_pipe j ((pipe_at s j)\<lparr>pp_write_waiter := Some c\<rparr>) s)
            \<lparr>procs := set_state c PROCESS_BLOCKED (procs s)\<rparr>"
    have s': "pipe_at s' l = (if l = j then (pipe_at s j)\<lparr>pp_write_waiter := Some c\<rparr> else pipe_at s l)" for l
      using d(4) len assms(2) by (simp add: set_pipe_def)
    have "pipe_ok ((pipe_at s j)\<lparr>pp_write_waiter := Some c\<rparr>)"
      using wo wf d(1,2) by (auto simp: pipe_ok_def waiter_ok_def)
    moreover have "length (pipe_table s') = length (pipe_table s)" using d(4) by simp
    ultimately have "pipes_inv s'" using pool_step[OF assms(1,2) s'] by blast
    then show ?thesis using d(3) s' by simp
  qed (use assms(1) in simp_all)
  then show "pipes_inv s'" "i < PIPE_MAX \<Longrightarrow> pipe_content (pipe_at s' i)
    = pipe_content (pipe_at s i) @ (if j = i then written_bytes buf w r else [])" by blast+
qed

text \<open>The release operations, as one rewritten pipe.\<close>

definition released_read :: "pipe \<Rightarrow> pipe" where
  "released_read p =
     (let n = (if pp_read_refs p > 0 then pp_read_refs p - 1 else pp_read_refs p) in
      p\<lparr>pp_read_refs := n, pp_write_waiter := (if n = 0 then None else pp_write_waiter p),
        pp_used := (if n = 0 \<and> pp_write_refs p = 0 then False else pp_used p)\<rparr>)"

definition released_write :: "pipe \<Rightarrow> pipe" where
  "released_write p =
     (let n = (if pp_write_refs p > 0 then pp_write_refs p - 1 else pp_write_refs p) in
      p\<lparr>pp_write_refs := n, pp_read_waiter := (if n = 0 then None else pp_read_waiter p),
        pp_used := (if n = 0 \<and> pp_read_refs p = 0 then False else pp_used p)\<rparr>)"

lemma pipe_update_self [simp]:
  "p\<lparr>pp_read_refs := pp_read_refs p\<rparr> = p" "p\<lparr>pp_write_refs := pp_write_refs p\<rparr> = p"
  "p\<lparr>pp_read_refs := n, pp_write_waiter := pp_write_waiter p\<rparr> = p\<lparr>pp_read_refs := n\<rparr>"
  "p\<lparr>pp_write_refs := n, pp_read_waiter := pp_read_waiter p\<rparr> = p\<lparr>pp_write_refs := n\<rparr>"
  "p\<lparr>pp_read_refs := n, pp_write_waiter := w, pp_used := pp_used p\<rparr> = p\<lparr>pp_read_refs := n, pp_write_waiter := w\<rparr>"
  "p\<lparr>pp_write_refs := n, pp_read_waiter := w, pp_used := pp_used p\<rparr> = p\<lparr>pp_write_refs := n, pp_read_waiter := w\<rparr>"
  by (cases p; simp)+

lemma release_read_at:
  assumes "j < PIPE_MAX" "length (pipe_table s) = PIPE_MAX"
  shows "pipe_at (pipe_release_read j s) l = (if l = j then released_read (pipe_at s j) else pipe_at s l)"
    "length (pipe_table (pipe_release_read j s)) = PIPE_MAX"
proof -
  define p where "p = pipe_at s j"
  define n where "n = (if pp_read_refs p > 0 then pp_read_refs p - 1 else pp_read_refs p)"
  define s1 where "s1 = (if pp_read_refs p > 0 then set_pipe j (p\<lparr>pp_read_refs := pp_read_refs p - 1\<rparr>) s else s)"
  define s2 where "s2 = (if pp_read_refs (pipe_at s1 j) = 0 then wake_writer j s1 else s1)"
  have eq: "pipe_release_read j s = free_if_unreferenced j s2"
    using assms(1) by (simp add: pipe_release_read_def Let_def s2_def s1_def p_def)
  have l1: "length (pipe_table s1) = PIPE_MAX" by (simp add: s1_def assms(2))
  have 1: "pipe_at s1 l = (if l = j then p\<lparr>pp_read_refs := n\<rparr> else pipe_at s l)" for l
    using assms by (cases "pp_read_refs p > 0") (simp_all add: s1_def n_def p_def pipe_at_set_pipe)
  have l2: "length (pipe_table s2) = PIPE_MAX" by (simp add: s2_def l1)
  have 2: "pipe_at s2 l = (if l = j then p\<lparr>pp_read_refs := n,
        pp_write_waiter := (if n = 0 then None else pp_write_waiter p)\<rparr> else pipe_at s l)" for l
    using assms(1) by (cases "n = 0") (simp_all add: s2_def 1 l1 pipe_at_wake_writer)
  have 3: "pipe_at (free_if_unreferenced j s2) l = (if l = j then released_read p else pipe_at s l)" for l
    using assms(1) by (cases "n = 0 \<and> pp_write_refs p = 0")
      (auto simp: free_if_unreferenced_def 2 l2 pipe_at_set_pipe released_read_def n_def[symmetric] Let_def)
  show "pipe_at (pipe_release_read j s) l = (if l = j then released_read (pipe_at s j) else pipe_at s l)"
    unfolding eq 3 p_def ..
  show "length (pipe_table (pipe_release_read j s)) = PIPE_MAX"
    unfolding eq by (simp add: free_if_unreferenced_def l2)
qed

lemma release_write_at:
  assumes "j < PIPE_MAX" "length (pipe_table s) = PIPE_MAX"
  shows "pipe_at (pipe_release_write j s) l = (if l = j then released_write (pipe_at s j) else pipe_at s l)"
    "length (pipe_table (pipe_release_write j s)) = PIPE_MAX"
proof -
  define p where "p = pipe_at s j"
  define n where "n = (if pp_write_refs p > 0 then pp_write_refs p - 1 else pp_write_refs p)"
  define s1 where "s1 = (if pp_write_refs p > 0 then set_pipe j (p\<lparr>pp_write_refs := pp_write_refs p - 1\<rparr>) s else s)"
  define s2 where "s2 = (if pp_write_refs (pipe_at s1 j) = 0 then wake_reader j s1 else s1)"
  have eq: "pipe_release_write j s = free_if_unreferenced j s2"
    using assms(1) by (simp add: pipe_release_write_def Let_def s2_def s1_def p_def)
  have l1: "length (pipe_table s1) = PIPE_MAX" by (simp add: s1_def assms(2))
  have 1: "pipe_at s1 l = (if l = j then p\<lparr>pp_write_refs := n\<rparr> else pipe_at s l)" for l
    using assms by (cases "pp_write_refs p > 0") (simp_all add: s1_def n_def p_def pipe_at_set_pipe)
  have l2: "length (pipe_table s2) = PIPE_MAX" by (simp add: s2_def l1)
  have 2: "pipe_at s2 l = (if l = j then p\<lparr>pp_write_refs := n,
        pp_read_waiter := (if n = 0 then None else pp_read_waiter p)\<rparr> else pipe_at s l)" for l
    using assms(1) by (cases "n = 0") (simp_all add: s2_def 1 l1 pipe_at_wake_reader)
  have 3: "pipe_at (free_if_unreferenced j s2) l = (if l = j then released_write p else pipe_at s l)" for l
    using assms(1) by (cases "n = 0 \<and> pp_read_refs p = 0")
      (auto simp: free_if_unreferenced_def 2 l2 pipe_at_set_pipe released_write_def n_def[symmetric] Let_def)
  show "pipe_at (pipe_release_write j s) l = (if l = j then released_write (pipe_at s j) else pipe_at s l)"
    unfolding eq 3 p_def ..
  show "length (pipe_table (pipe_release_write j s)) = PIPE_MAX"
    unfolding eq by (simp add: free_if_unreferenced_def l2)
qed

lemma released_ok:
  "pipe_ok p \<Longrightarrow> pipe_ok (released_read p)" "pipe_ok p \<Longrightarrow> pipe_ok (released_write p)"
  "pipe_content (released_read p) = pipe_content p" "pipe_content (released_write p) = pipe_content p"
  by (auto simp: released_read_def released_write_def Let_def pipe_ok_def waiter_ok_def)

lemma create_step:
  assumes "pipes_inv s" "pipe_create s = (r, s')"
  shows "pipes_inv s'" "r \<noteq> Some i \<Longrightarrow> pipe_content (pipe_at s' i) = pipe_content (pipe_at s i)"
proof -
  have len: "length (pipe_table s) = PIPE_MAX" using assms(1) by (simp add: pipes_inv_def)
  show "pipes_inv s'" "r \<noteq> Some i \<Longrightarrow> pipe_content (pipe_at s' i) = pipe_content (pipe_at s i)"
  proof (atomize (full), cases "scan_pipe (pipe_table s) 0")
    case None
    then show "pipes_inv s' \<and> (r \<noteq> Some i \<longrightarrow> pipe_content (pipe_at s' i) = pipe_content (pipe_at s i))"
      using assms by (simp add: pipe_create_def)
  next
    case (Some j)
    have j: "j < PIPE_MAX" using scan_pipe_Some[OF Some] len by simp
    let ?p = "(pipe_at s j)\<lparr>pp_head := 0, pp_tail := 0, pp_count := 0,
            pp_used := True, pp_read_refs := 1, pp_write_refs := 1, pp_read_waiter := None,
            pp_write_waiter := None\<rparr>"
    have r: "r = Some j" "s' = set_pipe j ?p s" using assms(2) Some by (simp_all add: pipe_create_def)
    have at: "pipe_at s' l = (if l = j then ?p else pipe_at s l)" for l
      using r(2) j len by (simp add: pipe_at_set_pipe)
    have "pipe_ok ?p"
      using assms(1) j by (auto simp: pipes_inv_def pipe_ok_def pipe_wf_def waiter_ok_def PIPE_BUF_SIZE_def)
    then have "pipes_inv s'" using pool_step[OF assms(1) j at] r(2) by simp
    then show "pipes_inv s' \<and> (r \<noteq> Some i \<longrightarrow> pipe_content (pipe_at s' i) = pipe_content (pipe_at s i))"
      using at r(1) by simp
  qed
qed

lemma add_ref_step:
  assumes "pipes_inv s"
  shows "pp_read_refs (pipe_at s j) \<noteq> -1 \<Longrightarrow> pipes_inv (pipe_add_read_ref j s)"
    "pp_write_refs (pipe_at s j) \<noteq> -1 \<Longrightarrow> pipes_inv (pipe_add_write_ref j s)"
    "pipe_content (pipe_at (pipe_add_read_ref j s) i) = pipe_content (pipe_at s i)"
    "pipe_content (pipe_at (pipe_add_write_ref j s) i) = pipe_content (pipe_at s i)"
proof -
  have len: "length (pipe_table s) = PIPE_MAX" using assms by (simp add: pipes_inv_def)
  have nz: "x + 1 \<noteq> 0" if "x \<noteq> -1" for x :: u32 using that by (simp add: eq_neg_iff_add_eq_0)
  show "pipes_inv (pipe_add_read_ref j s)" if "pp_read_refs (pipe_at s j) \<noteq> -1"
    using assms nz[OF that] len
    by (auto simp: pipe_add_read_ref_def pipes_inv_def pipe_at_set_pipe pipe_ok_def waiter_ok_def)
  show "pipes_inv (pipe_add_write_ref j s)" if "pp_write_refs (pipe_at s j) \<noteq> -1"
    using assms nz[OF that] len
    by (auto simp: pipe_add_write_ref_def pipes_inv_def pipe_at_set_pipe pipe_ok_def waiter_ok_def)
  show "pipe_content (pipe_at (pipe_add_read_ref j s) i) = pipe_content (pipe_at s i)"
    "pipe_content (pipe_at (pipe_add_write_ref j s) i) = pipe_content (pipe_at s i)"
    using len by (simp_all add: pipe_add_read_ref_def pipe_add_write_ref_def pipe_at_set_pipe)
qed

lemma release_step:
  assumes "pipes_inv s"
  shows "pipes_inv (pipe_release_read j s)" "pipes_inv (pipe_release_write j s)"
    "pipe_content (pipe_at (pipe_release_read j s) i) = pipe_content (pipe_at s i)"
    "pipe_content (pipe_at (pipe_release_write j s) i) = pipe_content (pipe_at s i)"
proof -
  have len: "length (pipe_table s) = PIPE_MAX" and ok: "\<And>l. l < PIPE_MAX \<Longrightarrow> pipe_ok (pipe_at s l)"
    using assms by (simp_all add: pipes_inv_def)
  have "pipes_inv (pipe_release_read j s) \<and> pipes_inv (pipe_release_write j s)
      \<and> pipe_content (pipe_at (pipe_release_read j s) i) = pipe_content (pipe_at s i)
      \<and> pipe_content (pipe_at (pipe_release_write j s) i) = pipe_content (pipe_at s i)"
  proof (cases "j < PIPE_MAX")
    case True
    note r = release_read_at[OF True len] and w = release_write_at[OF True len]
    show ?thesis using ok True unfolding pipes_inv_def r w by (simp add: released_ok)
  next
    case False
    then show ?thesis using assms by (simp add: pipe_release_read_def pipe_release_write_def)
  qed
  then show "pipes_inv (pipe_release_read j s)" "pipes_inv (pipe_release_write j s)"
    "pipe_content (pipe_at (pipe_release_read j s) i) = pipe_content (pipe_at s i)"
    "pipe_content (pipe_at (pipe_release_write j s) i) = pipe_content (pipe_at s i)" by blast+
qed

lemma pstep_effect:
  "pstep i s r w s' \<Longrightarrow> pipes_inv s \<Longrightarrow> i < PIPE_MAX \<Longrightarrow>
     pipes_inv s' \<and> r @ pipe_content (pipe_at s' i) = pipe_content (pipe_at s i) @ w"
proof (induction rule: pstep.induct)
  case (ps_read j len s r s')
  then show ?case using read_round_step(1)[OF ps_read(3,1,2)] read_round_step(2)[OF ps_read(3,1,2), of i] by simp
next
  case (ps_write j w buf s r s')
  then show ?case using write_round_step(1)[OF ps_write(4,1,2,3)]
      write_round_step(2)[OF ps_write(4,1,2,3), of i] by simp
next
  case (ps_create s r s')
  then show ?case using create_step(1)[OF ps_create(3,1)] create_step(2)[OF ps_create(3,1), of i] by simp
next
  case (ps_procs s k)
  then show ?case by (simp add: pipes_inv_def)
qed (simp_all add: add_ref_step release_step)

lemma ptrace_effect:
  "ptrace i s R W s' \<Longrightarrow> pipes_inv s \<Longrightarrow> i < PIPE_MAX \<Longrightarrow>
     pipes_inv s' \<and> R @ pipe_content (pipe_at s' i) = pipe_content (pipe_at s i) @ W"
proof (induction rule: ptrace.induct)
  case (pt_step R W s' r w s'')
  then have ih: "pipes_inv s'" "R @ pipe_content (pipe_at s' i) = pipe_content (pipe_at s i) @ W" by simp_all
  have st: "pipes_inv s''" "r @ pipe_content (pipe_at s'' i) = pipe_content (pipe_at s' i) @ w"
    using pstep_effect[OF pt_step(2) ih(1) pt_step(5)] by simp_all
  then have "(R @ r) @ pipe_content (pipe_at s'' i) = (R @ pipe_content (pipe_at s' i)) @ w" by simp
  then show ?case using st(1) ih(2) by simp
qed simp

section \<open>Boot state\<close>

definition zero_pipe :: pipe where
  "zero_pipe = \<lparr>pp_buf = replicate PIPE_BUF_SIZE 0, pp_head = 0, pp_tail = 0, pp_count = 0, pp_used = False,
     pp_read_refs = 0, pp_write_refs = 0, pp_read_waiter = None, pp_write_waiter = None\<rparr>"

definition boot_pipes :: "kproc \<Rightarrow> pstate" where
  "boot_pipes k = \<lparr>pipe_table = replicate PIPE_MAX zero_pipe, procs = k\<rparr>"

lemma pipes_inv_boot: "pipes_inv (boot_pipes k)"
  by (simp add: pipes_inv_def boot_pipes_def pipe_ok_def pipe_wf_def waiter_ok_def zero_pipe_def PIPE_BUF_SIZE_def)

lemma create_fresh:
  assumes "pipes_inv s" "pipe_create s = (Some i, s1)"
  shows "i < PIPE_MAX" "pipe_content (pipe_at s1 i) = []" "pp_read_refs (pipe_at s1 i) = 1"
    "pp_write_refs (pipe_at s1 i) = 1" "pp_count (pipe_at s1 i) = 0"
proof -
  have len: "length (pipe_table s) = PIPE_MAX" using assms(1) by (simp add: pipes_inv_def)
  have sc: "scan_pipe (pipe_table s) 0 = Some i"
    using assms(2) by (auto simp: pipe_create_def split: option.splits)
  show i: "i < PIPE_MAX" using scan_pipe_Some[OF sc] len by simp
  show "pipe_content (pipe_at s1 i) = []" "pp_read_refs (pipe_at s1 i) = 1"
    "pp_write_refs (pipe_at s1 i) = 1" "pp_count (pipe_at s1 i) = 0"
    using assms(2) sc i len by (auto simp: pipe_create_def pipe_at_set_pipe pipe_content_def)
qed

lemma create_boot: "\<exists>s1. pipe_create (boot_pipes k) = (Some 0, s1)"
  by (simp add: pipe_create_def boot_pipes_def PIPE_MAX_def eval_nat_numeral zero_pipe_def)

section \<open>Properties\<close>

text \<open>
  C12. A pipe is a reliable byte stream: from its creation, under any interleaving of reads,
  writes, reference changes and process activity, the bytes that were read followed by the at most
  512 bytes still in the buffer are exactly the bytes that were written, in order.
\<close>

theorem pipe_stream:
  assumes "pipes_inv s" "pipe_create s = (Some i, s1)" "ptrace i s1 R W s2"
  shows "R @ pipe_content (pipe_at s2 i) = W \<and> length (pipe_content (pipe_at s2 i)) \<le> PIPE_BUF_SIZE"
proof -
  note f = create_fresh[OF assms(1,2)]
  have "pipes_inv s1" using create_step(1)[OF assms(1,2)] .
  from ptrace_effect[OF assms(3) this f(1)] f(1,2) show ?thesis
    by (auto simp: pipes_inv_def pipe_ok_def pipe_wf_def)
qed

theorem pipe_stream_witness:
  "\<exists>s1 s2. pipe_create (boot_pipes (boot_kproc 0)) = (Some 0, s1) \<and> ptrace 0 s1 [] [104, 105] s2
     \<and> pipe_content (pipe_at s2 0) = [104, 105]"
proof -
  obtain s1 where s1: "pipe_create (boot_pipes (boot_kproc 0)) = (Some 0, s1)"
    using create_boot by blast
  note f = create_fresh[OF pipes_inv_boot s1]
  obtain s2 where w: "pipe_write_round 0 [104, 105] 0 s1 = (WriteDone, s2)"
    using f by (simp add: pipe_write_round_def PIPE_MAX_def PIPE_BUF_SIZE_def)
  have "ptrace 0 s1 ([] @ []) ([] @ [104, 105]) s2"
    using ps_write[OF f(1) _ w, of 0] by (intro pt_step[OF pt_nil]) simp
  then have t: "ptrace 0 s1 [] [104, 105] s2" by simp
  from pipe_stream[OF pipes_inv_boot s1 t] have "pipe_content (pipe_at s2 0) = [104, 105]" by simp
  then show ?thesis using s1 t by blast
qed



text \<open>
  C14. End of file and broken pipe: when the last writer of an empty pipe releases its end, the
  blocked reader becomes READY and its next round returns 0 bytes; when the last reader releases
  its end, the blocked writer becomes READY and its next round returns the broken-pipe error. The
  slot is freed exactly when the other end has no references either.
\<close>

theorem pipe_last_release:
  assumes "pipes_inv s" "i < PIPE_MAX" "w < length (process_table (procs s))" "st (procs s) w = PROCESS_BLOCKED"
  shows "(pp_read_waiter (pipe_at s i) = Some w \<and> pp_write_refs (pipe_at s i) = 1 \<longrightarrow>
           st (procs (pipe_release_write i s)) w = PROCESS_READY
           \<and> fst (pipe_read_round i n (pipe_release_write i s)) = ReadDone []
           \<and> (pp_used (pipe_at (pipe_release_write i s) i) \<longleftrightarrow>
                pp_used (pipe_at s i) \<and> pp_read_refs (pipe_at s i) \<noteq> 0))
     \<and> (pp_write_waiter (pipe_at s i) = Some w \<and> pp_read_refs (pipe_at s i) = 1 \<longrightarrow>
           st (procs (pipe_release_read i s)) w = PROCESS_READY
           \<and> fst (pipe_write_round i buf m (pipe_release_read i s)) = WriteErr
           \<and> (pp_used (pipe_at (pipe_release_read i s) i) \<longleftrightarrow>
                pp_used (pipe_at s i) \<and> pp_write_refs (pipe_at s i) \<noteq> 0))"
proof (intro conjI impI; elim conjE)
  have len: "length (pipe_table s) = PIPE_MAX" and ok: "waiter_ok (pipe_at s i)"
    using assms(1,2) by (auto simp: pipes_inv_def pipe_ok_def)
  note at_w = release_write_at(1)[OF assms(2) len, of i] and at_r = release_read_at(1)[OF assms(2) len, of i]
  {
    assume h: "pp_read_waiter (pipe_at s i) = Some w" "pp_write_refs (pipe_at s i) = 1"
    show "st (procs (pipe_release_write i s)) w = PROCESS_READY"
      using h assms len by (simp add: pipe_release_write_def Let_def pipe_at_set_pipe wake_reader_def
          free_if_unreferenced_def proc_upd_proc)
    show "fst (pipe_read_round i n (pipe_release_write i s)) = ReadDone []"
      using h ok assms(2) at_w by (simp add: pipe_read_round_def released_write_def waiter_ok_def)
    show "pp_used (pipe_at (pipe_release_write i s) i) \<longleftrightarrow> pp_used (pipe_at s i) \<and> pp_read_refs (pipe_at s i) \<noteq> 0"
      using h at_w by (auto simp: released_write_def)
  next
    assume h: "pp_write_waiter (pipe_at s i) = Some w" "pp_read_refs (pipe_at s i) = 1"
    show "st (procs (pipe_release_read i s)) w = PROCESS_READY"
      using h assms len by (simp add: pipe_release_read_def Let_def pipe_at_set_pipe wake_writer_def
          free_if_unreferenced_def proc_upd_proc)
    show "fst (pipe_write_round i buf m (pipe_release_read i s)) = WriteErr"
      using h assms(2) at_r by (simp add: pipe_write_round_def released_read_def)
    show "pp_used (pipe_at (pipe_release_read i s) i) \<longleftrightarrow> pp_used (pipe_at s i) \<and> pp_write_refs (pipe_at s i) \<noteq> 0"
      using h at_r by (auto simp: released_read_def)
  }
qed

theorem pipe_last_release_witness:
  "let s = (boot_pipes ((boot_kproc 0)\<lparr>process_table := table_of [zero_process\<lparr>p_state := PROCESS_BLOCKED\<rparr>]\<rparr>))
             \<lparr>pipe_table := replicate PIPE_MAX (zero_pipe\<lparr>pp_used := True, pp_read_refs := 1, pp_write_refs := 1,
                pp_read_waiter := Some 0\<rparr>)\<rparr>
   in st (procs (pipe_release_write 2 s)) 0 = PROCESS_READY"
proof -
  let ?s = "(boot_pipes ((boot_kproc 0)\<lparr>process_table := table_of [zero_process\<lparr>p_state := PROCESS_BLOCKED\<rparr>]\<rparr>))
             \<lparr>pipe_table := replicate PIPE_MAX (zero_pipe\<lparr>pp_used := True, pp_read_refs := 1, pp_write_refs := 1,
                pp_read_waiter := Some 0\<rparr>)\<rparr>"
  have "pipes_inv ?s"
    by (simp add: pipes_inv_def pipe_ok_def pipe_wf_def waiter_ok_def zero_pipe_def PIPE_BUF_SIZE_def)
  then show ?thesis
    using pipe_last_release[of ?s 2 0 0 "[]" 0] by (simp add: boot_pipes_def table_of_def PIPE_MAX_def PROCESS_MAX_def)
qed

end
