(* ===== verification/Bootcfg.thy ===== *)
theory Bootcfg
  imports Prelude
begin

text \<open>
  The boot configuration sector (kernel/bootcfg.c): a key=value text store in one 512-byte buffer.
  A buffer is a list of bytes; a C string argument is the list of its characters without the
  terminating NUL; \<open>int\<close> results are integers. The loops over buffer indices are recursive
  functions with the same guards.
\<close>

section \<open>The text store on an explicit buffer\<close>

definition SECTOR_SIZE :: nat where "SECTOR_SIZE = 512"
definition KEY_MAX :: nat where "KEY_MAX = 31"

definition bytes :: "string \<Rightarrow> u8 list" where
  "bytes s = map of_char s"

definition NL :: u8 where "NL = 10"
definition EQ :: u8 where "EQ = 61"

text \<open>\<open>"# nullos-config v1\<close> and a newline.\<close>

definition MAGIC :: "u8 list" where
  "MAGIC = [35, 32, 110, 117, 108, 108, 111, 115, 45, 99, 111, 110, 102, 105, 103, 32, 118, 49, 10]"

definition MAGIC_LEN :: nat where "MAGIC_LEN = 19"

primrec put_bytes :: "nat \<Rightarrow> u8 list \<Rightarrow> u8 list \<Rightarrow> u8 list" where
  "put_bytes at [] buf = buf"
| "put_bytes at (x # xs) buf = put_bytes (Suc at) xs (buf[at := x])"

definition cfg_reset :: "u8 list" where
  "cfg_reset = put_bytes 0 MAGIC (replicate SECTOR_SIZE 0)"

definition has_magic :: "u8 list \<Rightarrow> bool" where
  "has_magic buf = (\<forall>i < MAGIC_LEN. buf ! i = MAGIC ! i)"

definition key_char :: "u8 \<Rightarrow> bool" where
  "key_char c \<longleftrightarrow> (c \<ge> 97 \<and> c \<le> 122) \<or> (c \<ge> 48 \<and> c \<le> 57) \<or> c = 95"

definition key_valid :: "u8 list \<Rightarrow> bool" where
  "key_valid key \<longleftrightarrow> length key \<noteq> 0 \<and> length key \<le> KEY_MAX \<and> list_all key_char key"

function line_end :: "u8 list \<Rightarrow> nat \<Rightarrow> nat" where
  "line_end cfg i =
     (if i < SECTOR_SIZE \<and> cfg ! i \<noteq> 0 \<and> cfg ! i \<noteq> NL then line_end cfg (Suc i) else i)"
  by pat_completeness auto
termination by (relation "measure (\<lambda>(cfg, i). SECTOR_SIZE - i)") auto

declare line_end.simps [simp del]

lemma line_end_ge: "i \<le> line_end cfg i"
proof (induction cfg i rule: line_end.induct)
  case (1 cfg i)
  then show ?case by (cases "i < SECTOR_SIZE \<and> cfg ! i \<noteq> 0 \<and> cfg ! i \<noteq> NL")
      (auto simp: line_end.simps[of cfg i] dest: Suc_leD)
qed

function find_key_from :: "u8 list \<Rightarrow> u8 list \<Rightarrow> nat \<Rightarrow> (nat \<times> nat \<times> nat) option" where
  "find_key_from cfg key i =
     (if i < SECTOR_SIZE \<and> cfg ! i \<noteq> 0 then
        (let ls = i; le = line_end cfg i in
         if le - ls > length key \<and> cfg ! (ls + length key) = EQ \<and> take (length key) (drop ls cfg) = key
         then Some (ls, ls + length key + 1, le)
         else find_key_from cfg key (if le < SECTOR_SIZE \<and> cfg ! le = NL then Suc le else le))
      else None)"
  by pat_completeness auto
termination
proof (relation "measure (\<lambda>(cfg, key, i). SECTOR_SIZE - i)", goal_cases)
  case (2 cfg key i ls le)
  have "i \<le> line_end cfg i" by (rule line_end_ge)
  moreover have "cfg ! line_end cfg i = NL" if "line_end cfg i = i"
    using that 2(1) line_end_ge[of "Suc i" cfg] by (auto simp: line_end.simps[of cfg i] split: if_splits)
  ultimately show ?case using 2 by (cases "line_end cfg i = i") auto
qed simp

text \<open>The result is the start of the line, the start of the value and the end of the line.\<close>

definition find_key :: "u8 list \<Rightarrow> u8 list \<Rightarrow> (nat \<times> nat \<times> nat) option" where
  "find_key cfg key = find_key_from cfg key MAGIC_LEN"

function used_from :: "u8 list \<Rightarrow> nat \<Rightarrow> nat" where
  "used_from cfg n = (if n < SECTOR_SIZE \<and> cfg ! n \<noteq> 0 then used_from cfg (Suc n) else n)"
  by pat_completeness auto
termination by (relation "measure (\<lambda>(cfg, n). SECTOR_SIZE - n)") auto

definition cfg_used :: "u8 list \<Rightarrow> nat" where
  "cfg_used cfg = used_from cfg MAGIC_LEN"

definition bootcfg_buf_init :: "u8 list" where "bootcfg_buf_init = cfg_reset"

definition bootcfg_buf_valid :: "u8 list \<Rightarrow> bool" where "bootcfg_buf_valid buf = has_magic buf"

text \<open>\<open>None\<close> is the return value -1; otherwise the characters copied to \<open>out\<close>, without the NUL.\<close>

definition bootcfg_buf_get :: "u8 list \<Rightarrow> u8 list \<Rightarrow> nat \<Rightarrow> u8 list option" where
  "bootcfg_buf_get buf key maxlen =
     (if maxlen = 0 \<or> \<not> key_valid key then None
      else case find_key buf key of
        None \<Rightarrow> None
      | Some (ls, vs, le) \<Rightarrow> Some (take (min (le - vs) (maxlen - 1)) (drop vs buf)))"

text \<open>Removing the line from \<open>ls\<close> to \<open>tail\<close>: copy the bytes above \<open>tail\<close> down, then clear the rest.\<close>

definition shift_down :: "nat \<Rightarrow> nat \<Rightarrow> u8 list \<Rightarrow> u8 list" where
  "shift_down ls tail buf =
     fold (\<lambda>i b. b[ls + i := 0]) [SECTOR_SIZE - tail ..< SECTOR_SIZE - ls]
       (fold (\<lambda>i b. b[ls + i := b ! (tail + i)]) [0 ..< SECTOR_SIZE - tail] buf)"

definition line_len :: "u8 list \<Rightarrow> nat \<Rightarrow> nat \<Rightarrow> nat" where
  "line_len buf ls le = (le - ls) + (if buf ! le = NL then 1 else 0)"

definition bootcfg_buf_set :: "u8 list \<Rightarrow> u8 list \<Rightarrow> u8 list \<Rightarrow> int \<times> u8 list" where
  "bootcfg_buf_set buf key value =
     (if \<not> key_valid key then (-1, buf)
      else if NL \<in> set value then (-1, buf)
      else
        let have = find_key buf key;
            old_len = (case have of None \<Rightarrow> 0 | Some (ls, vs, le) \<Rightarrow> line_len buf ls le);
            new_len = length key + 1 + length value + 1
        in if int (cfg_used buf) - int old_len + int new_len > int SECTOR_SIZE - 1 then (-1, buf)
           else
             let buf1 = (case have of None \<Rightarrow> buf | Some (ls, vs, le) \<Rightarrow> shift_down ls (ls + old_len) buf)
             in (0, put_bytes (cfg_used buf1) (key @ [EQ] @ value @ [NL] @ [0]) buf1))"

definition bootcfg_buf_remove :: "u8 list \<Rightarrow> u8 list \<Rightarrow> int \<times> u8 list" where
  "bootcfg_buf_remove buf key =
     (if \<not> key_valid key then (-1, buf)
      else case find_key buf key of
        None \<Rightarrow> (0, buf)
      | Some (ls, vs, le) \<Rightarrow> (1, shift_down ls (ls + line_len buf ls le) buf))"

section \<open>Numbers\<close>

definition digit_val :: "nat \<Rightarrow> u8 \<Rightarrow> u32 option" where
  "digit_val bas c =
     (if c \<ge> 48 \<and> c \<le> 57 then Some (ucast (c - 48))
      else if bas = 16 \<and> c \<ge> 97 \<and> c \<le> 102 then Some (ucast (c - 97 + 10))
      else if bas = 16 \<and> c \<ge> 65 \<and> c \<le> 70 then Some (ucast (c - 65 + 10))
      else None)"

fun parse_digits :: "nat \<Rightarrow> u8 list \<Rightarrow> u32 \<Rightarrow> u32 option" where
  "parse_digits bas [] r = Some r"
| "parse_digits bas (c # cs) r =
     (case digit_val bas c of
        None \<Rightarrow> None
      | Some d \<Rightarrow> if r > (0xFFFFFFFF - d) div of_nat bas then None
                  else parse_digits bas cs (r * of_nat bas + d))"

definition parse_u32 :: "u8 list \<Rightarrow> u32 \<Rightarrow> u32" where
  "parse_u32 v def =
     (case (if length v > 2 \<and> v ! 0 = 48 \<and> (v ! 1 = 120 \<or> v ! 1 = 88)
            then parse_digits 16 (drop 2 v) 0 else parse_digits 10 v 0) of
        None \<Rightarrow> def | Some r \<Rightarrow> r)"

definition bootcfg_buf_get_u32 :: "u8 list \<Rightarrow> u8 list \<Rightarrow> u32 \<Rightarrow> u32" where
  "bootcfg_buf_get_u32 buf key def =
     (case bootcfg_buf_get buf key 16 of
        None \<Rightarrow> def
      | Some v \<Rightarrow> if v = [] then def else parse_u32 v def)"

text \<open>The digit loop of \<open>fmt_u32\<close> fills \<open>tmp\<close> from its end, so each digit goes in front.\<close>

definition digit_char :: "u32 \<Rightarrow> u8" where
  "digit_char d = ucast (if d < 10 then 48 + d else 97 + (d - 10))"

function fmt_digits :: "u32 \<Rightarrow> bool \<Rightarrow> u8 list \<Rightarrow> u8 list" where
  "fmt_digits value hex acc =
     (if value = 0 then acc
      else fmt_digits (if hex then drop_bit 4 value else value div 10) hex
             (digit_char (if hex then value AND 0xF else value mod 10) # acc))"
  by pat_completeness auto
termination
proof (relation "measure (\<lambda>(v, hex, acc). unat v)", goal_cases)
  case (2 v hex acc)
  then have "unat v \<noteq> 0" by (simp add: unat_eq_zero)
  then show ?case by (simp add: unat_drop_bit_eq drop_bit_eq_div unat_div)
qed simp

definition fmt_u32 :: "u32 \<Rightarrow> bool \<Rightarrow> u8 list" where
  "fmt_u32 value hex =
     (if hex then [48, 120] else []) @ (if value = 0 then [48] else fmt_digits value hex [])"

definition bootcfg_buf_set_u32 :: "u8 list \<Rightarrow> u8 list \<Rightarrow> u32 \<Rightarrow> int \<times> u8 list" where
  "bootcfg_buf_set_u32 buf key value = bootcfg_buf_set buf key (fmt_u32 value False)"

definition bootcfg_buf_set_hex32 :: "u8 list \<Rightarrow> u8 list \<Rightarrow> u32 \<Rightarrow> int \<times> u8 list" where
  "bootcfg_buf_set_hex32 buf key value = bootcfg_buf_set buf key (fmt_u32 value True)"

declare find_key_from.simps [simp del] used_from.simps [simp del] fmt_digits.simps [simp del]

section \<open>Buffer primitives in closed form\<close>

lemma put_bytes_closed:
  "at + length xs \<le> length buf \<Longrightarrow> put_bytes at xs buf = take at buf @ xs @ drop (at + length xs) buf"
proof (induction xs arbitrary: at buf)
  case (Cons x xs)
  then have "put_bytes at (x # xs) buf = take (Suc at) (buf[at := x]) @ xs @ drop (Suc at + length xs) (buf[at := x])"
    by simp
  moreover have "take (Suc at) (buf[at := x]) = take at buf @ [x]"
    using Cons.prems by (simp add: take_Suc_conv_app_nth)
  ultimately show ?case by simp
qed simp

lemma length_put_bytes [simp]: "length (put_bytes at xs buf) = length buf"
  by (induction xs arbitrary: at buf) simp_all

lemma copy_down_closed:
  assumes "ls \<le> tail" "tail + n \<le> length buf"
  shows "fold (\<lambda>i b. b[ls + i := b ! (tail + i)]) [0 ..< n] buf
     = take ls buf @ take n (drop tail buf) @ drop (ls + n) buf"
  using assms(2)
proof (induction n)
  case (Suc n)
  let ?b = "take ls buf @ take n (drop tail buf) @ drop (ls + n) buf"
  have len: "length (take ls buf @ take n (drop tail buf)) = ls + n"
    using Suc.prems assms(1) by simp
  have nth: "?b ! (tail + n) = buf ! (tail + n)"
    using len Suc.prems assms(1) nth_append[of "take ls buf @ take n (drop tail buf)" "drop (ls + n) buf" "tail + n"]
    by (simp add: nth_drop add.commute)
  have "drop (ls + n) buf = buf ! (ls + n) # drop (Suc (ls + n)) buf"
    using Suc.prems assms(1) by (simp add: Cons_nth_drop_Suc)
  then have "?b[ls + n := y] = take ls buf @ take n (drop tail buf) @ y # drop (Suc (ls + n)) buf" for y
    using len list_update_append[of "take ls buf @ take n (drop tail buf)" "drop (ls + n) buf" "ls + n" y] by simp
  moreover have "take (Suc n) (drop tail buf) = take n (drop tail buf) @ [buf ! (tail + n)]"
    using Suc.prems by (simp add: take_Suc_conv_app_nth)
  ultimately show ?case using Suc nth by simp
qed simp

lemma zero_fill_closed:
  fixes b :: "u8 list"
  assumes "a \<le> m" "ls + m \<le> length b"
  shows "fold (\<lambda>i b. b[ls + i := 0]) [a ..< m] b = take (ls + a) b @ replicate (m - a) 0 @ drop (ls + m) b"
  using assms
proof (induction "m - a" arbitrary: a b)
  case (Suc k)
  then have "[a ..< m] = a # [Suc a ..< m]" by (simp add: upt_conv_Cons)
  moreover have "fold (\<lambda>i b. b[ls + i := 0]) [Suc a ..< m] (b[ls + a := 0])
      = take (ls + Suc a) (b[ls + a := 0]) @ replicate (m - Suc a) 0 @ drop (ls + m) (b[ls + a := 0])"
    using Suc by simp
  moreover have "take (ls + Suc a) (b[ls + a := 0]) = take (ls + a) b @ [0]"
    using Suc by (simp add: take_Suc_conv_app_nth)
  moreover have "replicate (m - a) (0 :: u8) = 0 # replicate (m - Suc a) 0"
    using Suc(2) by (metis Suc_diff_Suc Suc.hyps(2) replicate_Suc zero_less_Suc zero_less_diff)
  ultimately show ?case using Suc by simp
qed simp

lemma shift_down_closed:
  assumes "ls \<le> tail" "tail \<le> SECTOR_SIZE" "length buf = SECTOR_SIZE"
  shows "shift_down ls tail buf = take ls buf @ drop tail buf @ replicate (tail - ls) 0"
proof -
  let ?b = "fold (\<lambda>i b. b[ls + i := b ! (tail + i)]) [0 ..< SECTOR_SIZE - tail] buf"
  have b: "?b = take ls buf @ drop tail buf @ drop (ls + (SECTOR_SIZE - tail)) buf"
    using assms copy_down_closed[of ls tail "SECTOR_SIZE - tail" buf] by simp
  have lenb: "length ?b = SECTOR_SIZE" using assms unfolding b by simp
  have "shift_down ls tail buf = take (ls + (SECTOR_SIZE - tail)) ?b
      @ replicate (SECTOR_SIZE - ls - (SECTOR_SIZE - tail)) 0 @ drop (ls + (SECTOR_SIZE - ls)) ?b"
    unfolding shift_down_def using assms lenb by (intro zero_fill_closed) auto
  moreover have "take (ls + (SECTOR_SIZE - tail)) ?b = take ls buf @ drop tail buf"
    unfolding b using assms by simp
  ultimately show ?thesis using assms lenb by simp
qed

section \<open>The store as a list of lines\<close>

definition text_of :: "u8 list list \<Rightarrow> u8 list" where
  "text_of ls = concat (map (\<lambda>l. l @ [NL]) ls)"

definition cfg_of :: "u8 list list \<Rightarrow> u8 list" where
  "cfg_of ls = MAGIC @ text_of ls @ replicate (SECTOR_SIZE - MAGIC_LEN - length (text_of ls)) 0"

definition line_ok :: "u8 list \<Rightarrow> bool" where
  "line_ok l \<longleftrightarrow> 0 \<notin> set l \<and> NL \<notin> set l"

definition lines_ok :: "u8 list list \<Rightarrow> bool" where
  "lines_ok ls \<longleftrightarrow> list_all line_ok ls \<and> MAGIC_LEN + length (text_of ls) < SECTOR_SIZE"

definition line_has :: "u8 list \<Rightarrow> u8 list \<Rightarrow> bool" where
  "line_has key l \<longleftrightarrow> length l > length key \<and> l ! length key = EQ \<and> take (length key) l = key"

fun find_lines :: "u8 list \<Rightarrow> u8 list list \<Rightarrow> nat \<Rightarrow> (nat \<times> nat \<times> nat) option" where
  "find_lines key [] p = None"
| "find_lines key (l # ls) p =
     (if line_has key l then Some (p, p + length key + 1, p + length l)
      else find_lines key ls (p + length l + 1))"

lemma text_of_simps [simp]:
  "text_of [] = []" "text_of (l # ls) = l @ [NL] @ text_of ls" "text_of (as @ bs) = text_of as @ text_of bs"
  by (simp_all add: text_of_def)

lemma length_MAGIC [simp]: "length MAGIC = MAGIC_LEN"
  by (simp add: MAGIC_def MAGIC_LEN_def)

lemma NL_EQ_nonzero [simp]: "NL \<noteq> 0" "EQ \<noteq> 0" "NL \<noteq> EQ" "EQ \<noteq> NL"
  by (simp_all add: NL_def EQ_def)

lemma length_cfg_of [simp]: "lines_ok ls \<Longrightarrow> length (cfg_of ls) = SECTOR_SIZE"
  by (simp add: cfg_of_def lines_ok_def)

lemma line_end_at:
  "line_ok l \<Longrightarrow> length pre + length l < SECTOR_SIZE \<Longrightarrow>
     line_end (pre @ l @ NL # rest) (length pre) = length pre + length l"
proof (induction l arbitrary: pre)
  case Nil
  then show ?case by (simp add: line_end.simps[of _ "length pre"])
next
  case (Cons c l)
  have "line_end (pre @ (c # l) @ NL # rest) (length pre) = line_end (pre @ (c # l) @ NL # rest) (Suc (length pre))"
    using Cons.prems by (auto simp: line_end.simps[of _ "length pre"] line_ok_def)
  also have "\<dots> = line_end ((pre @ [c]) @ l @ NL # rest) (length (pre @ [c]))" by simp
  also have "\<dots> = length (pre @ [c]) + length l"
    using Cons.prems by (intro Cons.IH) (auto simp: line_ok_def)
  finally show ?case by simp
qed

lemma nth_line:
  "length key < length l \<Longrightarrow> (pre @ l @ rest) ! (length pre + length key) = l ! length key"
  by (simp add: nth_append)

lemma find_key_from_lines:
  assumes "list_all line_ok ls" "length pre + length (text_of ls) < SECTOR_SIZE"
  shows "find_key_from (pre @ text_of ls @ 0 # rest) key (length pre) = find_lines key ls (length pre)"
  using assms
proof (induction ls arbitrary: pre)
  case Nil
  then show ?case by (simp add: find_key_from.simps[of _ key "length pre"])
next
  case (Cons l ls)
  let ?cfg = "pre @ text_of (l # ls) @ 0 # rest"
  have cfg: "?cfg = pre @ l @ NL # (text_of ls @ 0 # rest)" by simp
  have le: "line_end ?cfg (length pre) = length pre + length l"
    unfolding cfg using Cons.prems by (intro line_end_at) auto
  have first: "?cfg ! length pre \<noteq> 0"
    using Cons.prems by (cases l) (auto simp: line_ok_def)
  have nl: "?cfg ! (length pre + length l) = NL" by (simp add: nth_append)
  have tk: "take (length key) (drop (length pre) ?cfg) = take (length key) l" if "length key < length l"
    using that by simp
  have hit: "length pre + length l - length pre > length key \<and> ?cfg ! (length pre + length key) = EQ
      \<and> take (length key) (drop (length pre) ?cfg) = key \<longleftrightarrow> line_has key l"
    using tk nth_line[of key l pre "NL # text_of ls @ 0 # rest"] by (auto simp: line_has_def)
  have i: "length pre < SECTOR_SIZE" using Cons.prems by simp
  have step: "find_key_from ?cfg key (length pre) = (if line_has key l
      then Some (length pre, length pre + length key + 1, length pre + length l)
      else find_key_from ?cfg key (Suc (length pre + length l)))"
    using first i nl Cons.prems(2)
    by (subst find_key_from.simps) (simp only: Let_def le hit, simp)
  have "find_key_from ?cfg key (Suc (length pre + length l))
      = find_key_from ((pre @ l @ [NL]) @ text_of ls @ 0 # rest) key (length (pre @ l @ [NL]))" by simp
  also have "\<dots> = find_lines key ls (length (pre @ l @ [NL]))"
    using Cons.prems by (intro Cons.IH) auto
  finally show ?case unfolding step by simp
qed

lemma replicate_pos: "0 < n \<Longrightarrow> replicate n x = x # replicate (n - 1) x"
  by (cases n) simp_all

lemma cfg_of_zero:
  "lines_ok ls \<Longrightarrow> cfg_of ls = MAGIC @ text_of ls @ 0 # replicate (SECTOR_SIZE - MAGIC_LEN - length (text_of ls) - 1) 0"
  by (simp add: cfg_of_def lines_ok_def replicate_pos)

lemma find_key_cfg_of: "lines_ok ls \<Longrightarrow> find_key (cfg_of ls) key = find_lines key ls MAGIC_LEN"
  using find_key_from_lines[of ls MAGIC] by (simp add: find_key_def cfg_of_zero lines_ok_def)

lemma used_from_closed:
  "0 \<notin> set (drop n xs) \<Longrightarrow> n \<le> length xs \<Longrightarrow> length xs < SECTOR_SIZE \<Longrightarrow> used_from (xs @ 0 # rest) n = length xs"
proof (induction "length xs - n" arbitrary: n)
  case 0
  then have "n = length xs" by simp
  then show ?case by (simp add: used_from.simps[of _ "length xs"])
next
  case (Suc k)
  then have n: "n < length xs" by simp
  then have d: "drop n xs = xs ! n # drop (Suc n) xs" by (simp add: Cons_nth_drop_Suc)
  then have "xs ! n \<noteq> 0" "0 \<notin> set (drop (Suc n) xs)" using Suc.prems(1) by auto
  moreover have "used_from (xs @ 0 # rest) (Suc n) = length xs"
    using Suc(2) n Suc.prems(3) calculation(2) by (intro Suc(1)) auto
  ultimately show ?case using n Suc.prems(3) by (simp add: used_from.simps[of _ n] nth_append)
qed

lemma text_of_nonzero: "list_all line_ok ls \<Longrightarrow> 0 \<notin> set (text_of ls)"
  by (induction ls) (auto simp: line_ok_def)

lemma cfg_used_cfg_of: "lines_ok ls \<Longrightarrow> cfg_used (cfg_of ls) = MAGIC_LEN + length (text_of ls)"
  using used_from_closed[of MAGIC_LEN "MAGIC @ text_of ls"] text_of_nonzero[of ls]
  by (simp add: cfg_used_def cfg_of_zero lines_ok_def)

section \<open>Refinement of the operations\<close>

fun remove_line :: "u8 list \<Rightarrow> u8 list list \<Rightarrow> u8 list list" where
  "remove_line key [] = []"
| "remove_line key (l # ls) = (if line_has key l then ls else l # remove_line key ls)"

definition entry :: "u8 list \<Rightarrow> u8 list \<Rightarrow> u8 list" where
  "entry key v = key @ EQ # v"

text \<open>The value of a key: what follows the equals sign in the first line that has it.\<close>

fun lookup_lines :: "u8 list \<Rightarrow> u8 list list \<Rightarrow> u8 list option" where
  "lookup_lines key [] = None"
| "lookup_lines key (l # ls) = (if line_has key l then Some (drop (length key + 1) l) else lookup_lines key ls)"

lemma find_lines_split:
  "find_lines key ls p = Some (s, v, e) \<Longrightarrow>
     \<exists>as l bs. ls = as @ l # bs \<and> line_has key l \<and> s = p + length (text_of as) \<and> v = s + length key + 1
       \<and> e = s + length l \<and> remove_line key ls = as @ bs \<and> lookup_lines key ls = Some (drop (length key + 1) l)"
proof (induction ls arbitrary: p)
  case (Cons l ls)
  show ?case
  proof (cases "line_has key l")
    case True
    then show ?thesis using Cons.prems by (intro exI[of _ "[]"] exI[of _ l] exI[of _ ls]) auto
  next
    case False
    then have "find_lines key ls (p + length l + 1) = Some (s, v, e)" using Cons.prems by simp
    then obtain as m bs where "ls = as @ m # bs" "line_has key m" "s = p + length l + 1 + length (text_of as)"
        "v = s + length key + 1" "e = s + length m" "remove_line key ls = as @ bs"
        "lookup_lines key ls = Some (drop (length key + 1) m)"
      using Cons.IH by blast
    then show ?thesis using False by (intro exI[of _ "l # as"] exI[of _ m] exI[of _ bs]) auto
  qed
qed simp

lemma find_lines_None:
  "find_lines key ls p = None \<longleftrightarrow> lookup_lines key ls = None"
  by (induction ls arbitrary: p) auto

lemma remove_line_absent: "lookup_lines key ls = None \<Longrightarrow> remove_line key ls = ls"
  by (induction ls) (auto split: if_splits)

lemma line_has_entry [simp]: "line_has key (entry key v)"
  by (simp add: line_has_def entry_def)

lemma drop_entry [simp]: "drop (length key + 1) (entry key v) = v"
  by (simp add: entry_def)

text \<open>Two different keys without an equals sign never name the same line.\<close>

lemma key_valid_no_EQ: "key_valid key \<Longrightarrow> EQ \<notin> set key"
  by (auto simp: key_valid_def list_all_iff key_char_def EQ_def)

lemma line_has_unique:
  assumes "line_has k l" "line_has k' l" "EQ \<notin> set k" "EQ \<notin> set k'"
  shows "k = k'"
proof -
  have h: "l = k @ EQ # drop (length k + 1) l" if "line_has k l" for k
  proof -
    have "l = take (length k) l @ drop (length k) l" by simp
    also have "drop (length k) l = l ! length k # drop (length k + 1) l"
      using that Cons_nth_drop_Suc[of "length k" l] by (simp add: line_has_def)
    finally show ?thesis using that by (simp add: line_has_def)
  qed
  have tw: "takeWhile (\<lambda>c. c \<noteq> EQ) l = k" if "line_has k l" "EQ \<notin> set k" for k
    using h[OF that(1)] that(2) takeWhile_append2[of k "\<lambda>c. c \<noteq> EQ" "EQ # drop (length k + 1) l"] by auto
  show ?thesis using tw[OF assms(1,3)] tw[OF assms(2,4)] by simp
qed

text \<open>What a successful set and a remove do to the lines.\<close>

definition set_line :: "u8 list \<Rightarrow> u8 list \<Rightarrow> u8 list list \<Rightarrow> u8 list list" where
  "set_line key v ls = remove_line key ls @ [entry key v]"

lemma line_len_hit:
  assumes "lines_ok (as @ l # bs)"
  shows "line_len (cfg_of (as @ l # bs)) (MAGIC_LEN + length (text_of as)) (MAGIC_LEN + length (text_of as) + length l)
     = length l + 1"
proof -
  let ?pre = "MAGIC @ text_of as @ l"
  have "cfg_of (as @ l # bs) = ?pre @ NL # (text_of bs @ replicate (SECTOR_SIZE - MAGIC_LEN - length (text_of (as @ l # bs))) 0)"
    by (simp add: cfg_of_def)
  moreover have "length ?pre = MAGIC_LEN + length (text_of as) + length l" by simp
  ultimately have "cfg_of (as @ l # bs) ! (MAGIC_LEN + length (text_of as) + length l) = NL"
    by (metis nth_append_length)
  then show ?thesis by (simp add: line_len_def)
qed

lemma shift_down_cfg_of:
  assumes "lines_ok (as @ l # bs)"
  defines "s \<equiv> MAGIC_LEN + length (text_of as)"
  shows "shift_down s (s + (length l + 1)) (cfg_of (as @ l # bs)) = cfg_of (as @ bs)"
proof -
  let ?z = "SECTOR_SIZE - MAGIC_LEN - length (text_of (as @ l # bs))"
  have fit: "MAGIC_LEN + length (text_of as) + length l + 1 + length (text_of bs) < SECTOR_SIZE"
    using assms(1) by (simp add: lines_ok_def)
  have len: "length (cfg_of (as @ l # bs)) = SECTOR_SIZE" using assms(1) by simp
  have "shift_down s (s + (length l + 1)) (cfg_of (as @ l # bs))
      = take s (cfg_of (as @ l # bs)) @ drop (s + (length l + 1)) (cfg_of (as @ l # bs)) @ replicate (length l + 1) 0"
    using shift_down_closed[of s "s + (length l + 1)" "cfg_of (as @ l # bs)"] fit len by (simp add: s_def)
  moreover have "take s (cfg_of (as @ l # bs)) = MAGIC @ text_of as"
    by (simp add: cfg_of_def s_def)
  moreover have "drop (s + (length l + 1)) (cfg_of (as @ l # bs)) = text_of bs @ replicate ?z 0"
    by (simp add: cfg_of_def s_def)
  moreover have "replicate ?z (0 :: u8) @ replicate (length l + 1) 0 = replicate (SECTOR_SIZE - MAGIC_LEN - length (text_of (as @ bs))) 0"
  proof -
    have "?z + (length l + 1) = SECTOR_SIZE - MAGIC_LEN - length (text_of (as @ bs))" using fit by simp
    then show ?thesis by (metis replicate_add)
  qed
  moreover have "cfg_of (as @ bs) = MAGIC @ text_of as @ text_of bs
      @ replicate (SECTOR_SIZE - MAGIC_LEN - length (text_of (as @ bs))) 0"
    by (simp add: cfg_of_def)
  ultimately show ?thesis by (simp only: append_assoc)
qed

lemma append_cfg_of:
  assumes "lines_ok ls" "MAGIC_LEN + length (text_of ls) + length l + 1 < SECTOR_SIZE"
  shows "put_bytes (cfg_used (cfg_of ls)) (l @ [NL] @ [0]) (cfg_of ls) = cfg_of (ls @ [l])"
proof -
  let ?z = "SECTOR_SIZE - MAGIC_LEN - length (text_of ls)"
  let ?at = "MAGIC_LEN + length (text_of ls)"
  have "put_bytes ?at (l @ [NL] @ [0]) (cfg_of ls)
      = take ?at (cfg_of ls) @ (l @ [NL] @ [0]) @ drop (?at + length (l @ [NL] @ [0])) (cfg_of ls)"
    using assms by (intro put_bytes_closed) simp
  moreover have "take ?at (cfg_of ls) = MAGIC @ text_of ls" by (simp add: cfg_of_def)
  moreover have "drop (?at + length (l @ [NL] @ [0 :: u8])) (cfg_of ls) = replicate (?z - length l - 2) 0"
    by (simp add: cfg_of_def)
  moreover have "0 # replicate (?z - length l - 2) (0 :: u8) = replicate (?z - length l - 1) 0"
    using assms(2) replicate_pos[of "?z - length l - 1" "0 :: u8"] by (simp add: numeral_2_eq_2)
  moreover have "cfg_of (ls @ [l]) = MAGIC @ text_of ls @ l @ [NL] @ replicate (?z - length l - 1) 0"
    by (simp add: cfg_of_def)
  ultimately show ?thesis using assms(1) by (simp add: cfg_used_cfg_of)
qed

lemma remove_line_ok:
  "lines_ok ls \<Longrightarrow> lines_ok (remove_line key ls)"
  "length (text_of (remove_line key ls)) \<le> length (text_of ls)"
proof -
  show le: "length (text_of (remove_line key ls)) \<le> length (text_of ls)" for ls by (induction ls) auto
  have "list_all line_ok ls \<Longrightarrow> list_all line_ok (remove_line key ls)" by (induction ls) auto
  then show "lines_ok ls \<Longrightarrow> lines_ok (remove_line key ls)"
    using le[of ls] by (auto simp: lines_ok_def)
qed

lemma remove_refines:
  assumes "lines_ok ls" "key_valid key"
  shows "bootcfg_buf_remove (cfg_of ls) key =
     (if lookup_lines key ls = None then 0 else 1, cfg_of (remove_line key ls))"
proof (cases "find_lines key ls MAGIC_LEN")
  case None
  then have "lookup_lines key ls = None" by (simp add: find_lines_None)
  then show ?thesis using assms None
    by (simp add: bootcfg_buf_remove_def find_key_cfg_of remove_line_absent)
next
  case (Some r)
  obtain s v e where r: "find_lines key ls MAGIC_LEN = Some (s, v, e)" using Some by (cases r) auto
  obtain as l bs where x: "ls = as @ l # bs" "s = MAGIC_LEN + length (text_of as)" "e = s + length l"
      "remove_line key ls = as @ bs" "lookup_lines key ls \<noteq> None"
    using find_lines_split[OF r] by auto
  show ?thesis
    using assms r x line_len_hit[of as l bs] shift_down_cfg_of[of as l bs]
    by (simp add: bootcfg_buf_remove_def find_key_cfg_of)
qed

lemma set_refines:
  assumes "lines_ok ls" "key_valid key" "NL \<notin> set v" "0 \<notin> set v"
  shows "bootcfg_buf_set (cfg_of ls) key v =
     (if MAGIC_LEN + length (text_of (set_line key v ls)) < SECTOR_SIZE
      then (0, cfg_of (set_line key v ls)) else (-1, cfg_of ls))"
proof -
  let ?ls' = "remove_line key ls"
  define old_len where "old_len = (case find_key (cfg_of ls) key of None \<Rightarrow> 0
      | Some (s, vs, le) \<Rightarrow> line_len (cfg_of ls) s le)"
  define buf1 where "buf1 = (case find_key (cfg_of ls) key of None \<Rightarrow> cfg_of ls
      | Some (s, vs, le) \<Rightarrow> shift_down s (s + old_len) (cfg_of ls))"
  have old: "buf1 = cfg_of ?ls' \<and> length (text_of ls) = length (text_of ?ls') + old_len"
  proof (cases "find_lines key ls MAGIC_LEN")
    case None
    then have "remove_line key ls = ls" using find_lines_None remove_line_absent by metis
    then show ?thesis using None assms(1) by (simp add: buf1_def old_len_def find_key_cfg_of)
  next
    case (Some r)
    obtain s vs e where r: "find_lines key ls MAGIC_LEN = Some (s, vs, e)" using Some by (cases r) auto
    obtain as l bs where x: "ls = as @ l # bs" "s = MAGIC_LEN + length (text_of as)" "e = s + length l"
        "remove_line key ls = as @ bs"
      using find_lines_split[OF r] by auto
    have ol: "old_len = length l + 1"
      using assms(1) r x line_len_hit[of as l bs] by (simp add: old_len_def find_key_cfg_of)
    then show ?thesis
      using assms(1) r x shift_down_cfg_of[of as l bs] by (simp add: buf1_def find_key_cfg_of)
  qed
  have ok': "lines_ok ?ls'" using remove_line_ok(1)[OF assms(1)] .
  have size: "int (cfg_used (cfg_of ls)) - int old_len + int (length key + 1 + length v + 1)
      = int (MAGIC_LEN + length (text_of (set_line key v ls)))"
    using old assms(1) by (simp add: cfg_used_cfg_of set_line_def entry_def)
  have app: "put_bytes (cfg_used (cfg_of ?ls')) (key @ [EQ] @ v @ [NL] @ [0]) (cfg_of ?ls') = cfg_of (set_line key v ls)"
    if "MAGIC_LEN + length (text_of (set_line key v ls)) < SECTOR_SIZE"
    using append_cfg_of[OF ok', of "entry key v"] that by (simp add: set_line_def entry_def)
  have "bootcfg_buf_set (cfg_of ls) key v =
     (if int (MAGIC_LEN + length (text_of (set_line key v ls))) > int SECTOR_SIZE - 1 then (-1, cfg_of ls)
      else (0, put_bytes (cfg_used buf1) (key @ [EQ] @ v @ [NL] @ [0]) buf1))"
    using assms(2,3) size unfolding bootcfg_buf_set_def Let_def old_len_def[symmetric] buf1_def[symmetric]
    by simp
  then show ?thesis using old app by (auto simp: not_less)
qed

lemma lines_ok_set:
  assumes "lines_ok ls" "key_valid key" "NL \<notin> set v" "0 \<notin> set v"
    "MAGIC_LEN + length (text_of (set_line key v ls)) < SECTOR_SIZE"
  shows "lines_ok (set_line key v ls)"
proof -
  have "line_ok key"
    using assms(2) by (auto simp: key_valid_def list_all_iff key_char_def line_ok_def NL_def)
  then have "line_ok (entry key v)" using assms(3,4) by (auto simp: line_ok_def entry_def)
  then show ?thesis
    using remove_line_ok(1)[OF assms(1), of key] assms(5) by (simp add: lines_ok_def set_line_def)
qed

lemma get_refines:
  assumes "lines_ok ls" "key_valid key" "0 < n"
  shows "bootcfg_buf_get (cfg_of ls) key n = map_option (take (n - 1)) (lookup_lines key ls)"
proof (cases "find_lines key ls MAGIC_LEN")
  case None
  then have "lookup_lines key ls = None" by (simp add: find_lines_None)
  then show ?thesis using assms None by (simp add: bootcfg_buf_get_def find_key_cfg_of)
next
  case (Some r)
  obtain s vs e where r: "find_lines key ls MAGIC_LEN = Some (s, vs, e)" using Some by (cases r) auto
  obtain as l bs where x: "ls = as @ l # bs" "s = MAGIC_LEN + length (text_of as)" "e = s + length l"
      "vs = s + length key + 1" "lookup_lines key ls = Some (drop (length key + 1) l)" "line_has key l"
    using find_lines_split[OF r] by auto
  have "drop vs (cfg_of ls) = drop (length key + 1) l @ NL # text_of bs
      @ replicate (SECTOR_SIZE - MAGIC_LEN - length (text_of ls)) 0"
    using x(6) by (simp add: x(1,2,4) cfg_of_def line_has_def)
  moreover have "e - vs = length (drop (length key + 1) l)" using x by simp
  ultimately have "take (min (e - vs) (n - 1)) (drop vs (cfg_of ls)) = take (n - 1) (drop (length key + 1) l)"
    by (simp add: min_def)
  then show ?thesis using assms r x(5) by (simp add: bootcfg_buf_get_def find_key_cfg_of)
qed

text \<open>A store in which no key occurs twice keeps that property, and there a set is an update of
  the lookup function.\<close>

fun keys_unique :: "u8 list list \<Rightarrow> bool" where
  "keys_unique [] = True"
| "keys_unique (l # ls) = (keys_unique ls \<and> (\<forall>key. key_valid key \<longrightarrow> line_has key l \<longrightarrow> lookup_lines key ls = None))"

lemma lookup_append:
  "lookup_lines k (as @ bs) = (case lookup_lines k as of None \<Rightarrow> lookup_lines k bs | Some v \<Rightarrow> Some v)"
  by (induction as) auto

lemma lookup_remove_same:
  "keys_unique ls \<Longrightarrow> key_valid key \<Longrightarrow> lookup_lines key (remove_line key ls) = None"
  by (induction ls) auto

lemma lookup_remove_other:
  assumes "key_valid key" "key_valid k" "k \<noteq> key"
  shows "lookup_lines k (remove_line key ls) = lookup_lines k ls"
proof (induction ls)
  case (Cons l ls)
  have "\<not> (line_has key l \<and> line_has k l)"
    using line_has_unique[of key l k] key_valid_no_EQ assms by blast
  then show ?case using Cons by auto
qed simp

lemma keys_unique_remove: "keys_unique ls \<Longrightarrow> keys_unique (remove_line key ls)"
proof (induction ls)
  case (Cons l ls)
  have "lookup_lines k (remove_line key ls) = None" if "lookup_lines k ls = None" for k
    using that by (induction ls) (auto split: if_splits)
  then show ?case using Cons by auto
qed simp

lemma keys_unique_append:
  assumes "keys_unique ls" "key_valid key" "lookup_lines key ls = None"
  shows "keys_unique (ls @ [entry key v])"
  using assms(1,3)
proof (induction ls)
  case (Cons l ls)
  have "lookup_lines k (ls @ [entry key v]) = None" if k: "key_valid k" "line_has k l" for k
  proof -
    have "k \<noteq> key" using Cons.prems(2) k(2) by auto
    moreover have "lookup_lines k ls = None" using Cons.prems(1) k by simp
    ultimately show ?thesis
      using line_has_unique[of k "entry key v" key] key_valid_no_EQ k(1) assms(2)
      by (auto simp: lookup_append)
  qed
  then show ?case using Cons by (auto split: if_splits)
qed simp

lemma lookup_set_line:
  assumes "keys_unique ls" "key_valid key" "key_valid k"
  shows "lookup_lines k (set_line key v ls) = (if k = key then Some v else lookup_lines k ls)"
    "keys_unique (set_line key v ls)"
proof -
  have none: "lookup_lines key (remove_line key ls) = None"
    using lookup_remove_same assms(1,2) by blast
  show "lookup_lines k (set_line key v ls) = (if k = key then Some v else lookup_lines k ls)"
  proof (cases "k = key")
    case True
    then show ?thesis using none drop_entry[of key v] by (simp add: set_line_def lookup_append)
  next
    case False
    have "\<not> line_has k (entry key v)"
      using line_has_unique[of k "entry key v" key] key_valid_no_EQ assms(2,3) False by auto
    then show ?thesis
      using False lookup_remove_other[OF assms(2,3) False]
      by (simp add: set_line_def lookup_append split: option.splits)
  qed
  show "keys_unique (set_line key v ls)"
    unfolding set_line_def by (rule keys_unique_append[OF keys_unique_remove[OF assms(1)] assms(2) none])
qed

section \<open>Numbers survive formatting and parsing\<close>

lemma digit_round_trip_nat:
  "\<forall>n \<in> set [0 ..< 16]. digit_val 16 (digit_char (of_nat n)) = Some (of_nat n)
     \<and> digit_char (of_nat n) \<noteq> 0 \<and> digit_char (of_nat n) \<noteq> NL"
  by (simp add: upt_rec digit_val_def digit_char_def NL_def)

lemma digit_round_trip_dec_nat:
  "\<forall>n \<in> set [0 ..< 10]. digit_val 10 (digit_char (of_nat n)) = Some (of_nat n)
     \<and> digit_char (of_nat n) \<noteq> 120 \<and> digit_char (of_nat n) \<noteq> 88"
  by (simp add: upt_rec digit_val_def digit_char_def)

lemma digit_round_trip:
  "d < 16 \<Longrightarrow> digit_val 16 (digit_char d) = Some d" "d < 16 \<Longrightarrow> digit_char d \<noteq> 0 \<and> digit_char d \<noteq> NL"
  "d < 10 \<Longrightarrow> digit_val 10 (digit_char d) = Some d" "d < 10 \<Longrightarrow> digit_char d \<noteq> 120 \<and> digit_char d \<noteq> 88"
  using digit_round_trip_nat[THEN bspec, of "unat d"] digit_round_trip_dec_nat[THEN bspec, of "unat d"]
  by (simp_all add: word_less_nat_alt)

lemma fmt_digits_0 [simp]: "fmt_digits 0 hex acc = acc"
  by (simp add: fmt_digits.simps[of 0 hex acc])

text \<open>One step of the formatter's loop, for the base \<open>b\<close> it uses.\<close>

definition fmt_base :: "bool \<Rightarrow> nat" where "fmt_base hex = (if hex then 16 else 10)"

lemma fmt_step:
  fixes v :: u32
  assumes "v \<noteq> 0"
  shows "fmt_digits v hex acc = fmt_digits (v div of_nat (fmt_base hex)) hex (digit_char (v mod of_nat (fmt_base hex)) # acc)"
proof -
  have "drop_bit 4 v = v div 16" by (simp add: drop_bit_eq_div)
  moreover have "v AND 0xF = v mod 16"
    using take_bit_eq_mask[of 4 v] by (simp add: take_bit_eq_mod mask_eq_exp_minus_1)
  ultimately show ?thesis using assms by (simp add: fmt_digits.simps[of v hex acc] fmt_base_def)
qed

lemma fmt_base_word:
  "unat (of_nat (fmt_base hex) :: u32) = fmt_base hex" "(of_nat (fmt_base hex) :: u32) \<noteq> 0"
  "unat (v mod of_nat (fmt_base hex) :: u32) < fmt_base hex"
  by (simp_all add: fmt_base_def unat_mod)

lemma parse_fmt_digits:
  "parse_digits (fmt_base hex) (fmt_digits v hex acc) 0 = parse_digits (fmt_base hex) acc v"
proof (induction v hex acc rule: fmt_digits.induct)
  case (1 v hex acc)
  show ?case
  proof (cases "v = 0")
    case True
    then show ?thesis by (simp add: fmt_digits.simps[of v hex acc])
  next
    case False
    let ?b = "of_nat (fmt_base hex) :: u32"
    let ?d = "v mod ?b"
    have "drop_bit 4 v = v div 16" "v AND 0xF = v mod 16"
      using take_bit_eq_mask[of 4 v]
      by (simp_all add: drop_bit_eq_div take_bit_eq_mod mask_eq_exp_minus_1)
    then have args: "(if hex then drop_bit 4 v else v div 10) = v div ?b"
        "(if hex then v AND 0xF else v mod 10) = v mod ?b"
      by (simp_all add: fmt_base_def)
    have ih: "parse_digits (fmt_base hex) (fmt_digits (v div ?b) hex (digit_char ?d # acc)) 0
        = parse_digits (fmt_base hex) (digit_char ?d # acc) (v div ?b)"
      using "1.IH"[OF False] unfolding args .
    have dv: "digit_val (fmt_base hex) (digit_char ?d) = Some ?d"
      using digit_round_trip(1)[of ?d] digit_round_trip(3)[of ?d] fmt_base_word(3)[of v hex]
      by (simp add: fmt_base_def word_less_nat_alt split: if_splits)
    have whole: "v div ?b * ?b + ?d = v" by (simp add: div_mult_mod_eq)
    have "unat v = unat (v div ?b) * fmt_base hex + unat ?d"
      using fmt_base_word(1)[of hex] by (simp add: unat_div unat_mod)
    then have "unat (v div ?b) * fmt_base hex \<le> 0xFFFFFFFF - unat ?d"
      using unat_u32[of v] by linarith
    then have "unat (v div ?b) \<le> (0xFFFFFFFF - unat ?d) div fmt_base hex"
      by (simp add: fmt_base_def less_eq_div_iff_mult_less_eq split: if_splits)
    moreover have "unat ((0xFFFFFFFF - ?d) div ?b) = (0xFFFFFFFF - unat ?d) div fmt_base hex"
    proof -
      have "unat (0xFFFFFFFF - ?d) = 0xFFFFFFFF - unat ?d"
        using unat_u32[of ?d] by (subst unat_sub) (simp_all add: word_le_nat_alt)
      then show ?thesis using fmt_base_word(1)[of hex] by (simp add: unat_div)
    qed
    ultimately have "\<not> v div ?b > (0xFFFFFFFF - ?d) div ?b" by (simp add: word_less_nat_alt)
    then show ?thesis
      unfolding fmt_step[OF False] ih using dv whole by simp
  qed
qed

lemma fmt_digits_chars:
  "(\<And>c. c \<in> set acc \<Longrightarrow> P c) \<Longrightarrow> (\<And>d. unat d < fmt_base hex \<Longrightarrow> P (digit_char d)) \<Longrightarrow> list_all P (fmt_digits v hex acc)"
proof (induction v hex acc rule: fmt_digits.induct)
  case (1 v hex acc)
  show ?case
  proof (cases "v = 0")
    case True
    then show ?thesis using 1 by (simp add: fmt_digits.simps[of v hex acc] list_all_iff)
  next
    case False
    have "list_all P (fmt_digits (if hex then drop_bit 4 v else v div 10) hex
             (digit_char (if hex then v AND 0xF else v mod 10) # acc))"
    proof (rule "1.IH"[OF False])
      fix c assume "c \<in> set (digit_char (if hex then v AND 0xF else v mod 10) # acc)"
      moreover have "v AND 0xF = v mod 16"
        using take_bit_eq_mask[of 4 v] by (simp add: take_bit_eq_mod mask_eq_exp_minus_1)
      then have "P (digit_char (if hex then v AND 0xF else v mod 10))"
        using "1.prems"(2)[of "v mod of_nat (fmt_base hex)"] fmt_base_word(3)[of v hex]
        by (simp add: fmt_base_def split: if_splits)
      ultimately show "P c" using "1.prems"(1) by auto
    qed (use "1.prems"(2) in blast)
    then show ?thesis using False by (simp add: fmt_digits.simps[of v hex acc])
  qed
qed

lemma fmt_digits_length:
  "unat v < fmt_base hex ^ n \<Longrightarrow> length (fmt_digits v hex acc) \<le> n + length acc"
proof (induction n arbitrary: v acc)
  case 0
  then have "v = 0" by (simp add: unat_eq_zero)
  then show ?case by (simp add: fmt_digits.simps[of v hex acc])
next
  case (Suc n)
  show ?case
  proof (cases "v = 0")
    case True
    then show ?thesis by (simp add: fmt_digits.simps[of v hex acc])
  next
    case False
    have "unat (v div of_nat (fmt_base hex)) < fmt_base hex ^ n"
      using Suc.prems fmt_base_word(1)[of hex]
      by (simp add: unat_div less_mult_imp_div_less mult.commute)
    from Suc.IH[OF this, of "digit_char (v mod of_nat (fmt_base hex)) # acc"] show ?thesis
      unfolding fmt_step[OF False] by simp
  qed
qed

lemma fmt_digits_nonempty: "v \<noteq> 0 \<or> acc \<noteq> [] \<Longrightarrow> fmt_digits v hex acc \<noteq> []"
proof (induction v hex acc rule: fmt_digits.induct)
  case (1 v hex acc)
  then show ?case by (cases "v = 0") (auto simp: fmt_digits.simps[of v hex acc])
qed

lemma fmt_u32_props:
  "length (fmt_u32 v hex) \<le> 10" "fmt_u32 v hex \<noteq> []" "NL \<notin> set (fmt_u32 v hex)" "0 \<notin> set (fmt_u32 v hex)"
proof -
  have lt: "unat v < 2 ^ 32" using unsigned_less[of v] by simp
  have "length (fmt_digits v hex []) \<le> (if hex then 8 else 10)"
    using fmt_digits_length[of v hex "if hex then 8 else 10" "[]"] lt by (simp add: fmt_base_def split: if_splits)
  then show "length (fmt_u32 v hex) \<le> 10" by (auto simp: fmt_u32_def)
  show "fmt_u32 v hex \<noteq> []" using fmt_digits_nonempty[of v "[]" hex] by (auto simp: fmt_u32_def)
  have "list_all (\<lambda>c. c \<noteq> 0 \<and> c \<noteq> NL) (fmt_digits v hex [])"
    by (rule fmt_digits_chars)
       (auto simp: fmt_base_def word_less_nat_alt split: if_splits intro!: digit_round_trip(2))
  then show "NL \<notin> set (fmt_u32 v hex)" "0 \<notin> set (fmt_u32 v hex)"
    by (auto simp: fmt_u32_def list_all_iff NL_def)
qed

lemma parse_fmt_u32: "parse_u32 (fmt_u32 v hex) def = v"
proof (cases hex)
  case True
  show ?thesis
  proof (cases "v = 0")
    case False
    have "fmt_digits v True [] \<noteq> []" using fmt_digits_nonempty False by blast
    then show ?thesis
      using True False parse_fmt_digits[of True v "[]"] by (simp add: fmt_u32_def parse_u32_def fmt_base_def)
  qed (use True in \<open>simp add: fmt_u32_def parse_u32_def digit_val_def\<close>)
next
  case False
  show ?thesis
  proof (cases "v = 0")
    case nz: False
    have "list_all (\<lambda>c. c \<noteq> 120 \<and> c \<noteq> 88) (fmt_digits v False [])"
      by (rule fmt_digits_chars)
         (auto simp: fmt_base_def word_less_nat_alt intro!: digit_round_trip(4))
    then have "fmt_digits v False [] ! 1 \<noteq> 120 \<and> fmt_digits v False [] ! 1 \<noteq> 88"
      if "length (fmt_digits v False []) > 2"
      using that by (simp add: list_all_length)
    then show ?thesis
      using False nz parse_fmt_digits[of False v "[]"]
      by (auto simp: fmt_u32_def parse_u32_def fmt_base_def split: if_splits)
  qed (use False in \<open>simp add: fmt_u32_def parse_u32_def digit_val_def\<close>)
qed

section \<open>The key-value interface\<close>

text \<open>A run of sets that stops at the first failure.\<close>

fun put_all :: "('b \<Rightarrow> u8 list \<Rightarrow> u8 list \<Rightarrow> int \<times> 'b) \<Rightarrow> (u8 list \<times> u8 list) list \<Rightarrow> 'b \<Rightarrow> 'b option" where
  "put_all put [] b = Some b"
| "put_all put ((k, v) # es) b = (let (r, b') = put b k v in if r < 0 then None else put_all put es b')"

definition value_ok :: "u8 list \<Rightarrow> bool" where
  "value_ok v \<longleftrightarrow> NL \<notin> set v \<and> 0 \<notin> set v"

locale config_store =
  fixes ok :: "'b \<Rightarrow> bool"
    and val :: "'b \<Rightarrow> u8 list \<Rightarrow> u8 list option"
    and put :: "'b \<Rightarrow> u8 list \<Rightarrow> u8 list \<Rightarrow> int \<times> 'b"
    and del :: "'b \<Rightarrow> u8 list \<Rightarrow> int \<times> 'b"
  assumes put_law: "ok b \<Longrightarrow> key_valid k \<Longrightarrow> value_ok v \<Longrightarrow> put b k v = (r, b') \<Longrightarrow>
      ok b' \<and> (r = 0 \<and> (\<forall>k'. key_valid k' \<longrightarrow> val b' k' = (if k' = k then Some v else val b k'))
               \<or> r = -1 \<and> b' = b)"
    and del_law: "ok b \<Longrightarrow> key_valid k \<Longrightarrow> del b k = (r, b') \<Longrightarrow>
      ok b' \<and> (\<forall>k'. key_valid k' \<longrightarrow> val b' k' = (if k' = k then None else val b k'))"
begin

lemma put_all_law:
  assumes "ok b" "\<forall>(k, v) \<in> set es. key_valid k \<and> value_ok v" "put_all put es b = Some b'"
    "distinct (map fst es)"
  shows "ok b' \<and> (\<forall>k. key_valid k \<longrightarrow> val b' k = (case map_of es k of Some v \<Rightarrow> Some v | None \<Rightarrow> val b k))"
  using assms
proof (induction es arbitrary: b)
  case (Cons e es)
  obtain k v where e: "e = (k, v)" by fastforce
  obtain r b1 where p: "put b k v = (r, b1)" by fastforce
  have kv: "key_valid k" "value_ok v" using Cons.prems(2) e by auto
  have r: "\<not> r < 0" "put_all put es b1 = Some b'"
    using Cons.prems(3) e p by (auto split: if_splits)
  have st: "ok b1" "\<forall>k'. key_valid k' \<longrightarrow> val b1 k' = (if k' = k then Some v else val b k')"
    using put_law[OF Cons.prems(1) kv p] r(1) by auto
  have ih: "ok b' \<and> (\<forall>k. key_valid k \<longrightarrow> val b' k = (case map_of es k of Some v \<Rightarrow> Some v | None \<Rightarrow> val b1 k))"
    using Cons.IH[OF st(1) _ r(2)] Cons.prems(2,4) by auto
  have "map_of es k = None" using Cons.prems(4) e by (simp add: map_of_eq_None_iff)
  then show ?case using ih st(2) e by (auto split: option.splits)
qed simp

lemma put_get: "ok b \<Longrightarrow> key_valid k \<Longrightarrow> value_ok v \<Longrightarrow> put b k v = (0, b') \<Longrightarrow> val b' k = Some v"
  using put_law[of b k v 0 b'] by auto

lemma put_commutes_val:
  assumes "ok b" "key_valid k" "value_ok v" "put b k v = (r, b')" "key_valid k'" "k' \<noteq> k"
  shows "val b' k' = val b k'"
  using put_law[OF assms(1-4)] assms(5,6) by auto

end

definition store_ok :: "u8 list \<Rightarrow> bool" where
  "store_ok b \<longleftrightarrow> (\<exists>ls. lines_ok ls \<and> keys_unique ls \<and> b = cfg_of ls)"

definition store_val :: "u8 list \<Rightarrow> u8 list \<Rightarrow> u8 list option" where
  "store_val b k = bootcfg_buf_get b k SECTOR_SIZE"

lemma lookup_length: "lookup_lines k ls = Some v \<Longrightarrow> length v \<le> length (text_of ls)"
  by (induction ls) (auto split: if_splits)

lemma store_val_cfg_of:
  assumes "lines_ok ls" "key_valid k"
  shows "store_val (cfg_of ls) k = lookup_lines k ls"
proof -
  have "store_val (cfg_of ls) k = map_option (take (SECTOR_SIZE - 1)) (lookup_lines k ls)"
    unfolding store_val_def using assms by (intro get_refines) (simp_all add: SECTOR_SIZE_def)
  moreover have "take (SECTOR_SIZE - 1) v = v" if "lookup_lines k ls = Some v" for v
    using lookup_length[OF that] assms(1) by (simp add: lines_ok_def, linarith)
  ultimately show ?thesis by (cases "lookup_lines k ls") auto
qed

interpretation cfg: config_store store_ok store_val bootcfg_buf_set bootcfg_buf_remove
proof unfold_locales
  fix b k v r b'
  assume a: "store_ok b" "key_valid k" "value_ok v" "bootcfg_buf_set b k v = (r, b')"
  obtain ls where ls: "lines_ok ls" "keys_unique ls" "b = cfg_of ls" using a(1) by (auto simp: store_ok_def)
  have v: "NL \<notin> set v" "0 \<notin> set v" using a(3) by (auto simp: value_ok_def)
  show "store_ok b' \<and> (r = 0 \<and> (\<forall>k'. key_valid k' \<longrightarrow> store_val b' k' = (if k' = k then Some v else store_val b k'))
               \<or> r = -1 \<and> b' = b)"
  proof (cases "MAGIC_LEN + length (text_of (set_line k v ls)) < SECTOR_SIZE")
    case True
    have ok': "lines_ok (set_line k v ls)" using lines_ok_set[OF ls(1) a(2) v True] .
    have r: "r = 0" "b' = cfg_of (set_line k v ls)" using a(4) set_refines[OF ls(1) a(2) v] True ls(3) by simp_all
    have "keys_unique (set_line k v ls)" using lookup_set_line(2)[OF ls(2) a(2,2)] .
    moreover have "store_val b' k' = (if k' = k then Some v else store_val b k')" if "key_valid k'" for k'
      using lookup_set_line(1)[OF ls(2) a(2) that] store_val_cfg_of[OF ok' that] store_val_cfg_of[OF ls(1) that] r ls(3)
      by simp
    ultimately show ?thesis using ok' r by (auto simp: store_ok_def)
  next
    case False
    then have "r = -1" "b' = b" using a(4) set_refines[OF ls(1) a(2) v] ls(3) by simp_all
    then show ?thesis using a(1) by simp
  qed
next
  fix b k r b'
  assume a: "store_ok b" "key_valid k" "bootcfg_buf_remove b k = (r, b')"
  obtain ls where ls: "lines_ok ls" "keys_unique ls" "b = cfg_of ls" using a(1) by (auto simp: store_ok_def)
  have b': "b' = cfg_of (remove_line k ls)" using a(3) remove_refines[OF ls(1) a(2)] ls(3) by simp
  have ok': "lines_ok (remove_line k ls)" using remove_line_ok(1)[OF ls(1)] .
  have "store_val b' k' = (if k' = k then None else store_val b k')" if "key_valid k'" for k'
    using lookup_remove_same[OF ls(2) a(2)] lookup_remove_other[OF a(2) that] b' ls(3)
      store_val_cfg_of[OF ok' that] store_val_cfg_of[OF ls(1) that] by simp
  then show "store_ok b' \<and> (\<forall>k'. key_valid k' \<longrightarrow> store_val b' k' = (if k' = k then None else store_val b k'))"
    using ok' keys_unique_remove[OF ls(2)] b' by (auto simp: store_ok_def)
qed

lemma get_u32_val:
  assumes "store_ok b" "key_valid k"
  shows "bootcfg_buf_get_u32 b k def =
     (case store_val b k of None \<Rightarrow> def | Some v \<Rightarrow> if v = [] then def else parse_u32 (take 15 v) def)"
proof -
  obtain ls where ls: "lines_ok ls" "b = cfg_of ls" using assms(1) by (auto simp: store_ok_def)
  have "bootcfg_buf_get b k 16 = map_option (take 15) (store_val b k)"
    using get_refines[OF ls(1) assms(2), of 16] store_val_cfg_of[OF ls(1) assms(2)] ls(2) by simp
  then show ?thesis by (auto simp: bootcfg_buf_get_u32_def split: option.splits)
qed

lemma get_u32_of_fmt:
  assumes "store_ok b" "key_valid k" "store_val b k = Some (fmt_u32 v hex)"
  shows "bootcfg_buf_get_u32 b k def = v"
  using get_u32_val[OF assms(1,2)] assms(3) fmt_u32_props(1,2)[of v hex] parse_fmt_u32[of v hex def] by simp

lemma value_ok_fmt [simp]: "value_ok (fmt_u32 v hex)"
  using fmt_u32_props[of v hex] by (simp add: value_ok_def)

lemma cfg_reset_lines: "cfg_reset = cfg_of []"
  using put_bytes_closed[of 0 MAGIC "replicate SECTOR_SIZE 0"]
  by (simp add: cfg_reset_def cfg_of_def MAGIC_LEN_def SECTOR_SIZE_def)

lemma store_ok_reset: "store_ok cfg_reset"
  unfolding store_ok_def cfg_reset_lines by (intro exI[of _ "[]"]) (simp add: lines_ok_def MAGIC_LEN_def SECTOR_SIZE_def)

lemma has_magic_cfg_of: "has_magic (cfg_of ls)"
  by (simp add: has_magic_def cfg_of_def nth_append)

lemma cfg_of_last: "lines_ok ls \<Longrightarrow> (cfg_of ls)[SECTOR_SIZE - 1 := 0] = cfg_of ls"
proof -
  assume ok: "lines_ok ls"
  let ?z = "SECTOR_SIZE - MAGIC_LEN - length (text_of ls)"
  have "?z > 0" using ok by (simp add: lines_ok_def)
  then have "replicate ?z (0 :: u8) = replicate (?z - 1) 0 @ [0]"
    by (metis replicate_append_same replicate_pos)
  then have "cfg_of ls = (MAGIC @ text_of ls @ replicate (?z - 1) 0) @ [0]"
    by (simp add: cfg_of_def)
  moreover have "length (MAGIC @ text_of ls @ replicate (?z - 1) (0::u8)) = SECTOR_SIZE - 1"
    using ok by (simp add: lines_ok_def)
  ultimately show ?thesis by (metis list_update_length)
qed

lemma store_ok_shape:
  assumes "store_ok b"
  shows "length b = SECTOR_SIZE" "has_magic b" "b ! (SECTOR_SIZE - 1) = 0"
proof -
  obtain ls where ls: "lines_ok ls" "b = cfg_of ls" using assms by (auto simp: store_ok_def)
  show "length b = SECTOR_SIZE" "has_magic b" using ls has_magic_cfg_of by simp_all
  have "b[SECTOR_SIZE - 1 := 0] = b" using cfg_of_last ls by simp
  then show "b ! (SECTOR_SIZE - 1) = 0"
    using \<open>length b = SECTOR_SIZE\<close>
    by (metis SECTOR_SIZE_def diff_less nth_list_update_eq zero_less_numeral zero_less_one)
qed

section \<open>Properties\<close>

text \<open>
  C15. Setting a key in a well-formed configuration buffer (newline-terminated lines, no key
  twice) either fails with -1 and leaves the buffer as it was, or returns 0 and then reading that
  key gives the new value and every other key its old one; in both cases the buffer stays
  well formed: 512 bytes, the magic line first, the last byte NUL.
\<close>

theorem bootcfg_set_correct:
  assumes "store_ok b" "key_valid key" "value_ok v" "bootcfg_buf_set b key v = (r, b')"
  shows "store_ok b' \<and> length b' = SECTOR_SIZE \<and> has_magic b' \<and> b' ! (SECTOR_SIZE - 1) = 0
     \<and> (r = 0 \<and> bootcfg_buf_get b' key SECTOR_SIZE = Some v
           \<and> (\<forall>k. key_valid k \<and> k \<noteq> key \<longrightarrow> bootcfg_buf_get b' k SECTOR_SIZE = bootcfg_buf_get b k SECTOR_SIZE)
        \<or> r = -1 \<and> b' = b)"
proof -
  have law: "store_ok b' \<and> (r = 0 \<and> (\<forall>k'. key_valid k' \<longrightarrow> store_val b' k' = (if k' = key then Some v else store_val b k'))
               \<or> r = -1 \<and> b' = b)"
    by (rule cfg.put_law[OF assms])
  then show ?thesis
    using store_ok_shape[of b'] assms(2) unfolding store_val_def by auto
qed

theorem bootcfg_set_correct_witness:
  "bootcfg_buf_get (snd (bootcfg_buf_set cfg_reset (bytes ''boot_fail_count'') (bytes ''2''))) (bytes ''boot_fail_count'') SECTOR_SIZE
     = Some (bytes ''2'')"
proof -
  let ?k = "bytes ''boot_fail_count''" and ?v = "bytes ''2''"
  have k: "key_valid ?k" by (simp add: bytes_def key_valid_def KEY_MAX_def key_char_def)
  have v: "value_ok ?v" by (simp add: bytes_def value_ok_def NL_def)
  have fits: "MAGIC_LEN + length (text_of (set_line ?k ?v [])) < SECTOR_SIZE"
    by (simp add: MAGIC_LEN_def SECTOR_SIZE_def set_line_def entry_def bytes_def)
  have "bootcfg_buf_set cfg_reset ?k ?v = (0, cfg_of (set_line ?k ?v []))"
    using set_refines[of "[]" ?k ?v] k v fits
    by (simp add: cfg_reset_lines value_ok_def lines_ok_def MAGIC_LEN_def SECTOR_SIZE_def)
  from bootcfg_set_correct[OF store_ok_reset k v this] this show ?thesis by simp
qed

text \<open>
  C16. Every 32-bit number survives the store, in decimal and in hexadecimal form: if
  \<open>bootcfg_buf_set_u32\<close> or \<open>bootcfg_buf_set_hex32\<close> succeeds, \<open>bootcfg_buf_get_u32\<close> returns exactly
  the number, whatever the default.
\<close>

theorem bootcfg_u32_roundtrip:
  assumes "store_ok b" "key_valid key"
    "(if hex then bootcfg_buf_set_hex32 b key n else bootcfg_buf_set_u32 b key n) = (0, b')"
  shows "bootcfg_buf_get_u32 b' key def = n"
proof -
  have set: "bootcfg_buf_set b key (fmt_u32 n hex) = (0, b')"
    using assms(3) by (auto simp: bootcfg_buf_set_u32_def bootcfg_buf_set_hex32_def split: if_splits)
  have law: "store_ok b'" "store_val b' key = Some (fmt_u32 n hex)"
    using cfg.put_law[OF assms(1,2) value_ok_fmt set] assms(2) by auto
  show ?thesis by (rule get_u32_of_fmt[OF law(1) assms(2) law(2)])
qed

theorem bootcfg_u32_roundtrip_witness:
  "bootcfg_buf_get_u32 (snd (bootcfg_buf_set_hex32 cfg_reset (bytes ''crash_eip'') 0xDEADBEEF)) (bytes ''crash_eip'') 7
     = 0xDEADBEEF"
proof -
  let ?k = "bytes ''crash_eip''"
  have k: "key_valid ?k" by (simp add: bytes_def key_valid_def KEY_MAX_def key_char_def)
  have v: "NL \<notin> set (fmt_u32 0xDEADBEEF True)" "0 \<notin> set (fmt_u32 0xDEADBEEF True)"
    using fmt_u32_props by blast+
  have "length (text_of (set_line ?k (fmt_u32 0xDEADBEEF True) [])) \<le> 21"
    using fmt_u32_props(1)[of "0xDEADBEEF" True] by (simp add: set_line_def entry_def bytes_def)
  then have fits: "MAGIC_LEN + length (text_of (set_line ?k (fmt_u32 0xDEADBEEF True) [])) < SECTOR_SIZE"
    by (simp add: MAGIC_LEN_def SECTOR_SIZE_def)
  have "bootcfg_buf_set_hex32 cfg_reset ?k 0xDEADBEEF = (0, cfg_of (set_line ?k (fmt_u32 0xDEADBEEF True) []))"
    using set_refines[of "[]" ?k "fmt_u32 0xDEADBEEF True"] k v fits
    by (simp add: bootcfg_buf_set_hex32_def cfg_reset_lines lines_ok_def MAGIC_LEN_def SECTOR_SIZE_def)
  then show ?thesis
    using bootcfg_u32_roundtrip[OF store_ok_reset k, of True "0xDEADBEEF" _ 7] by simp
qed


end
