(* ===== verification/Disk.thy ===== *)
theory Disk
  imports Prelude
begin

text \<open>
  The block device behind \<open>block_read_sector\<close> and \<open>block_write_sector\<close> (kernel/hal.c over the ATA
  driver). The drive itself is not code of the repository: its answer to the n-th command is the
  function \<open>outcome\<close>, which may be anything. A sector write lands whole or not at all, also when
  the command reports an error.
\<close>

datatype io_outcome = IoOk | IoFail | IoFailWritten

record disk =
  sectors :: "u32 \<Rightarrow> u8 list"
  outcome :: "nat \<Rightarrow> io_outcome"
  ios :: nat

definition block_read_sector :: "u32 \<Rightarrow> disk \<Rightarrow> u8 list option \<times> disk" where
  "block_read_sector lba d =
     (if outcome d (ios d) = IoOk then Some (sectors d lba) else None, d\<lparr>ios := Suc (ios d)\<rparr>)"

definition block_write_sector :: "u32 \<Rightarrow> u8 list \<Rightarrow> disk \<Rightarrow> int \<times> disk" where
  "block_write_sector lba data d =
     (if outcome d (ios d) = IoOk then 0 else -1,
      d\<lparr>sectors := (if outcome d (ios d) = IoFail then sectors d else (sectors d)(lba := data)),
        ios := Suc (ios d)\<rparr>)"

text \<open>The polled variants used by the crash path (kernel/hal.c, lines 40 and 41).\<close>

definition block_read_sector_polled :: "u32 \<Rightarrow> disk \<Rightarrow> u8 list option \<times> disk" where
  "block_read_sector_polled = block_read_sector"

definition block_write_sector_polled :: "u32 \<Rightarrow> u8 list \<Rightarrow> disk \<Rightarrow> int \<times> disk" where
  "block_write_sector_polled = block_write_sector"

definition disk_wf :: "disk \<Rightarrow> bool" where
  "disk_wf d \<longleftrightarrow> (\<forall>lba. length (sectors d lba) = 512)"

definition reliable :: "disk \<Rightarrow> bool" where
  "reliable d \<longleftrightarrow> (\<forall>n. outcome d n = IoOk)"

lemma read_reliable:
  "reliable d \<Longrightarrow> block_read_sector lba d = (Some (sectors d lba), d\<lparr>ios := Suc (ios d)\<rparr>)"
  by (simp add: block_read_sector_def reliable_def)

lemma write_reliable:
  "reliable d \<Longrightarrow> block_write_sector lba data d = (0, d\<lparr>sectors := (sectors d)(lba := data), ios := Suc (ios d)\<rparr>)"
  by (simp add: block_write_sector_def reliable_def)

lemma reliable_fields [simp]:
  "reliable (d\<lparr>ios := n\<rparr>) = reliable d" "reliable (d\<lparr>sectors := s\<rparr>) = reliable d"
  by (simp_all add: reliable_def)

end
