(* ===== verification/Crash.thy ===== *)
theory Crash
  imports Bootcfg Disk
begin

text \<open>
  The configuration sector on disk (the API half of kernel/bootcfg.c), the crash record
  (kernel/crashdump.c), the boot-time Safe Mode decision (kernel/main.c), "reboot normally"
  (kernel/safemode.c) and the boot confirmation on the first keyboard read (kernel/syscall.c).
\<close>

section \<open>The configuration sector\<close>

definition BOOTCFG_LBA :: u32 where "BOOTCFG_LBA = 1"
definition BOOTCFG_FAIL_THRESHOLD :: u32 where "BOOTCFG_FAIL_THRESHOLD = 3"
definition KEY_FAIL_COUNT :: "u8 list" where "KEY_FAIL_COUNT = bytes ''boot_fail_count''"

record bootcfg =
  g_cfg :: "u8 list"
  g_available :: bool

definition guard_ok :: "disk \<Rightarrow> bool \<times> disk" where
  "guard_ok d =
     (let (r, d) = block_read_sector 0 d in
      case r of None \<Rightarrow> (False, d)
      | Some s0 \<Rightarrow>
          let bps = (ucast (s0 ! 11) :: u32) OR push_bit 8 (ucast (s0 ! 12));
              reserved = (ucast (s0 ! 14) :: u32) OR push_bit 8 (ucast (s0 ! 15))
          in (bps = 512 \<and> reserved > BOOTCFG_LBA, d))"

definition bootcfg_read :: "disk \<Rightarrow> int \<times> bootcfg \<times> disk" where
  "bootcfg_read d =
     (let (ok, d) = guard_ok d in
      if \<not> ok then (-1, \<lparr>g_cfg = cfg_reset, g_available = False\<rparr>, d)
      else let (r, d) = block_read_sector BOOTCFG_LBA d in
        case r of None \<Rightarrow> (-1, \<lparr>g_cfg = cfg_reset, g_available = False\<rparr>, d)
        | Some raw \<Rightarrow>
            if \<not> has_magic raw then (0, \<lparr>g_cfg = cfg_reset, g_available = True\<rparr>, d)
            else (1, \<lparr>g_cfg = raw[SECTOR_SIZE - 1 := 0], g_available = True\<rparr>, d))"

definition bootcfg_write :: "bootcfg \<Rightarrow> disk \<Rightarrow> int \<times> bootcfg \<times> disk" where
  "bootcfg_write c d =
     (if \<not> g_available c then (-1, c, d)
      else let c1 = c\<lparr>g_cfg := (g_cfg c)[SECTOR_SIZE - 1 := 0]\<rparr>;
               (r, d) = block_write_sector BOOTCFG_LBA (g_cfg c1) d
           in (if r < 0 then -1 else 0, c1, d))"

definition bootcfg_get_u32 :: "bootcfg \<Rightarrow> u8 list \<Rightarrow> u32 \<Rightarrow> u32" where
  "bootcfg_get_u32 c key def = bootcfg_buf_get_u32 (g_cfg c) key def"

definition bootcfg_set_u32 :: "bootcfg \<Rightarrow> u8 list \<Rightarrow> u32 \<Rightarrow> int \<times> bootcfg" where
  "bootcfg_set_u32 c key v = (let (r, b) = bootcfg_buf_set_u32 (g_cfg c) key v in (r, c\<lparr>g_cfg := b\<rparr>))"

definition bootcfg_remove :: "bootcfg \<Rightarrow> u8 list \<Rightarrow> int \<times> bootcfg" where
  "bootcfg_remove c key = (let (r, b) = bootcfg_buf_remove (g_cfg c) key in (r, c\<lparr>g_cfg := b\<rparr>))"

section \<open>The crash record\<close>

definition K_PENDING :: "u8 list" where "K_PENDING = bytes ''crash_pending''"
definition K_TYPE :: "u8 list" where "K_TYPE = bytes ''crash_type''"
definition K_EIP :: "u8 list" where "K_EIP = bytes ''crash_eip''"
definition K_ERR :: "u8 list" where "K_ERR = bytes ''crash_err''"
definition K_CR2 :: "u8 list" where "K_CR2 = bytes ''crash_cr2''"
definition K_TICKS :: "u8 list" where "K_TICKS = bytes ''crash_ticks''"

record crash_info =
  ci_int_no :: u32
  ci_eip :: u32
  ci_err_code :: u32
  ci_cr2 :: u32
  ci_ticks :: u32

record crash_record =
  cr_state :: u32
  cr_info :: crash_info

definition crash_begin :: "bool \<Rightarrow> bool \<times> bool" where
  "crash_begin active = (if active then (False, True) else (True, True))"

text \<open>The chain of sets in \<open>crash_save\<close>: it stops at the first failure. The flag selects the
  hexadecimal form.\<close>

fun set_chain :: "(u8 list \<times> u32 \<times> bool) list \<Rightarrow> u8 list \<Rightarrow> u8 list option" where
  "set_chain [] b = Some b"
| "set_chain ((key, v, hex) # es) b =
     (let (r, b') = (if hex then bootcfg_buf_set_hex32 b key v else bootcfg_buf_set_u32 b key v)
      in if r < 0 then None else set_chain es b')"

definition crash_entries :: "crash_info \<Rightarrow> (u8 list \<times> u32 \<times> bool) list" where
  "crash_entries info = [(K_PENDING, 1, False), (K_TYPE, ci_int_no info, False), (K_EIP, ci_eip info, True),
     (K_ERR, ci_err_code info, True), (K_CR2, ci_cr2 info, True), (K_TICKS, ci_ticks info, False)]"

definition crash_save :: "crash_info \<Rightarrow> bootcfg \<Rightarrow> disk \<Rightarrow> bool \<times> disk" where
  "crash_save info c d =
     (if \<not> g_available c then (False, d)
      else let (r, d) = block_read_sector_polled BOOTCFG_LBA d;
               sector = (case r of None \<Rightarrow> bootcfg_buf_init
                         | Some raw \<Rightarrow> if bootcfg_buf_valid raw then raw else bootcfg_buf_init);
               sector = sector[511 := 0]
           in case set_chain (crash_entries info) sector of
                None \<Rightarrow> (False, d)
              | Some sector \<Rightarrow> let (w, d) = block_write_sector_polled BOOTCFG_LBA sector d in (w = 0, d))"

definition crash_record_load :: "bootcfg \<Rightarrow> crash_record option" where
  "crash_record_load c =
     (let state = bootcfg_get_u32 c K_PENDING 0 in
      if state \<noteq> 1 \<and> state \<noteq> 2 then None
      else Some \<lparr>cr_state = state, cr_info = \<lparr>ci_int_no = bootcfg_get_u32 c K_TYPE 0,
        ci_eip = bootcfg_get_u32 c K_EIP 0, ci_err_code = bootcfg_get_u32 c K_ERR 0,
        ci_cr2 = bootcfg_get_u32 c K_CR2 0, ci_ticks = bootcfg_get_u32 c K_TICKS 0\<rparr>\<rparr>)"

definition crash_record_acknowledge :: "bootcfg \<Rightarrow> bootcfg" where
  "crash_record_acknowledge c =
     (if bootcfg_get_u32 c K_PENDING 0 = 1 then snd (bootcfg_set_u32 c K_PENDING 2) else c)"

definition crash_record_clear_if_acknowledged :: "bootcfg \<Rightarrow> bool \<times> bootcfg" where
  "crash_record_clear_if_acknowledged c =
     (if bootcfg_get_u32 c K_PENDING 0 \<noteq> 2 then (False, c)
      else (True, fold (\<lambda>k c. snd (bootcfg_remove c k)) [K_PENDING, K_TYPE, K_EIP, K_ERR, K_CR2, K_TICKS] c))"

section \<open>Boot decision\<close>

datatype safemode_reason = SAFEMODE_REASON_FAIL_COUNT | SAFEMODE_REASON_REQUESTED | SAFEMODE_REASON_CRASH

text \<open>kmain, lines 145 to 173: \<open>Some reason\<close> enters Safe Mode. Before \<open>bootcfg_read\<close> the globals are
  zero, so without a disk the store is unavailable.\<close>

definition boot_decide :: "bool \<Rightarrow> bool \<Rightarrow> disk \<Rightarrow> safemode_reason option \<times> bootcfg \<times> disk" where
  "boot_decide disk_ok requested d =
     (let (c, d) = (if disk_ok then snd (bootcfg_read d)
                    else (\<lparr>g_cfg = replicate SECTOR_SIZE 0, g_available = False\<rparr>, d))
      in if \<not> g_available c then (None, c, d)
         else let fails = bootcfg_get_u32 c KEY_FAIL_COUNT 0;
                  crashed = (case crash_record_load c of None \<Rightarrow> False | Some r \<Rightarrow> cr_state r = 1)
              in if crashed \<or> fails \<ge> BOOTCFG_FAIL_THRESHOLD \<or> requested
                 then (Some (if crashed then SAFEMODE_REASON_CRASH
                             else if requested then SAFEMODE_REASON_REQUESTED
                             else SAFEMODE_REASON_FAIL_COUNT), c, d)
                 else let c = snd (bootcfg_set_u32 c KEY_FAIL_COUNT (fails + 1));
                          (_, c, d) = bootcfg_write c d
                      in (None, c, d))"

text \<open>The state changes of \<open>reboot_normally\<close> before the reset.\<close>

definition reboot_normally :: "bootcfg \<Rightarrow> disk \<Rightarrow> bootcfg \<times> disk" where
  "reboot_normally c d =
     (let c = crash_record_acknowledge (snd (bootcfg_set_u32 c KEY_FAIL_COUNT 0)) in snd (bootcfg_write c d))"

text \<open>The first keyboard read of a boot (kernel/syscall.c, lines 319 to 326); the flag is
  \<open>g_boot_considered_up\<close>.\<close>

definition boot_considered_up :: "bool \<Rightarrow> bootcfg \<Rightarrow> disk \<Rightarrow> bool \<times> bootcfg \<times> disk" where
  "boot_considered_up up c d =
     (if up then (True, c, d)
      else if g_available c then
        (let c = snd (crash_record_clear_if_acknowledged (snd (bootcfg_set_u32 c KEY_FAIL_COUNT 0)))
         in (True, snd (bootcfg_write c d)))
      else (True, c, d))"

section \<open>Lemmas\<close>

definition crash_keys :: "u8 list list" where
  "crash_keys = [K_PENDING, K_TYPE, K_EIP, K_ERR, K_CR2, K_TICKS]"

lemma keys_valid:
  "key_valid K_PENDING" "key_valid K_TYPE" "key_valid K_EIP" "key_valid K_ERR" "key_valid K_CR2"
  "key_valid K_TICKS" "key_valid KEY_FAIL_COUNT"
  by (simp_all add: K_PENDING_def K_TYPE_def K_EIP_def K_ERR_def K_CR2_def K_TICKS_def KEY_FAIL_COUNT_def
      bytes_def key_valid_def KEY_MAX_def key_char_def)

lemma keys_distinct: "distinct (KEY_FAIL_COUNT # crash_keys)"
  by (simp add: crash_keys_def K_PENDING_def K_TYPE_def K_EIP_def K_ERR_def K_CR2_def K_TICKS_def
      KEY_FAIL_COUNT_def bytes_def)

lemma set_chain_put_all:
  "set_chain es b = put_all bootcfg_buf_set (map (\<lambda>(k, v, hex). (k, fmt_u32 v hex)) es) b"
proof (induction es b rule: set_chain.induct)
  case (2 key v hex es b)
  then show ?case
    by (cases hex) (auto simp: bootcfg_buf_set_u32_def bootcfg_buf_set_hex32_def split: prod.splits)
qed simp

lemma text_set_line: "length (text_of (set_line key v ls)) \<le> length (text_of ls) + length key + length v + 2"
  using remove_line_ok(2)[of key ls] by (simp add: set_line_def entry_def)

text \<open>A number fits if there is room for the key, ten digits and two separators.\<close>

lemma set_number_fits:
  assumes "lines_ok ls" "key_valid key" "MAGIC_LEN + length (text_of ls) + length key + 12 < SECTOR_SIZE"
  shows "bootcfg_buf_set (cfg_of ls) key (fmt_u32 v hex) = (0, cfg_of (set_line key (fmt_u32 v hex) ls))"
    "lines_ok (set_line key (fmt_u32 v hex) ls)"
proof -
  have fits: "MAGIC_LEN + length (text_of (set_line key (fmt_u32 v hex) ls)) < SECTOR_SIZE"
    using text_set_line[of key "fmt_u32 v hex" ls] fmt_u32_props(1)[of v hex] assms(3) by linarith
  show "bootcfg_buf_set (cfg_of ls) key (fmt_u32 v hex) = (0, cfg_of (set_line key (fmt_u32 v hex) ls))"
    using set_refines[OF assms(1,2) fmt_u32_props(3,4)] fits by simp
  show "lines_ok (set_line key (fmt_u32 v hex) ls)"
    by (rule lines_ok_set[OF assms(1,2) fmt_u32_props(3,4) fits])
qed

text \<open>The disk of a machine that has a configuration sector.\<close>

definition guard_sector :: "u8 list \<Rightarrow> bool" where
  "guard_sector s0 \<longleftrightarrow> ((ucast (s0 ! 11) :: u32) OR push_bit 8 (ucast (s0 ! 12))) = 512
     \<and> ((ucast (s0 ! 14) :: u32) OR push_bit 8 (ucast (s0 ! 15))) > BOOTCFG_LBA"

lemma guard_ok_reliable:
  "reliable d \<Longrightarrow> guard_ok d = (guard_sector (sectors d 0), d\<lparr>ios := Suc (ios d)\<rparr>)"
  by (simp add: guard_ok_def read_reliable guard_sector_def Let_def)

lemma bootcfg_read_reliable:
  assumes "reliable d" "guard_sector (sectors d 0)" "sectors d 1 = cfg_of ls" "lines_ok ls"
  shows "bootcfg_read d = (1, \<lparr>g_cfg = cfg_of ls, g_available = True\<rparr>, d\<lparr>ios := Suc (Suc (ios d))\<rparr>)"
  using assms cfg_of_last[OF assms(4)]
  by (simp add: bootcfg_read_def guard_ok_reliable read_reliable BOOTCFG_LBA_def has_magic_cfg_of)

lemma bootcfg_write_reliable:
  assumes "reliable d" "g_available c" "g_cfg c = cfg_of ls" "lines_ok ls"
  shows "bootcfg_write c d = (0, c, d\<lparr>sectors := (sectors d)(1 := cfg_of ls), ios := Suc (ios d)\<rparr>)"
  using assms cfg_of_last[OF assms(4)]
  by (simp add: bootcfg_write_def write_reliable BOOTCFG_LBA_def)

lemma crash_save_reliable:
  assumes "reliable d" "g_available c" "sectors d 1 = cfg_of ls" "lines_ok ls"
    "set_chain (crash_entries info) (cfg_of ls) = Some b"
  shows "crash_save info c d = (True, d\<lparr>sectors := (sectors d)(1 := b), ios := Suc (Suc (ios d))\<rparr>)"
  using assms cfg_of_last[OF assms(4)]
  by (simp add: crash_save_def block_read_sector_polled_def block_write_sector_polled_def read_reliable
      write_reliable BOOTCFG_LBA_def bootcfg_buf_valid_def has_magic_cfg_of SECTOR_SIZE_def)

definition crash_room :: nat where
  "crash_room = (\<Sum>k \<leftarrow> crash_keys. length k + 12)"

lemma crash_entries_room: "(\<Sum>(k, v, hex) \<leftarrow> crash_entries info. length k + 12) = crash_room"
  by (simp add: crash_entries_def crash_room_def crash_keys_def)

text \<open>What the six sets of \<open>crash_save\<close> leave in the store.\<close>

lemma crash_chain_values:
  assumes "store_ok b" "set_chain (crash_entries info) b = Some b'"
  shows "store_ok b'"
    "store_val b' K_PENDING = Some (fmt_u32 1 False)" "store_val b' K_TYPE = Some (fmt_u32 (ci_int_no info) False)"
    "store_val b' K_EIP = Some (fmt_u32 (ci_eip info) True)" "store_val b' K_ERR = Some (fmt_u32 (ci_err_code info) True)"
    "store_val b' K_CR2 = Some (fmt_u32 (ci_cr2 info) True)" "store_val b' K_TICKS = Some (fmt_u32 (ci_ticks info) False)"
    "\<And>k. key_valid k \<Longrightarrow> k \<notin> set crash_keys \<Longrightarrow> store_val b' k = store_val b k"
proof -
  let ?es = "map (\<lambda>(k, v, hex). (k, fmt_u32 v hex)) (crash_entries info)"
  have p: "put_all bootcfg_buf_set ?es b = Some b'" using assms(2) by (simp only: set_chain_put_all)
  have fs: "map fst ?es = crash_keys" by (simp add: crash_entries_def crash_keys_def)
  have v: "\<forall>(k, v) \<in> set ?es. key_valid k \<and> value_ok v" by (simp add: crash_entries_def keys_valid)
  have d: "distinct (map fst ?es)" unfolding fs using keys_distinct by simp
  have law: "store_ok b' \<and> (\<forall>k. key_valid k \<longrightarrow> store_val b' k = (case map_of ?es k of Some v \<Rightarrow> Some v | None \<Rightarrow> store_val b k))"
    by (rule cfg.put_all_law[OF assms(1) v p d])
  then show "store_ok b'" by simp
  have m: "map_of ?es k = Some x" if "(k, x) \<in> set ?es" for k x
    using that d by (simp only: map_of_eq_Some_iff)
  have at: "store_val b' k = Some x" if "(k, x) \<in> set ?es" "key_valid k" for k x
    using law m[OF that(1)] that(2) by simp
  have es: "set ?es = {(K_PENDING, fmt_u32 1 False), (K_TYPE, fmt_u32 (ci_int_no info) False),
      (K_EIP, fmt_u32 (ci_eip info) True), (K_ERR, fmt_u32 (ci_err_code info) True),
      (K_CR2, fmt_u32 (ci_cr2 info) True), (K_TICKS, fmt_u32 (ci_ticks info) False)}"
    by (simp only: crash_entries_def list.map prod.case list.set)
  show "store_val b' K_PENDING = Some (fmt_u32 1 False)" by (rule at[OF _ keys_valid(1)]) (unfold es, blast)
  show "store_val b' K_TYPE = Some (fmt_u32 (ci_int_no info) False)" by (rule at[OF _ keys_valid(2)]) (unfold es, blast)
  show "store_val b' K_EIP = Some (fmt_u32 (ci_eip info) True)" by (rule at[OF _ keys_valid(3)]) (unfold es, blast)
  show "store_val b' K_ERR = Some (fmt_u32 (ci_err_code info) True)" by (rule at[OF _ keys_valid(4)]) (unfold es, blast)
  show "store_val b' K_CR2 = Some (fmt_u32 (ci_cr2 info) True)" by (rule at[OF _ keys_valid(5)]) (unfold es, blast)
  show "store_val b' K_TICKS = Some (fmt_u32 (ci_ticks info) False)" by (rule at[OF _ keys_valid(6)]) (unfold es, blast)
  show "store_val b' k = store_val b k" if "key_valid k" "k \<notin> set crash_keys" for k
  proof -
    have "k \<notin> set (map fst ?es)" unfolding fs by (rule that(2))
    then have "map_of ?es k = None" by (simp only: map_of_eq_None_iff set_map not_False_eq_True)
    then show ?thesis using law that(1) by (simp only: option.case)
  qed
qed

section \<open>Stores with room\<close>

text \<open>A well-formed store with more than \<open>n\<close> bytes of free space.\<close>

definition store_room :: "nat \<Rightarrow> u8 list \<Rightarrow> bool" where
  "store_room n b \<longleftrightarrow> (\<exists>ls. lines_ok ls \<and> keys_unique ls \<and> b = cfg_of ls
     \<and> MAGIC_LEN + length (text_of ls) + n < SECTOR_SIZE)"

lemma store_room_ok: "store_room n b \<Longrightarrow> store_ok b"
  by (auto simp: store_room_def store_ok_def)

lemma store_room_mono: "store_room n b \<Longrightarrow> m \<le> n \<Longrightarrow> store_room m b"
  by (force simp: store_room_def)

text \<open>With room for the key, ten digits and two separators a number is always stored.\<close>

lemma set_number:
  assumes "store_room (n + length key + 12) b" "key_valid key"
  obtains b' where "bootcfg_buf_set b key (fmt_u32 v hex) = (0, b')" "store_room n b'"
    "\<And>k. key_valid k \<Longrightarrow> store_val b' k = (if k = key then Some (fmt_u32 v hex) else store_val b k)"
proof -
  obtain ls where ls: "lines_ok ls" "keys_unique ls" "b = cfg_of ls"
    "MAGIC_LEN + length (text_of ls) + (n + length key + 12) < SECTOR_SIZE"
    using assms(1) by (auto simp: store_room_def)
  let ?ls = "set_line key (fmt_u32 v hex) ls"
  have "MAGIC_LEN + length (text_of ls) + length key + 12 < SECTOR_SIZE" using ls(4) by linarith
  note f = set_number_fits[OF ls(1) assms(2) this, of v hex]
  have "MAGIC_LEN + length (text_of ?ls) + n < SECTOR_SIZE"
    using text_set_line[of key "fmt_u32 v hex" ls] fmt_u32_props(1)[of v hex] ls(4) by linarith
  then have "store_room n (cfg_of ?ls)"
    using f(2) lookup_set_line(2)[OF ls(2) assms(2,2)] by (auto simp: store_room_def)
  moreover have "store_val (cfg_of ?ls) k = (if k = key then Some (fmt_u32 v hex) else store_val b k)" if "key_valid k" for k
    using cfg.put_law[OF store_room_ok[OF assms(1)] assms(2) value_ok_fmt f(1)[folded ls(3)]] that by auto
  ultimately show ?thesis using that f(1) ls(3) by blast
qed

lemma set_chain_fits:
  assumes "lines_ok ls" "keys_unique ls" "\<forall>(k, v, hex) \<in> set es. key_valid k"
    "MAGIC_LEN + length (text_of ls) + (n + (\<Sum>(k, v, hex) \<leftarrow> es. length k + 12)) < SECTOR_SIZE"
  shows "\<exists>b. set_chain es (cfg_of ls) = Some b \<and> store_room n b"
  using assms
proof (induction es arbitrary: ls)
  case (Cons e es)
  obtain k v hex where e: "e = (k, v, hex)" by (cases e) auto
  let ?ls = "set_line k (fmt_u32 v hex) ls"
  have k: "key_valid k" using Cons.prems(3) e by simp
  note f = set_number_fits[OF Cons.prems(1) k, of v hex]
  have room: "MAGIC_LEN + length (text_of ls) + length k + 12 < SECTOR_SIZE"
    using Cons.prems(4) e by simp
  have "length (text_of ?ls) \<le> length (text_of ls) + length k + 12"
    using text_set_line[of k "fmt_u32 v hex" ls] fmt_u32_props(1)[of v hex] by linarith
  then have "\<exists>b. set_chain es (cfg_of ?ls) = Some b \<and> store_room n b"
    using Cons.prems(2,3,4) e f(2)[OF room] lookup_set_line(2)[OF Cons.prems(2) k k]
    by (intro Cons.IH) auto
  then show ?case
    using f(1)[OF room] e by (cases hex) (auto simp: bootcfg_buf_set_u32_def bootcfg_buf_set_hex32_def)
qed (auto simp: store_room_def)

lemma remove_key:
  assumes "store_room n b" "key_valid key" "bootcfg_buf_remove b key = (r, b')"
  shows "store_room n b'" "\<And>k. key_valid k \<Longrightarrow> store_val b' k = (if k = key then None else store_val b k)"
proof -
  obtain ls where ls: "lines_ok ls" "keys_unique ls" "b = cfg_of ls"
    "MAGIC_LEN + length (text_of ls) + n < SECTOR_SIZE"
    using assms(1) by (auto simp: store_room_def)
  have "b' = cfg_of (remove_line key ls)" using assms(3) remove_refines[OF ls(1) assms(2)] ls(3) by simp
  then show "store_room n b'"
    using remove_line_ok(1)[OF ls(1), of key] remove_line_ok(2)[of key ls] keys_unique_remove[OF ls(2)] ls(4)
    unfolding store_room_def by (intro exI[of _ "remove_line key ls"]) auto
  show "store_val b' k = (if k = key then None else store_val b k)" if "key_valid k" for k
    using cfg.del_law[OF store_room_ok[OF assms(1)] assms(2,3)] that by blast
qed

lemma get_u32_cong:
  assumes "store_ok b" "store_ok b'" "key_valid k" "store_val b' k = store_val b k"
  shows "bootcfg_buf_get_u32 b' k def = bootcfg_buf_get_u32 b k def"
  using get_u32_val[OF assms(1,3)] get_u32_val[OF assms(2,3)] assms(4) by simp

lemma bootcfg_set_number:
  assumes "store_room (n + length key + 12) (g_cfg c)" "key_valid key"
  obtains b' where "bootcfg_set_u32 c key v = (0, c\<lparr>g_cfg := b'\<rparr>)" "store_room n b'"
    "\<And>k. key_valid k \<Longrightarrow> store_val b' k = (if k = key then Some (fmt_u32 v False) else store_val (g_cfg c) k)"
    "\<And>k. key_valid k \<Longrightarrow> bootcfg_buf_get_u32 b' k def = (if k = key then v else bootcfg_buf_get_u32 (g_cfg c) k def)"
proof -
  obtain b' where b: "bootcfg_buf_set (g_cfg c) key (fmt_u32 v False) = (0, b')" "store_room n b'"
    "\<And>k. key_valid k \<Longrightarrow> store_val b' k = (if k = key then Some (fmt_u32 v False) else store_val (g_cfg c) k)"
    using set_number[OF assms, of v False] by blast
  have "bootcfg_buf_get_u32 b' k def = (if k = key then v else bootcfg_buf_get_u32 (g_cfg c) k def)" if k: "key_valid k" for k
    using get_u32_of_fmt[OF store_room_ok[OF b(2)] k, of v False def] b(3)[OF k]
      get_u32_cong[OF store_room_ok[OF assms(1)] store_room_ok[OF b(2)] k]
    by (cases "k = key") simp_all
  then show ?thesis
    using that b by (simp add: bootcfg_set_u32_def bootcfg_buf_set_u32_def)
qed

section \<open>A machine with a configuration sector\<close>

definition cfg_disk :: "nat \<Rightarrow> disk \<Rightarrow> bool" where
  "cfg_disk n d \<longleftrightarrow> reliable d \<and> guard_sector (sectors d 0) \<and> store_room n (sectors d 1)"

lemma cfg_disk_update:
  "cfg_disk n d \<Longrightarrow> store_room m b \<Longrightarrow> cfg_disk m (d\<lparr>sectors := (sectors d)(1 := b), ios := i\<rparr>)"
  by (simp add: cfg_disk_def)

lemma bootcfg_read_cfg:
  assumes "cfg_disk n d"
  shows "bootcfg_read d = (1, \<lparr>g_cfg = sectors d 1, g_available = True\<rparr>, d\<lparr>ios := Suc (Suc (ios d))\<rparr>)"
proof -
  obtain ls where "sectors d 1 = cfg_of ls" "lines_ok ls" using assms by (auto simp: cfg_disk_def store_room_def)
  then show ?thesis using bootcfg_read_reliable[of d ls] assms by (simp add: cfg_disk_def)
qed

lemma bootcfg_write_cfg:
  assumes "reliable d" "g_available c" "store_ok (g_cfg c)"
  shows "bootcfg_write c d = (0, c, d\<lparr>sectors := (sectors d)(1 := g_cfg c), ios := Suc (ios d)\<rparr>)"
proof -
  obtain ls where "g_cfg c = cfg_of ls" "lines_ok ls" using assms(3) by (auto simp: store_ok_def)
  then show ?thesis using bootcfg_write_reliable[OF assms(1,2)] by simp
qed

text \<open>The two outcomes of the boot decision on such a machine.\<close>

lemma boot_decide_safe:
  assumes "cfg_disk n d" "bootcfg_buf_get_u32 (sectors d 1) K_PENDING 0 = 1
      \<or> bootcfg_buf_get_u32 (sectors d 1) KEY_FAIL_COUNT 0 \<ge> 3 \<or> requested"
  shows "boot_decide True requested d =
     (Some (if bootcfg_buf_get_u32 (sectors d 1) K_PENDING 0 = 1 then SAFEMODE_REASON_CRASH
            else if requested then SAFEMODE_REASON_REQUESTED else SAFEMODE_REASON_FAIL_COUNT),
      \<lparr>g_cfg = sectors d 1, g_available = True\<rparr>, d\<lparr>ios := Suc (Suc (ios d))\<rparr>)"
  using assms(2) unfolding boot_decide_def
  by (auto simp: bootcfg_read_cfg[OF assms(1)] crash_record_load_def bootcfg_get_u32_def
      BOOTCFG_FAIL_THRESHOLD_def Let_def)

lemma boot_decide_normal:
  assumes "cfg_disk (n + 27) d" "bootcfg_buf_get_u32 (sectors d 1) K_PENDING 0 \<noteq> 1"
    "bootcfg_buf_get_u32 (sectors d 1) KEY_FAIL_COUNT 0 < 3"
  obtains b' where "boot_decide True False d = (None, \<lparr>g_cfg = b', g_available = True\<rparr>,
      d\<lparr>sectors := (sectors d)(1 := b'), ios := Suc (Suc (Suc (ios d)))\<rparr>)" "store_room n b'"
    "\<And>k. key_valid k \<Longrightarrow> k \<noteq> KEY_FAIL_COUNT \<Longrightarrow> store_val b' k = store_val (sectors d 1) k"
    "\<And>k. key_valid k \<Longrightarrow> bootcfg_buf_get_u32 b' k 0 =
       (if k = KEY_FAIL_COUNT then bootcfg_buf_get_u32 (sectors d 1) KEY_FAIL_COUNT 0 + 1
        else bootcfg_buf_get_u32 (sectors d 1) k 0)"
proof -
  let ?c = "\<lparr>g_cfg = sectors d 1, g_available = True\<rparr>" and ?f = "bootcfg_buf_get_u32 (sectors d 1) KEY_FAIL_COUNT 0"
  have "length KEY_FAIL_COUNT = 15" by (simp add: KEY_FAIL_COUNT_def bytes_def)
  then have "store_room (n + length KEY_FAIL_COUNT + 12) (g_cfg ?c)" using assms(1) by (simp add: cfg_disk_def ac_simps)
  from bootcfg_set_number[OF this keys_valid(7), of "?f + 1" 0] obtain b' where b:
    "bootcfg_set_u32 ?c KEY_FAIL_COUNT (?f + 1) = (0, ?c\<lparr>g_cfg := b'\<rparr>)" "store_room n b'"
    "\<And>k. key_valid k \<Longrightarrow> store_val b' k = (if k = KEY_FAIL_COUNT then Some (fmt_u32 (?f + 1) False) else store_val (sectors d 1) k)"
    "\<And>k. key_valid k \<Longrightarrow> bootcfg_buf_get_u32 b' k 0 = (if k = KEY_FAIL_COUNT then ?f + 1 else bootcfg_buf_get_u32 (sectors d 1) k 0)"
    by (simp only: bootcfg.simps) blast
  have rel: "reliable d" using assms(1) by (simp add: cfg_disk_def)
  have w: "bootcfg_write \<lparr>g_cfg = b', g_available = True\<rparr> (d\<lparr>ios := Suc (Suc (ios d))\<rparr>)
     = (0, \<lparr>g_cfg = b', g_available = True\<rparr>, d\<lparr>sectors := (sectors d)(1 := b'), ios := Suc (Suc (Suc (ios d)))\<rparr>)"
    using bootcfg_write_cfg[of "d\<lparr>ios := Suc (Suc (ios d))\<rparr>" "\<lparr>g_cfg = b', g_available = True\<rparr>"]
      rel store_room_ok[OF b(2)] by simp
  have nc: "\<not> (case crash_record_load ?c of None \<Rightarrow> False | Some r \<Rightarrow> cr_state r = 1)"
    using assms(2) by (simp add: crash_record_load_def bootcfg_get_u32_def Let_def)
  have "boot_decide True False d = (None, \<lparr>g_cfg = b', g_available = True\<rparr>,
      d\<lparr>sectors := (sectors d)(1 := b'), ios := Suc (Suc (Suc (ios d)))\<rparr>)"
    using nc assms(3) b(1) w unfolding boot_decide_def
    by (simp add: bootcfg_read_cfg[OF assms(1)] bootcfg_get_u32_def BOOTCFG_FAIL_THRESHOLD_def Let_def)
  then show ?thesis using that b(2-4) by auto
qed

text \<open>Saving a crash record.\<close>

lemma crash_save_cfg:
  assumes "cfg_disk (n + crash_room) d" "g_available c"
  obtains b' where "crash_save info c d = (True, d\<lparr>sectors := (sectors d)(1 := b'), ios := Suc (Suc (ios d))\<rparr>)"
    "store_room n b'" "set_chain (crash_entries info) (sectors d 1) = Some b'"
proof -
  obtain ls where ls: "sectors d 1 = cfg_of ls" "lines_ok ls" "keys_unique ls"
    "MAGIC_LEN + length (text_of ls) + (n + crash_room) < SECTOR_SIZE"
    using assms(1) by (auto simp: cfg_disk_def store_room_def)
  have "\<forall>(k, v, hex) \<in> set (crash_entries info). key_valid k" by (simp add: crash_entries_def keys_valid)
  from set_chain_fits[OF ls(2,3) this, of n] ls(4) obtain b' where
    b: "set_chain (crash_entries info) (cfg_of ls) = Some b'" "store_room n b'"
    by (auto simp: crash_entries_room ac_simps)
  show ?thesis
    using that crash_save_reliable[OF _ assms(2) ls(1,2) b(1)] assms(1) b ls(1) by (simp add: cfg_disk_def)
qed

lemma set_pending_crash:
  assumes "store_ok b" "set_chain (crash_entries info) b = Some b'"
  shows "crash_record_load \<lparr>g_cfg = b', g_available = a\<rparr> = Some \<lparr>cr_state = 1, cr_info = info\<rparr>"
    "bootcfg_buf_get_u32 b' K_PENDING 0 = 1"
proof -
  note v = crash_chain_values[OF assms]
  note g = get_u32_of_fmt[OF v(1) keys_valid(1) v(2)] get_u32_of_fmt[OF v(1) keys_valid(2) v(3)]
    get_u32_of_fmt[OF v(1) keys_valid(3) v(4)] get_u32_of_fmt[OF v(1) keys_valid(4) v(5)]
    get_u32_of_fmt[OF v(1) keys_valid(5) v(6)] get_u32_of_fmt[OF v(1) keys_valid(6) v(7)]
  show "crash_record_load \<lparr>g_cfg = b', g_available = a\<rparr> = Some \<lparr>cr_state = 1, cr_info = info\<rparr>"
    by (simp add: crash_record_load_def bootcfg_get_u32_def g)
  show "bootcfg_buf_get_u32 b' K_PENDING 0 = 1" by (rule g(1))
qed

lemma remove_all_keys:
  assumes "store_room n (g_cfg c)" "\<forall>k \<in> set ks. key_valid k"
  shows "store_room n (g_cfg (fold (\<lambda>k c. snd (bootcfg_remove c k)) ks c))
     \<and> fold (\<lambda>k c. snd (bootcfg_remove c k)) ks c = c\<lparr>g_cfg := g_cfg (fold (\<lambda>k c. snd (bootcfg_remove c k)) ks c)\<rparr>
     \<and> (\<forall>k. key_valid k \<longrightarrow> store_val (g_cfg (fold (\<lambda>k c. snd (bootcfg_remove c k)) ks c)) k
          = (if k \<in> set ks then None else store_val (g_cfg c) k))"
  using assms
proof (induction ks arbitrary: c)
  case (Cons a ks)
  obtain r b' where b: "bootcfg_buf_remove (g_cfg c) a = (r, b')" by fastforce
  then have c: "snd (bootcfg_remove c a) = c\<lparr>g_cfg := b'\<rparr>" by (simp add: bootcfg_remove_def)
  have a: "key_valid a" "\<forall>k \<in> set ks. key_valid k" using Cons.prems(2) by simp_all
  note r = remove_key[OF Cons.prems(1) a(1) b]
  show ?case using Cons.IH[of "c\<lparr>g_cfg := b'\<rparr>"] r a(2) c by auto
qed simp

text \<open>"Reboot normally" and the boot confirmation write back a store with the counter at 0.\<close>

lemma reboot_normally_cfg:
  assumes "cfg_disk m d" "g_available c" "store_room (n + 52) (g_cfg c)"
  obtains b' where "reboot_normally c d = (c\<lparr>g_cfg := b'\<rparr>, d\<lparr>sectors := (sectors d)(1 := b'), ios := Suc (ios d)\<rparr>)"
    "store_room n b'"
    "\<And>k. key_valid k \<Longrightarrow> bootcfg_buf_get_u32 b' k 0 = (if k = KEY_FAIL_COUNT then 0
        else if k = K_PENDING \<and> bootcfg_buf_get_u32 (g_cfg c) K_PENDING 0 = 1 then 2
        else bootcfg_buf_get_u32 (g_cfg c) k 0)"
    "\<And>k. key_valid k \<Longrightarrow> k \<notin> {KEY_FAIL_COUNT, K_PENDING} \<Longrightarrow> store_val b' k = store_val (g_cfg c) k"
proof -
  have len: "length KEY_FAIL_COUNT = 15" "length K_PENDING = 13"
    by (simp_all add: KEY_FAIL_COUNT_def K_PENDING_def bytes_def)
  have ne: "KEY_FAIL_COUNT \<noteq> K_PENDING" using keys_distinct by (simp add: crash_keys_def)
  have "store_room ((n + 25) + length KEY_FAIL_COUNT + 12) (g_cfg c)" using assms(3) len by (simp add: ac_simps)
  from bootcfg_set_number[OF this keys_valid(7), of 0 0] obtain b1 where b1:
    "bootcfg_set_u32 c KEY_FAIL_COUNT 0 = (0, c\<lparr>g_cfg := b1\<rparr>)" "store_room (n + 25) b1"
    "\<And>k. key_valid k \<Longrightarrow> store_val b1 k = (if k = KEY_FAIL_COUNT then Some (fmt_u32 0 False) else store_val (g_cfg c) k)"
    "\<And>k. key_valid k \<Longrightarrow> bootcfg_buf_get_u32 b1 k 0 = (if k = KEY_FAIL_COUNT then 0 else bootcfg_buf_get_u32 (g_cfg c) k 0)"
    by blast
  have "store_room (n + length K_PENDING + 12) (g_cfg (c\<lparr>g_cfg := b1\<rparr>))" using b1(2) len by (simp add: ac_simps)
  then obtain b2 where r2: "bootcfg_set_u32 (c\<lparr>g_cfg := b1\<rparr>) K_PENDING 2 = (0, c\<lparr>g_cfg := b1\<rparr>\<lparr>g_cfg := b2\<rparr>)" "store_room n b2"
    "\<And>k. key_valid k \<Longrightarrow> store_val b2 k = (if k = K_PENDING then Some (fmt_u32 2 False) else store_val (g_cfg (c\<lparr>g_cfg := b1\<rparr>)) k)"
    "\<And>k. key_valid k \<Longrightarrow> bootcfg_buf_get_u32 b2 k 0 = (if k = K_PENDING then 2 else bootcfg_buf_get_u32 (g_cfg (c\<lparr>g_cfg := b1\<rparr>)) k 0)"
    by (rule bootcfg_set_number[OF _ keys_valid(1), of n _ 2 0]) blast
  then have b2: "bootcfg_set_u32 (c\<lparr>g_cfg := b1\<rparr>) K_PENDING 2 = (0, c\<lparr>g_cfg := b2\<rparr>)" "store_room n b2"
    "\<And>k. key_valid k \<Longrightarrow> store_val b2 k = (if k = K_PENDING then Some (fmt_u32 2 False) else store_val b1 k)"
    "\<And>k. key_valid k \<Longrightarrow> bootcfg_buf_get_u32 b2 k 0 = (if k = K_PENDING then 2 else bootcfg_buf_get_u32 b1 k 0)"
    by simp_all
  define b' where "b' = (if bootcfg_buf_get_u32 (g_cfg c) K_PENDING 0 = 1 then b2 else b1)"
  have "b1 = g_cfg (c\<lparr>g_cfg := b1\<rparr>)" by simp
  have ack: "crash_record_acknowledge (snd (bootcfg_set_u32 c KEY_FAIL_COUNT 0)) = c\<lparr>g_cfg := b'\<rparr>"
    using b1(1) b2(1) b1(4)[OF keys_valid(1)] ne
    by (simp add: crash_record_acknowledge_def bootcfg_get_u32_def b'_def)
  have room: "store_room n b'" using b1(2) b2(2) store_room_mono by (simp add: b'_def)
  have w: "bootcfg_write (c\<lparr>g_cfg := b'\<rparr>) d = (0, c\<lparr>g_cfg := b'\<rparr>, d\<lparr>sectors := (sectors d)(1 := b'), ios := Suc (ios d)\<rparr>)"
    using bootcfg_write_cfg[of d "c\<lparr>g_cfg := b'\<rparr>"] assms(1,2) store_room_ok[OF room] by (simp add: cfg_disk_def)
  show ?thesis
    by (rule that[OF _ room]) (use ack w b1(3,4) b2(3,4) ne in \<open>auto simp: reboot_normally_def b'_def\<close>)
qed

lemma boot_considered_up_cfg:
  assumes "cfg_disk m d" "g_available c" "store_room (n + 27) (g_cfg c)"
  obtains b' where "boot_considered_up False c d =
      (True, c\<lparr>g_cfg := b'\<rparr>, d\<lparr>sectors := (sectors d)(1 := b'), ios := Suc (ios d)\<rparr>)" "store_room n b'"
    "bootcfg_buf_get_u32 b' KEY_FAIL_COUNT 0 = 0"
    "\<And>k. key_valid k \<Longrightarrow> k \<noteq> KEY_FAIL_COUNT \<Longrightarrow> store_val b' k =
       (if k \<in> set crash_keys \<and> bootcfg_buf_get_u32 (g_cfg c) K_PENDING 0 = 2 then None else store_val (g_cfg c) k)"
proof -
  have len: "length KEY_FAIL_COUNT = 15" by (simp add: KEY_FAIL_COUNT_def bytes_def)
  have ne: "KEY_FAIL_COUNT \<noteq> K_PENDING" "KEY_FAIL_COUNT \<notin> set crash_keys"
    using keys_distinct by (simp_all add: crash_keys_def)
  have "store_room (n + length KEY_FAIL_COUNT + 12) (g_cfg c)" using assms(3) len by (simp add: ac_simps)
  from bootcfg_set_number[OF this keys_valid(7), of 0 0] obtain b1 where b1:
    "bootcfg_set_u32 c KEY_FAIL_COUNT 0 = (0, c\<lparr>g_cfg := b1\<rparr>)" "store_room n b1"
    "\<And>k. key_valid k \<Longrightarrow> store_val b1 k = (if k = KEY_FAIL_COUNT then Some (fmt_u32 0 False) else store_val (g_cfg c) k)"
    "\<And>k. key_valid k \<Longrightarrow> bootcfg_buf_get_u32 b1 k 0 = (if k = KEY_FAIL_COUNT then 0 else bootcfg_buf_get_u32 (g_cfg c) k 0)"
    by blast
  let ?c = "c\<lparr>g_cfg := b1\<rparr>"
  let ?r = "fold (\<lambda>k c. snd (bootcfg_remove c k)) crash_keys ?c"
  have kv: "\<forall>k \<in> set crash_keys. key_valid k" by (simp add: crash_keys_def keys_valid)
  have room1: "store_room n (g_cfg ?c)" using b1(2) by simp
  have rem: "store_room n (g_cfg ?r)" and rc: "?r = c\<lparr>g_cfg := g_cfg ?r\<rparr>"
    and rv: "\<And>k. key_valid k \<Longrightarrow> store_val (g_cfg ?r) k = (if k \<in> set crash_keys then None else store_val b1 k)"
    using remove_all_keys[OF room1 kv] by simp_all
  define b' where "b' = (if bootcfg_buf_get_u32 (g_cfg c) K_PENDING 0 = 2 then g_cfg ?r else b1)"
  have clear: "snd (crash_record_clear_if_acknowledged (snd (bootcfg_set_u32 c KEY_FAIL_COUNT 0))) = c\<lparr>g_cfg := b'\<rparr>"
    using b1(1) b1(4)[OF keys_valid(1)] ne(1) rc unfolding crash_record_clear_if_acknowledged_def bootcfg_get_u32_def b'_def crash_keys_def
    by simp
  have room: "store_room n b'" using rem b1(2) by (simp add: b'_def)
  have w: "bootcfg_write (c\<lparr>g_cfg := b'\<rparr>) d = (0, c\<lparr>g_cfg := b'\<rparr>, d\<lparr>sectors := (sectors d)(1 := b'), ios := Suc (ios d)\<rparr>)"
    using bootcfg_write_cfg[of d "c\<lparr>g_cfg := b'\<rparr>"] assms(1,2) store_room_ok[OF room] by (simp add: cfg_disk_def)
  have v: "store_val b' k = (if k \<in> set crash_keys \<and> bootcfg_buf_get_u32 (g_cfg c) K_PENDING 0 = 2 then None else store_val b1 k)"
    if "key_valid k" for k
    using rv[OF that] by (simp add: b'_def)
  have "store_val b' KEY_FAIL_COUNT = Some (fmt_u32 0 False)"
    using v[OF keys_valid(7)] b1(3)[OF keys_valid(7)] ne(2) by simp
  then have z: "bootcfg_buf_get_u32 b' KEY_FAIL_COUNT 0 = 0"
    by (rule get_u32_of_fmt[OF store_room_ok[OF room] keys_valid(7)])
  show ?thesis
    by (rule that[OF _ room z]) (use clear w assms(2) v b1(3) in \<open>simp_all add: boot_considered_up_def\<close>)
qed

text \<open>A boot that is never confirmed.\<close>

definition unconfirmed_boot :: "disk \<Rightarrow> disk" where
  "unconfirmed_boot d = snd (snd (boot_decide True False d))"

lemma unconfirmed_boots:
  assumes "cfg_disk (27 * 3) d" "bootcfg_buf_get_u32 (sectors d 1) K_PENDING 0 \<noteq> 1"
    "bootcfg_buf_get_u32 (sectors d 1) KEY_FAIL_COUNT 0 = 0"
  shows "cfg_disk (27 * (3 - j)) ((unconfirmed_boot ^^ j) d)
     \<and> bootcfg_buf_get_u32 (sectors ((unconfirmed_boot ^^ j) d) 1) KEY_FAIL_COUNT 0 = of_nat (min j 3)
     \<and> bootcfg_buf_get_u32 (sectors ((unconfirmed_boot ^^ j) d) 1) K_PENDING 0 \<noteq> 1
     \<and> (\<forall>k. key_valid k \<and> k \<noteq> KEY_FAIL_COUNT \<longrightarrow>
          store_val (sectors ((unconfirmed_boot ^^ j) d) 1) k = store_val (sectors d 1) k)"
proof (induction j)
  case (Suc j)
  let ?d = "(unconfirmed_boot ^^ j) d"
  show ?case
  proof (cases "j < 3")
    case True
    have "27 * (3 - j) = 27 * (3 - Suc j) + 27" using True by auto
    then have c: "cfg_disk (27 * (3 - Suc j) + 27) ?d" using Suc by (simp only:)
    have f: "bootcfg_buf_get_u32 (sectors ?d 1) KEY_FAIL_COUNT 0 = of_nat j" using Suc True by simp
    have lt: "bootcfg_buf_get_u32 (sectors ?d 1) KEY_FAIL_COUNT 0 < 3"
      using True f by (simp add: word_less_nat_alt unat_of_nat)
    have ne: "K_PENDING \<noteq> KEY_FAIL_COUNT" using keys_distinct by (auto simp: crash_keys_def)
    obtain b' where b: "boot_decide True False ?d = (None, \<lparr>g_cfg = b', g_available = True\<rparr>,
        ?d\<lparr>sectors := (sectors ?d)(1 := b'), ios := Suc (Suc (Suc (ios ?d)))\<rparr>)" "store_room (27 * (3 - Suc j)) b'"
      "\<And>k. key_valid k \<Longrightarrow> k \<noteq> KEY_FAIL_COUNT \<Longrightarrow> store_val b' k = store_val (sectors ?d 1) k"
      "\<And>k. key_valid k \<Longrightarrow> bootcfg_buf_get_u32 b' k 0 =
         (if k = KEY_FAIL_COUNT then bootcfg_buf_get_u32 (sectors ?d 1) KEY_FAIL_COUNT 0 + 1
          else bootcfg_buf_get_u32 (sectors ?d 1) k 0)"
      using Suc by (blast intro: boot_decide_normal[OF c _ lt])
    have step: "(unconfirmed_boot ^^ Suc j) d = ?d\<lparr>sectors := (sectors ?d)(1 := b'), ios := Suc (Suc (Suc (ios ?d)))\<rparr>"
      using b(1) by (simp add: unconfirmed_boot_def)
    have "min (Suc j) 3 = Suc j" using True by simp
    then show ?thesis unfolding step
      using cfg_disk_update[OF c b(2)] b(3) b(4)[OF keys_valid(7)] b(4)[OF keys_valid(1)] ne f Suc
      by (simp add: add.commute)
  next
    case False
    then have "boot_decide True False ?d = (Some (if bootcfg_buf_get_u32 (sectors ?d 1) K_PENDING 0 = 1 then SAFEMODE_REASON_CRASH
            else if False then SAFEMODE_REASON_REQUESTED else SAFEMODE_REASON_FAIL_COUNT),
      \<lparr>g_cfg = sectors ?d 1, g_available = True\<rparr>, ?d\<lparr>ios := Suc (Suc (ios ?d))\<rparr>)"
      using Suc by (intro boot_decide_safe) (auto simp: min_def)
    then have "(unconfirmed_boot ^^ Suc j) d = ?d\<lparr>ios := Suc (Suc (ios ?d))\<rparr>" by (simp add: unconfirmed_boot_def)
    then show ?thesis using Suc False by (simp add: cfg_disk_def min_def)
  qed
qed (use assms in auto)

text \<open>A disk that never fails, with the reserved region \<open>guard_ok\<close> asks for and an empty store.\<close>

definition fresh_disk :: disk where
  "fresh_disk = \<lparr>sectors = (\<lambda>lba. if lba = 0 then (replicate 512 0)[12 := 2, 14 := 4] else if lba = 1 then cfg_reset
      else replicate 512 0), outcome = (\<lambda>_. IoOk), ios = 0\<rparr>"

lemma fresh_disk_store: "sectors fresh_disk 1 = cfg_of []" "n < 400 \<Longrightarrow> store_room n (cfg_of [])"
  by (auto simp: fresh_disk_def cfg_reset_lines store_room_def lines_ok_def MAGIC_LEN_def SECTOR_SIZE_def intro!: exI[of _ "[]"])

lemma fresh_disk_cfg: "n < 400 \<Longrightarrow> cfg_disk n fresh_disk"
  unfolding cfg_disk_def fresh_disk_store(1)
  using fresh_disk_store(2) by (simp add: fresh_disk_def reliable_def guard_sector_def BOOTCFG_LBA_def)

lemma fresh_disk_unset:
  assumes "key_valid k"
  shows "bootcfg_buf_get_u32 (sectors fresh_disk 1) k 0 = 0"
  using get_u32_val[OF store_room_ok[OF fresh_disk_store(2)[of 0]] assms, of 0] store_val_cfg_of[of "[]" k] assms
  by (simp add: fresh_disk_store(1) lines_ok_def MAGIC_LEN_def SECTOR_SIZE_def)

lemma crash_room_value: "crash_room = 133"
  by (simp add: crash_room_def crash_keys_def K_PENDING_def K_TYPE_def K_EIP_def K_ERR_def K_CR2_def K_TICKS_def bytes_def)

section \<open>Properties\<close>

text \<open>
  C18. A crash record survives the crash: on a reliable disk with a configuration sector that has
  room for the six entries, \<open>crash_save\<close> reports success, the next boot enters Safe Mode because of
  the crash whatever the failure counter and the command line say, the record loaded there is
  unacknowledged and holds exactly the saved fault data, and every other key keeps its value.
\<close>

theorem crash_record_survives:
  assumes "cfg_disk crash_room d" "g_available c"
  shows "\<exists>d' c' d''. crash_save info c d = (True, d') \<and> boot_decide True requested d' = (Some SAFEMODE_REASON_CRASH, c', d'')
     \<and> crash_record_load c' = Some \<lparr>cr_state = 1, cr_info = info\<rparr>
     \<and> (\<forall>k. key_valid k \<and> k \<notin> set crash_keys \<longrightarrow> store_val (g_cfg c') k = store_val (sectors d 1) k)"
proof -
  have "cfg_disk (0 + crash_room) d" using assms(1) by simp
  then obtain b' where b: "crash_save info c d = (True, d\<lparr>sectors := (sectors d)(1 := b'), ios := Suc (Suc (ios d))\<rparr>)"
    "store_room 0 b'" "set_chain (crash_entries info) (sectors d 1) = Some b'"
    by (rule crash_save_cfg[OF _ assms(2)])
  have ok: "store_ok (sectors d 1)" using assms(1) store_room_ok by (auto simp: cfg_disk_def)
  let ?d = "d\<lparr>sectors := (sectors d)(1 := b'), ios := Suc (Suc (ios d))\<rparr>"
  have "boot_decide True requested ?d = (Some SAFEMODE_REASON_CRASH, \<lparr>g_cfg = b', g_available = True\<rparr>, ?d\<lparr>ios := Suc (Suc (ios ?d))\<rparr>)"
    using boot_decide_safe[OF cfg_disk_update[OF assms(1) b(2)], of _ requested] set_pending_crash(2)[OF ok b(3)]
    by simp
  then show ?thesis using b(1) set_pending_crash(1)[OF ok b(3)] crash_chain_values(8)[OF ok b(3)] by fastforce
qed

theorem crash_record_survives_witness:
  "\<exists>d' c' d''. crash_save \<lparr>ci_int_no = 14, ci_eip = 0x101234, ci_err_code = 2, ci_cr2 = 0xDEADBEEF, ci_ticks = 777\<rparr>
       \<lparr>g_cfg = cfg_reset, g_available = True\<rparr> fresh_disk = (True, d')
     \<and> boot_decide True False d' = (Some SAFEMODE_REASON_CRASH, c', d'')
     \<and> map_option (ci_cr2 \<circ> cr_info) (crash_record_load c') = Some 0xDEADBEEF"
  using crash_record_survives[of fresh_disk "\<lparr>g_cfg = cfg_reset, g_available = True\<rparr>"
      "\<lparr>ci_int_no = 14, ci_eip = 0x101234, ci_err_code = 2, ci_cr2 = 0xDEADBEEF, ci_ticks = 777\<rparr>" False]
    fresh_disk_cfg[of crash_room] by (fastforce simp: crash_room_value)

text \<open>
  C19. Three strikes: on a reliable disk whose counter is 0 and that holds no unacknowledged crash,
  the first three boots that are never confirmed boot normally, and the fourth and every later one
  enter Safe Mode because of the failure counter; no other key of the store ever changes.
\<close>

theorem boot_failures_enter_safe_mode:
  assumes "cfg_disk (27 * 3) d" "bootcfg_buf_get_u32 (sectors d 1) K_PENDING 0 \<noteq> 1"
    "bootcfg_buf_get_u32 (sectors d 1) KEY_FAIL_COUNT 0 = 0"
  shows "fst (boot_decide True False ((unconfirmed_boot ^^ j) d)) = (if j < 3 then None else Some SAFEMODE_REASON_FAIL_COUNT)
     \<and> (\<forall>k. key_valid k \<and> k \<noteq> KEY_FAIL_COUNT \<longrightarrow>
          store_val (sectors ((unconfirmed_boot ^^ j) d) 1) k = store_val (sectors d 1) k)"
proof -
  let ?d = "(unconfirmed_boot ^^ j) d"
  have inv: "cfg_disk (27 * (3 - j)) ?d" "bootcfg_buf_get_u32 (sectors ?d 1) KEY_FAIL_COUNT 0 = of_nat (min j 3)"
    "bootcfg_buf_get_u32 (sectors ?d 1) K_PENDING 0 \<noteq> 1"
    "\<forall>k. key_valid k \<and> k \<noteq> KEY_FAIL_COUNT \<longrightarrow> store_val (sectors ?d 1) k = store_val (sectors d 1) k"
    using unconfirmed_boots[OF assms, of j] by blast+
  have "fst (boot_decide True False ?d) = (if j < 3 then None else Some SAFEMODE_REASON_FAIL_COUNT)"
  proof (cases "j < 3")
    case True
    have "27 * (3 - j) = 27 * (3 - Suc j) + 27" using True by auto
    then have c: "cfg_disk (27 * (3 - Suc j) + 27) ?d" using inv(1) by (simp only:)
    have "bootcfg_buf_get_u32 (sectors ?d 1) KEY_FAIL_COUNT 0 < 3"
      using True inv(2) by (simp add: word_less_nat_alt unat_of_nat)
    from boot_decide_normal[OF c inv(3) this] show ?thesis using True by (metis fst_conv)
  next
    case False
    then show ?thesis using boot_decide_safe[OF inv(1), of False] inv(2,3) by (simp add: min_def)
  qed
  then show ?thesis using inv(4) by blast
qed

theorem boot_failures_enter_safe_mode_witness:
  "fst (boot_decide True False ((unconfirmed_boot ^^ 2) fresh_disk)) = None
   \<and> fst (boot_decide True False ((unconfirmed_boot ^^ 3) fresh_disk)) = Some SAFEMODE_REASON_FAIL_COUNT"
  using boot_failures_enter_safe_mode[of fresh_disk 2] boot_failures_enter_safe_mode[of fresh_disk 3]
    fresh_disk_cfg[of 81] fresh_disk_unset keys_valid by simp

text \<open>
  C20. The crash cycle ends: after a saved crash, Safe Mode, "reboot normally" and a normal boot
  whose first prompt appears, the boot after the reboot is normal and still shows the record as
  acknowledged with the same fault data; once confirmed, the record is gone, the failure counter
  is 0, and every other key of the store has the value it had before the crash.
\<close>

theorem crash_cycle_ends:
  assumes "cfg_disk (crash_room + 106) d" "g_available c"
    "crash_save info c d = (saved, d1)" "boot_decide True requested d1 = (r1, c1, d2)"
    "reboot_normally c1 d2 = (c2, d3)" "boot_decide True False d3 = (r2, c3, d4)"
    "boot_considered_up False c3 d4 = (up, c4, d5)"
  shows "r2 = None \<and> crash_record_load c3 = Some \<lparr>cr_state = 2, cr_info = info\<rparr>
     \<and> crash_record_load c4 = None \<and> bootcfg_get_u32 c4 KEY_FAIL_COUNT 0 = 0 \<and> sectors d5 1 = g_cfg c4
     \<and> (\<forall>k. key_valid k \<and> k \<noteq> KEY_FAIL_COUNT \<and> k \<notin> set crash_keys \<longrightarrow> store_val (g_cfg c4) k = store_val (sectors d 1) k)"
proof -
  have "cfg_disk (106 + crash_room) d" using assms(1) by (simp add: ac_simps)
  then obtain b1 where b1: "crash_save info c d = (True, d\<lparr>sectors := (sectors d)(1 := b1), ios := Suc (Suc (ios d))\<rparr>)"
    "store_room 106 b1" "set_chain (crash_entries info) (sectors d 1) = Some b1"
    by (rule crash_save_cfg[OF _ assms(2)])
  have ok: "store_ok (sectors d 1)" using assms(1) store_room_ok by (auto simp: cfg_disk_def)
  have ne: "K_PENDING \<noteq> KEY_FAIL_COUNT" using keys_distinct by (auto simp: crash_keys_def)
  have d1: "cfg_disk 106 d1" "sectors d1 1 = b1"
    using b1(1) assms(3) cfg_disk_update[OF assms(1) b1(2)] by auto
  note val1 = crash_chain_values[OF ok b1(3)] and pend1 = set_pending_crash(2)[OF ok b1(3)]
  have c1: "c1 = \<lparr>g_cfg = b1, g_available = True\<rparr>" "d2 = d1\<lparr>ios := Suc (Suc (ios d1))\<rparr>"
    using boot_decide_safe[OF d1(1), of requested] d1(2) pend1 assms(4) by simp_all
  have d2: "cfg_disk 106 d2" using d1(1) c1(2) by (simp add: cfg_disk_def)
  have room1: "store_room (54 + 52) (g_cfg c1)" and av1: "g_available c1" using c1 b1(2) by simp_all
  obtain b2 where b2: "reboot_normally c1 d2 = (c1\<lparr>g_cfg := b2\<rparr>, d2\<lparr>sectors := (sectors d2)(1 := b2), ios := Suc (ios d2)\<rparr>)"
    "store_room 54 b2" "\<And>k. key_valid k \<Longrightarrow> bootcfg_buf_get_u32 b2 k 0 = (if k = KEY_FAIL_COUNT then 0
        else if k = K_PENDING \<and> bootcfg_buf_get_u32 (g_cfg c1) K_PENDING 0 = 1 then 2
        else bootcfg_buf_get_u32 (g_cfg c1) k 0)"
    "\<And>k. key_valid k \<Longrightarrow> k \<notin> {KEY_FAIL_COUNT, K_PENDING} \<Longrightarrow> store_val b2 k = store_val (g_cfg c1) k"
    using reboot_normally_cfg[OF d2 av1 room1] by blast
  have d3: "cfg_disk (27 + 27) d3" "sectors d3 1 = b2" using b2(1) assms(5) cfg_disk_update[OF d2 b2(2)] by auto
  have p2: "bootcfg_buf_get_u32 b2 K_PENDING 0 = 2" "bootcfg_buf_get_u32 b2 KEY_FAIL_COUNT 0 = 0"
    using b2(3)[OF keys_valid(1)] b2(3)[OF keys_valid(7)] pend1 c1(1) ne by simp_all
  have np: "bootcfg_buf_get_u32 (sectors d3 1) K_PENDING 0 \<noteq> 1" "bootcfg_buf_get_u32 (sectors d3 1) KEY_FAIL_COUNT 0 < 3"
    using p2 d3(2) by simp_all
  obtain b3 where b3: "boot_decide True False d3 = (None, \<lparr>g_cfg = b3, g_available = True\<rparr>,
      d3\<lparr>sectors := (sectors d3)(1 := b3), ios := Suc (Suc (Suc (ios d3)))\<rparr>)" "store_room 27 b3"
    "\<And>k. key_valid k \<Longrightarrow> k \<noteq> KEY_FAIL_COUNT \<Longrightarrow> store_val b3 k = store_val (sectors d3 1) k"
    "\<And>k. key_valid k \<Longrightarrow> bootcfg_buf_get_u32 b3 k 0 =
       (if k = KEY_FAIL_COUNT then bootcfg_buf_get_u32 (sectors d3 1) KEY_FAIL_COUNT 0 + 1
        else bootcfg_buf_get_u32 (sectors d3 1) k 0)"
    using boot_decide_normal[OF d3(1) np] by blast
  have c3: "c3 = \<lparr>g_cfg = b3, g_available = True\<rparr>" "r2 = None" "cfg_disk 27 d4"
    using b3(1) assms(6) cfg_disk_update[OF d3(1) b3(2)] by auto
  have num3: "bootcfg_buf_get_u32 b3 k 0 = (if k = K_PENDING then 2 else bootcfg_buf_get_u32 b1 k 0)"
    if "k \<in> set crash_keys" for k
    using that b3(4)[of k] b2(3)[of k] d3(2) c1(1) pend1 keys_distinct keys_valid
    by (auto simp: crash_keys_def)
  have load3: "crash_record_load c3 = Some \<lparr>cr_state = 2, cr_info = info\<rparr>"
    using num3 set_pending_crash(1)[OF ok b1(3), of True] c3(1) keys_distinct
    by (auto simp: crash_record_load_def bootcfg_get_u32_def Let_def crash_keys_def split: if_splits)
  have room3: "store_room (0 + 27) (g_cfg c3)" and av3: "g_available c3" using c3(1) b3(2) by simp_all
  obtain b4 where b4: "boot_considered_up False c3 d4 =
      (True, c3\<lparr>g_cfg := b4\<rparr>, d4\<lparr>sectors := (sectors d4)(1 := b4), ios := Suc (ios d4)\<rparr>)" "store_room 0 b4"
    "bootcfg_buf_get_u32 b4 KEY_FAIL_COUNT 0 = 0"
    "\<And>k. key_valid k \<Longrightarrow> k \<noteq> KEY_FAIL_COUNT \<Longrightarrow> store_val b4 k =
       (if k \<in> set crash_keys \<and> bootcfg_buf_get_u32 (g_cfg c3) K_PENDING 0 = 2 then None else store_val (g_cfg c3) k)"
    using boot_considered_up_cfg[OF c3(3) av3 room3] by blast
  have c4: "g_cfg c4 = b4" "sectors d5 1 = b4" using b4(1) assms(7) by auto
  have "store_val b4 K_PENDING = None"
    using b4(4)[OF keys_valid(1)] num3[of K_PENDING] c3(1) ne by (simp add: crash_keys_def)
  then have "bootcfg_buf_get_u32 b4 K_PENDING 0 = 0"
    using get_u32_val[OF store_room_ok[OF b4(2)] keys_valid(1)] by simp
  then have load4: "crash_record_load c4 = None" using c4 by (simp add: crash_record_load_def bootcfg_get_u32_def)
  have "store_val b4 k = store_val (sectors d 1) k" if "key_valid k" "k \<noteq> KEY_FAIL_COUNT" "k \<notin> set crash_keys" for k
    using b4(4)[OF that(1,2)] b3(3)[OF that(1,2)] b2(4)[OF that(1)] val1(8)[OF that(1,3)] that c3(1) d3(2) c1(1)
    by (simp add: crash_keys_def)
  then show ?thesis using c3(2) load3 load4 b4(3) c4 by (simp add: bootcfg_get_u32_def)
qed

theorem crash_cycle_ends_witness:
  "let d1 = snd (crash_save \<lparr>ci_int_no = 13, ci_eip = 0x100500, ci_err_code = 0, ci_cr2 = 0, ci_ticks = 42\<rparr>
                   \<lparr>g_cfg = cfg_reset, g_available = True\<rparr> fresh_disk);
       b1 = boot_decide True False d1;
       d3 = snd (reboot_normally (fst (snd b1)) (snd (snd b1)));
       b2 = boot_decide True False d3
   in fst b2 = None \<and> map_option cr_state (crash_record_load (fst (snd b2))) = Some 2"
proof -
  have three: "p = (fst p, fst (snd p), snd (snd p))" for p :: "'x \<times> 'y \<times> 'z" by simp
  show ?thesis
    using crash_cycle_ends[OF fresh_disk_cfg _ prod.collapse[symmetric] three prod.collapse[symmetric] three three,
        where c = "\<lparr>g_cfg = cfg_reset, g_available = True\<rparr>" and requested = False
          and info = "\<lparr>ci_int_no = 13, ci_eip = 0x100500, ci_err_code = 0, ci_cr2 = 0, ci_ticks = 42\<rparr>"]
    by (simp add: crash_room_value Let_def)
qed

end
