(* ===== verification/Fat16.thy ===== *)
theory Fat16
  imports Allocator Disk "HOL-Library.Monad_Syntax"
begin

text \<open>
  The FAT16 driver (kernel/fs/fat16.c): on-disk structures, the FAT cached in memory, cluster
  allocation, directory iteration, path resolution and the public operations. The cached FAT is
  the array of 16-bit cells behind the pointer \<open>g_fat\<close>, one cell for every index the code can form:
  an index past the cache is the memory behind it, so an access out of bounds is visible. A loop
  that can run forever on a corrupted chain is a \<open>partial_function (option)\<close>; \<open>None\<close> is a call that
  never returns. Path and name arguments are byte lists without the terminating NUL.
\<close>

section \<open>On-disk structures\<close>

definition le16 :: "u8 list \<Rightarrow> nat \<Rightarrow> u16" where
  "le16 b i = ucast (b ! i) OR push_bit 8 (ucast (b ! (i + 1)))"

definition le32 :: "u8 list \<Rightarrow> nat \<Rightarrow> u32" where
  "le32 b i = ucast (b ! i) OR push_bit 8 (ucast (b ! (i + 1)))
     OR push_bit 16 (ucast (b ! (i + 2))) OR push_bit 24 (ucast (b ! (i + 3)))"

definition bytes16 :: "u16 \<Rightarrow> u8 list" where
  "bytes16 v = [ucast v, ucast (drop_bit 8 v)]"

definition bytes32 :: "u32 \<Rightarrow> u8 list" where
  "bytes32 v = [ucast v, ucast (drop_bit 8 v), ucast (drop_bit 16 v), ucast (drop_bit 24 v)]"

record bpb =
  bytes_per_sector :: u16
  sectors_per_cluster :: u8
  reserved_sectors :: u16
  num_fats :: u8
  root_entry_count :: u16
  total_sectors_16 :: u16
  fat_size_sectors :: u16
  total_sectors_32 :: u32

definition bpb_of :: "u8 list \<Rightarrow> bpb" where
  "bpb_of b = \<lparr>bytes_per_sector = le16 b 11, sectors_per_cluster = b ! 13, reserved_sectors = le16 b 14,
     num_fats = b ! 16, root_entry_count = le16 b 17, total_sectors_16 = le16 b 19,
     fat_size_sectors = le16 b 22, total_sectors_32 = le32 b 32\<rparr>"

record dirent =
  de_name :: "u8 list"
  de_ext :: "u8 list"
  de_attr :: u8
  de_reserved :: "u8 list"
  de_time :: u16
  de_date :: u16
  de_first_cluster :: u16
  de_size :: u32

definition dirent_of :: "u8 list \<Rightarrow> dirent" where
  "dirent_of b = \<lparr>de_name = take 8 b, de_ext = take 3 (drop 8 b), de_attr = b ! 11, de_reserved = take 10 (drop 12 b),
     de_time = le16 b 22, de_date = le16 b 24, de_first_cluster = le16 b 26, de_size = le32 b 28\<rparr>"

definition dirent_bytes :: "dirent \<Rightarrow> u8 list" where
  "dirent_bytes e = de_name e @ de_ext e @ [de_attr e] @ de_reserved e @ bytes16 (de_time e) @ bytes16 (de_date e)
     @ bytes16 (de_first_cluster e) @ bytes32 (de_size e)"

definition ATTR_VOLUME_ID :: u8 where "ATTR_VOLUME_ID = 0x08"
definition ATTR_DIRECTORY :: u8 where "ATTR_DIRECTORY = 0x10"
definition ATTR_ARCHIVE :: u8 where "ATTR_ARCHIVE = 0x20"
definition DIRENT_EMPTY :: u8 where "DIRENT_EMPTY = 0x00"
definition DIRENT_DELETED :: u8 where "DIRENT_DELETED = 0xE5"

text \<open>The entries of a directory sector with their indices, and replacing one of them.\<close>

definition dirents :: "u8 list \<Rightarrow> (nat \<times> dirent) list" where
  "dirents buf = map (\<lambda>i. (i, dirent_of (take 32 (drop (32 * i) buf)))) [0 ..< 16]"

definition put_dirent :: "nat \<Rightarrow> dirent \<Rightarrow> u8 list \<Rightarrow> u8 list" where
  "put_dirent i e buf = take (32 * i) buf @ dirent_bytes e @ drop (32 * i + 32) buf"

section \<open>Driver state\<close>

record fat16 =
  g_ready :: bool
  g_fat_start_lba :: u32
  g_root_start_lba :: u32
  g_data_start_lba :: u32
  g_root_sector_count :: u32
  g_sectors_per_cluster :: u32
  g_fat_cached :: bool
  g_fat :: "u32 \<Rightarrow> u16"
  g_fat_size_sectors :: u32
  g_total_clusters :: u32
  g_num_fats :: u8
  dev :: disk

definition fs_read :: "u32 \<Rightarrow> fat16 \<Rightarrow> u8 list option \<times> fat16" where
  "fs_read lba fs = (let (r, d) = block_read_sector lba (dev fs) in (r, fs\<lparr>dev := d\<rparr>))"

definition fs_write :: "u32 \<Rightarrow> u8 list \<Rightarrow> fat16 \<Rightarrow> int \<times> fat16" where
  "fs_write lba buf fs = (let (r, d) = block_write_sector lba buf (dev fs) in (r, fs\<lparr>dev := d\<rparr>))"

section \<open>Names\<close>

definition fat16_toupper :: "u8 \<Rightarrow> u8" where
  "fat16_toupper c = (if c \<ge> 97 \<and> c \<le> 122 then c - 32 else c)"

definition SPACE :: u8 where "SPACE = 32"
definition DOT :: u8 where "DOT = 46"
definition SLASH :: u8 where "SLASH = 47"

definition pad_to :: "nat \<Rightarrow> u8 list \<Rightarrow> u8 list" where
  "pad_to n s = s @ replicate (n - length s) SPACE"

definition to_8_3 :: "u8 list \<Rightarrow> u8 list" where
  "to_8_3 name =
     (if name = [DOT] \<or> name = [DOT, DOT] then pad_to 11 name
      else let base = takeWhile (\<lambda>c. c \<noteq> DOT) name; rest = dropWhile (\<lambda>c. c \<noteq> DOT) name
           in pad_to 8 (map fat16_toupper (take 8 base)) @ pad_to 3 (map fat16_toupper (take 3 (drop 1 rest))))"

text \<open>The 8.3 name of an entry, and the entry's display form.\<close>

definition name83_of :: "dirent \<Rightarrow> u8 list" where
  "name83_of e = de_name e @ de_ext e"

definition dirent_display_name :: "dirent \<Rightarrow> u8 list" where
  "dirent_display_name e =
     takeWhile (\<lambda>c. c \<noteq> SPACE) (de_name e)
     @ (if \<exists>c \<in> set (de_ext e). c \<noteq> SPACE then DOT # takeWhile (\<lambda>c. c \<noteq> SPACE) (de_ext e) else [])"

section \<open>Mounting\<close>

text \<open>Sector \<open>s\<close> of the FAT fills the cells \<open>256 s\<close> to \<open>256 s + 255\<close>.\<close>

definition load_cells :: "nat \<Rightarrow> u8 list \<Rightarrow> (u32 \<Rightarrow> u16) \<Rightarrow> u32 \<Rightarrow> u16" where
  "load_cells s buf fat = (\<lambda>c. if 256 * s \<le> unat c \<and> unat c < 256 * s + 256
     then le16 buf (2 * (unat c - 256 * s)) else fat c)"

fun load_fat :: "nat list \<Rightarrow> fat16 \<Rightarrow> bool \<times> fat16" where
  "load_fat [] fs = (True, fs)"
| "load_fat (s # ss) fs =
     (let (r, fs) = fs_read (g_fat_start_lba fs + of_nat s) fs in
      case r of None \<Rightarrow> (False, fs\<lparr>g_fat_cached := False\<rparr>)
      | Some buf \<Rightarrow> load_fat ss (fs\<lparr>g_fat := load_cells s buf (g_fat fs)\<rparr>))"

text \<open>\<open>kmalloc_fat\<close> is what \<open>kmalloc(fat_bytes)\<close> returned: \<open>None\<close> for NULL, otherwise the
  (uninitialised) memory at the returned address.\<close>

definition fat16_init :: "(u32 \<Rightarrow> u16) option \<Rightarrow> fat16 \<Rightarrow> bool \<times> fat16" where
  "fat16_init kmalloc_fat fs0 =
     (let (r, fs) = fs_read 0 (fs0\<lparr>g_ready := False\<rparr>) in
      case r of None \<Rightarrow> (False, fs)
      | Some sector_buf \<Rightarrow>
          let b = bpb_of sector_buf in
          if bytes_per_sector b \<noteq> 512 \<or> fat_size_sectors b = 0 \<or> num_fats b = 0 \<or> sectors_per_cluster b = 0
          then (False, fs)
          else
            let spc = ucast (sectors_per_cluster b);
                fat_start = ucast (reserved_sectors b);
                root_start = fat_start + ucast (num_fats b) * ucast (fat_size_sectors b);
                root_count = (ucast (root_entry_count b) * 32 + 511) div 512;
                data_start = root_start + root_count;
                total_sec = (if total_sectors_16 b \<noteq> 0 then ucast (total_sectors_16 b) else total_sectors_32 b);
                fs = fs\<lparr>g_sectors_per_cluster := spc, g_num_fats := num_fats b, g_fat_start_lba := fat_start,
                  g_fat_size_sectors := ucast (fat_size_sectors b), g_root_start_lba := root_start,
                  g_root_sector_count := root_count, g_data_start_lba := data_start,
                  g_total_clusters := (total_sec - data_start) div spc + 2\<rparr>
            in case kmalloc_fat of
                 None \<Rightarrow> (False, fs\<lparr>g_fat_cached := False\<rparr>)
               | Some cells \<Rightarrow>
                   let (ok, fs) = load_fat [0 ..< unat (g_fat_size_sectors fs)] (fs\<lparr>g_fat_cached := True, g_fat := cells\<rparr>)
                   in (ok, fs\<lparr>g_ready := ok\<rparr>))"

definition fat16_available :: "fat16 \<Rightarrow> bool" where
  "fat16_available fs = g_ready fs"

definition fat16_bytes_per_cluster :: "fat16 \<Rightarrow> u32" where
  "fat16_bytes_per_cluster fs = g_sectors_per_cluster fs * 512"

definition fat16_next_cluster :: "u32 \<Rightarrow> fat16 \<Rightarrow> u32" where
  "fat16_next_cluster cluster fs = (if \<not> g_fat_cached fs \<or> cluster < 2 then 0xFFFF else ucast (g_fat fs cluster))"

definition fat16_cluster_to_lba :: "u32 \<Rightarrow> fat16 \<Rightarrow> u32" where
  "fat16_cluster_to_lba cluster fs = g_data_start_lba fs + (cluster - 2) * g_sectors_per_cluster fs"

section \<open>Write helpers\<close>

definition fat_sector :: "nat \<Rightarrow> (u32 \<Rightarrow> u16) \<Rightarrow> u8 list" where
  "fat_sector s fat = concat (map (\<lambda>j. bytes16 (fat (of_nat (256 * s + j)))) [0 ..< 256])"

fun write_sectors :: "(u32 \<times> u8 list) list \<Rightarrow> fat16 \<Rightarrow> int \<times> fat16" where
  "write_sectors [] fs = (0, fs)"
| "write_sectors ((lba, buf) # ws) fs =
     (let (r, fs) = fs_write lba buf fs in if r < 0 then (-1, fs) else write_sectors ws fs)"

text \<open>The writes of \<open>fat16_flush_fat\<close>: every copy of the FAT, sector by sector.\<close>

definition flush_writes :: "fat16 \<Rightarrow> (u32 \<times> u8 list) list" where
  "flush_writes fs = concat (map (\<lambda>f. map (\<lambda>s. (g_fat_start_lba fs + of_nat f * g_fat_size_sectors fs + of_nat s,
       fat_sector s (g_fat fs))) [0 ..< unat (g_fat_size_sectors fs)]) [0 ..< unat (g_num_fats fs)])"

definition fat16_flush_fat :: "fat16 \<Rightarrow> int \<times> fat16" where
  "fat16_flush_fat fs = write_sectors (flush_writes fs) fs"

definition set_fat :: "u32 \<Rightarrow> u16 \<Rightarrow> fat16 \<Rightarrow> fat16" where
  "set_fat c v fs = fs\<lparr>g_fat := (g_fat fs)(c := v)\<rparr>"

text \<open>The loop of \<open>fat16_free_chain\<close> ends on every FAT, also on a cyclic chain: it zeroes each
  cell it leaves, and a zero cell stops it.\<close>

definition linked :: "(u32 \<Rightarrow> u16) \<Rightarrow> u32 set" where
  "linked fat = {c. 2 \<le> c \<and> c < 0xFFF8 \<and> fat c \<noteq> 0}"

function free_chain :: "u32 \<Rightarrow> (u32 \<Rightarrow> u16) \<Rightarrow> u32 \<Rightarrow> u16" where
  "free_chain cluster fat =
     (if cluster \<ge> 2 \<and> cluster < 0xFFF8 then free_chain (ucast (fat cluster)) (fat(cluster := 0)) else fat)"
  by pat_completeness auto
termination
proof (relation "measure (\<lambda>(c, fat). 2 * card (linked fat) + (if 2 \<le> c \<and> c < 0xFFF8 then 1 else 0))")
  fix cluster :: u32 and fat :: "u32 \<Rightarrow> u16"
  assume c: "cluster \<ge> 2 \<and> cluster < 0xFFF8"
  have eq: "linked (fat(cluster := 0)) = linked fat - {cluster}" by (auto simp: linked_def)
  show "((ucast (fat cluster), fat(cluster := 0)), cluster, fat)
      \<in> measure (\<lambda>(c, fat). 2 * card (linked fat) + (if 2 \<le> c \<and> c < 0xFFF8 then 1 else 0))"
  proof (cases "fat cluster = 0")
    case True
    then have "linked fat - {cluster} = linked fat" by (auto simp: linked_def)
    then show ?thesis using c True eq by simp
  next
    case False
    then have "cluster \<in> linked fat" using c by (simp add: linked_def)
    then have "card (linked fat - {cluster}) < card (linked fat)"
      by (intro psubset_card_mono) auto
    then show ?thesis using c eq by auto
  qed
qed simp

declare free_chain.simps [simp del]

definition fat16_free_chain :: "u32 \<Rightarrow> fat16 \<Rightarrow> fat16" where
  "fat16_free_chain cluster fs = fs\<lparr>g_fat := free_chain cluster (g_fat fs)\<rparr>"

function alloc_scan :: "u32 \<Rightarrow> u32 \<Rightarrow> (u32 \<Rightarrow> u16) \<Rightarrow> u32" where
  "alloc_scan c n fat = (if c < n then if fat c = 0 then c else alloc_scan (c + 1) n fat else 0)"
  by pat_completeness auto
termination by (relation "measure (\<lambda>(c, n, fat). unat n - unat c)") auto

declare alloc_scan.simps [simp del]

definition fat16_alloc_cluster :: "fat16 \<Rightarrow> u32 \<times> fat16" where
  "fat16_alloc_cluster fs =
     (let c = alloc_scan 2 (g_total_clusters fs) (g_fat fs) in if c = 0 then (0, fs) else (c, set_fat c 0xFFFF fs))"

section \<open>Directory iteration\<close>

record dir_iter =
  it_dir_cluster :: u32
  it_root_sector :: u32
  it_cluster :: u32
  it_cluster_sector :: u32

definition dir_iter_init :: "u32 \<Rightarrow> dir_iter" where
  "dir_iter_init dc = \<lparr>it_dir_cluster = dc, it_root_sector = 0, it_cluster = dc, it_cluster_sector = 0\<rparr>"

datatype dir_sector = DirError | DirEnd | DirSector "u8 list" u32

definition dir_iter_next_sector :: "dir_iter \<Rightarrow> fat16 \<Rightarrow> dir_sector \<times> dir_iter \<times> fat16" where
  "dir_iter_next_sector it fs =
     (if it_dir_cluster it = 0 then
        if it_root_sector it \<ge> g_root_sector_count fs then (DirEnd, it, fs)
        else let lba = g_root_start_lba fs + it_root_sector it; (r, fs) = fs_read lba fs in
          (case r of None \<Rightarrow> (DirError, it, fs)
           | Some buf \<Rightarrow> (DirSector buf lba, it\<lparr>it_root_sector := it_root_sector it + 1\<rparr>, fs))
      else if it_cluster it < 2 \<or> it_cluster it \<ge> 0xFFF8 then (DirEnd, it, fs)
      else
        let full = it_cluster_sector it \<ge> g_sectors_per_cluster fs; next = fat16_next_cluster (it_cluster it) fs in
        if full \<and> (next < 2 \<or> next \<ge> 0xFFF8) then (DirEnd, it, fs)
        else let it = (if full then it\<lparr>it_cluster := next, it_cluster_sector := 0\<rparr> else it);
                 lba = fat16_cluster_to_lba (it_cluster it) fs + it_cluster_sector it;
                 (r, fs) = fs_read lba fs in
          (case r of None \<Rightarrow> (DirError, it, fs)
           | Some buf \<Rightarrow> (DirSector buf lba, it\<lparr>it_cluster_sector := it_cluster_sector it + 1\<rparr>, fs)))"

text \<open>
  The loop \<open>while ((r = dir_iter_next_sector(&it, dir_buf, &lba)) == 1)\<close> that every directory scan
  shares. The body looks at one sector: \<open>Inl\<close> returns from the scan, \<open>Inr\<close> goes on to the next
  sector. The scan ends with \<open>WalkStop\<close> (the body returned), \<open>WalkEnd\<close> (no more sectors, with the last
  iterator) or \<open>WalkError\<close>.
\<close>

datatype ('r, 'a) walk = WalkStop 'r | WalkEnd dir_iter 'a | WalkError

partial_function (option) dir_walk ::
  "(u8 list \<Rightarrow> u32 \<Rightarrow> 'a \<Rightarrow> 'r + 'a) \<Rightarrow> dir_iter \<Rightarrow> 'a \<Rightarrow> fat16 \<Rightarrow> (('r, 'a) walk \<times> fat16) option" where
  "dir_walk body it a fs =
     (case dir_iter_next_sector it fs of
        (DirEnd, it, fs) \<Rightarrow> Some (WalkEnd it a, fs)
      | (DirError, it, fs) \<Rightarrow> Some (WalkError, fs)
      | (DirSector buf lba, it, fs) \<Rightarrow>
          (case body buf lba a of Inl r \<Rightarrow> Some (WalkStop r, fs) | Inr a \<Rightarrow> dir_walk body it a fs))"

section \<open>Lookup and insertion\<close>

text \<open>The inner loop of \<open>dir_lookup\<close>: \<open>Inl None\<close> is the end of the directory, \<open>Inl (Some (i, e))\<close> a match.\<close>

fun lookup_scan :: "u8 list \<Rightarrow> (nat \<times> dirent) list \<Rightarrow> (nat \<times> dirent) option option" where
  "lookup_scan name83 [] = None"
| "lookup_scan name83 ((i, e) # es) =
     (if de_name e ! 0 = DIRENT_EMPTY then Some None
      else if de_name e ! 0 = DIRENT_DELETED then lookup_scan name83 es
      else if de_attr e AND ATTR_VOLUME_ID \<noteq> 0 then lookup_scan name83 es
      else if name83_of e = name83 then Some (Some (i, e))
      else lookup_scan name83 es)"

text \<open>A match carries the entry, the sector's LBA, the index in the sector and \<open>dir_buf\<close>.\<close>

datatype lookup = Found dirent u32 nat "u8 list" | NotFound | LookupError

definition lookup_body :: "u8 list \<Rightarrow> u8 list \<Rightarrow> u32 \<Rightarrow> unit \<Rightarrow> lookup + unit" where
  "lookup_body name83 buf lba a =
     (case lookup_scan name83 (dirents buf) of
        None \<Rightarrow> Inr a | Some None \<Rightarrow> Inl NotFound | Some (Some (i, e)) \<Rightarrow> Inl (Found e lba i buf))"

definition dir_lookup :: "u32 \<Rightarrow> u8 list \<Rightarrow> fat16 \<Rightarrow> (lookup \<times> fat16) option" where
  "dir_lookup dir_cluster name83 fs = do {
     (w, fs) \<leftarrow> dir_walk (lookup_body name83) (dir_iter_init dir_cluster) () fs;
     Some (case w of WalkStop r \<Rightarrow> r | WalkEnd _ _ \<Rightarrow> NotFound | WalkError \<Rightarrow> LookupError, fs)
   }"

fun insert_scan :: "(nat \<times> dirent) list \<Rightarrow> nat option" where
  "insert_scan [] = None"
| "insert_scan ((i, e) # es) =
     (if de_name e ! 0 = DIRENT_EMPTY \<or> de_name e ! 0 = DIRENT_DELETED then Some i else insert_scan es)"

definition insert_body :: "u8 list \<Rightarrow> u32 \<Rightarrow> unit \<Rightarrow> (nat \<times> u8 list \<times> u32) + unit" where
  "insert_body buf lba a = (case insert_scan (dirents buf) of None \<Rightarrow> Inr a | Some i \<Rightarrow> Inl (i, buf, lba))"

definition zero_writes :: "u32 \<Rightarrow> fat16 \<Rightarrow> (u32 \<times> u8 list) list" where
  "zero_writes lba fs = map (\<lambda>s. (lba + of_nat s, replicate 512 0)) [0 ..< unat (g_sectors_per_cluster fs)]"

text \<open>Lines 363 to 383 of \<open>dir_insert\<close>: a full subdirectory grows by one cluster.\<close>

definition dir_grow :: "u32 \<Rightarrow> dirent \<Rightarrow> fat16 \<Rightarrow> int \<times> fat16" where
  "dir_grow last_cluster entry fs =
     (let (new_cluster, fs) = fat16_alloc_cluster fs in
      if new_cluster = 0 then (-1, fs)
      else let new_lba = fat16_cluster_to_lba new_cluster fs;
               (r, fs) = write_sectors (zero_writes new_lba fs) fs in
        if r < 0 then (-1, fs)
        else let (r, fs) = fs_write new_lba (put_dirent 0 entry (replicate 512 0)) fs in
          if r < 0 then (-1, fs)
          else fat16_flush_fat (set_fat new_cluster 0xFFFF (set_fat last_cluster (ucast new_cluster) fs)))"

definition dir_insert :: "u32 \<Rightarrow> dirent \<Rightarrow> fat16 \<Rightarrow> (int \<times> fat16) option" where
  "dir_insert dir_cluster entry fs = do {
     (w, fs) \<leftarrow> dir_walk insert_body (dir_iter_init dir_cluster) () fs;
     Some (case w of
         WalkStop (i, buf, lba) \<Rightarrow> let (r, fs) = fs_write lba (put_dirent i entry buf) fs in (if r < 0 then -1 else 0, fs)
       | WalkError \<Rightarrow> (-1, fs)
       | WalkEnd it _ \<Rightarrow> if dir_cluster = 0 then (-1, fs) else dir_grow (it_cluster it) entry fs)
   }"

section \<open>Path resolution\<close>

definition path_next_component :: "u8 list \<Rightarrow> nat \<Rightarrow> u8 list \<times> u8 list" where
  "path_next_component path part_size =
     (let part = take (part_size - 1) (takeWhile (\<lambda>c. c \<noteq> SLASH) path)
      in (part, dropWhile (\<lambda>c. c = SLASH) (drop (length part) path)))"

datatype 'a resolved = Resolved 'a | Missing | ResolveError | NotDirectory

text \<open>The loop over the intermediate components; \<open>path\<close> is what follows \<open>part\<close>.\<close>

lemma path_next_shorter: "p \<noteq> [] \<Longrightarrow> length (snd (path_next_component p 64)) < length p"
proof (cases p)
  case (Cons c cs)
  let ?part = "take 63 (takeWhile (\<lambda>c. c \<noteq> SLASH) p)"
  have le: "length (dropWhile (\<lambda>c. c = SLASH) xs) \<le> length xs" for xs by (rule length_dropWhile_le)
  show ?thesis
  proof (cases "c = SLASH")
    case True
    then show ?thesis using Cons le[of cs] by (simp add: path_next_component_def)
  next
    case False
    then have "length ?part > 0" using Cons by simp
    then have "length (drop (length ?part) p) < length p" using Cons by simp
    then show ?thesis using le[of "drop (length ?part) p"] by (simp add: path_next_component_def Let_def)
  qed
qed simp

function resolve_walk :: "u32 \<Rightarrow> u8 list \<Rightarrow> u8 list \<Rightarrow> fat16 \<Rightarrow> ((u32 \<times> u8 list) resolved \<times> fat16) option" where
  "resolve_walk dir part path fs =
     (if path = [] then Some (Resolved (dir, to_8_3 part), fs)
      else case dir_lookup dir (to_8_3 part) fs of
        None \<Rightarrow> None
      | Some (NotFound, fs) \<Rightarrow> Some (Missing, fs)
      | Some (LookupError, fs) \<Rightarrow> Some (ResolveError, fs)
      | Some (Found e lba i buf, fs) \<Rightarrow>
          if de_attr e AND ATTR_DIRECTORY = 0 then Some (Missing, fs)
          else resolve_walk (ucast (de_first_cluster e)) (fst (path_next_component path 64)) (snd (path_next_component path 64)) fs)"
  by pat_completeness auto
termination by (relation "measure (\<lambda>(dir, part, path, fs). length path)") (auto simp: path_next_shorter)

declare resolve_walk.simps [simp del]

definition resolve_path :: "u32 \<Rightarrow> u8 list \<Rightarrow> fat16 \<Rightarrow> ((u32 \<times> u8 list) resolved \<times> fat16) option" where
  "resolve_path cwd_cluster path fs =
     (let dir = (if path \<noteq> [] \<and> hd path = SLASH then 0 else cwd_cluster);
          path = dropWhile (\<lambda>c. c = SLASH) path in
      if path = [] then Some (Missing, fs)
      else let (part, path) = path_next_component path 64 in resolve_walk dir part path fs)"

text \<open>\<open>ResolveError\<close> stands for -1 and \<open>NotDirectory\<close> for -2.\<close>

definition fat16_resolve_dir :: "u32 \<Rightarrow> u8 list \<Rightarrow> fat16 \<Rightarrow> (u32 resolved \<times> fat16) option" where
  "fat16_resolve_dir cwd_cluster path fs =
     (if \<not> g_ready fs then Some (ResolveError, fs)
      else if path = [] \<or> path = [SLASH] then Some (Resolved 0, fs)
      else do {
        (r, fs) \<leftarrow> resolve_path cwd_cluster path fs;
        case r of
          Resolved (parent, name83) \<Rightarrow> do {
            (l, fs) \<leftarrow> dir_lookup parent name83 fs;
            Some (case l of
                Found e _ _ _ \<Rightarrow> if de_attr e AND ATTR_DIRECTORY = 0 then NotDirectory else Resolved (ucast (de_first_cluster e))
              | NotFound \<Rightarrow> Missing | LookupError \<Rightarrow> ResolveError, fs)
          }
        | Missing \<Rightarrow> Some (Missing, fs) | ResolveError \<Rightarrow> Some (ResolveError, fs) | NotDirectory \<Rightarrow> Some (NotDirectory, fs)
      })"

text \<open>The result is the first cluster, the size and the parent directory.\<close>

definition fat16_find :: "u32 \<Rightarrow> u8 list \<Rightarrow> fat16 \<Rightarrow> ((u32 \<times> u32 \<times> u32) resolved \<times> fat16) option" where
  "fat16_find dir_cluster path fs =
     (if \<not> g_ready fs then Some (Missing, fs)
      else do {
        (r, fs) \<leftarrow> resolve_path dir_cluster path fs;
        case r of
          Resolved (parent, name83) \<Rightarrow> do {
            (l, fs) \<leftarrow> dir_lookup parent name83 fs;
            Some (case l of
                Found e _ _ _ \<Rightarrow> if de_attr e AND (ATTR_VOLUME_ID OR ATTR_DIRECTORY) \<noteq> 0 then Missing
                                 else Resolved (ucast (de_first_cluster e), de_size e, parent)
              | NotFound \<Rightarrow> Missing | LookupError \<Rightarrow> ResolveError, fs)
          }
        | Missing \<Rightarrow> Some (Missing, fs) | ResolveError \<Rightarrow> Some (ResolveError, fs) | NotDirectory \<Rightarrow> Some (NotDirectory, fs)
      })"

section \<open>Listing\<close>

fun readdir_scan :: "u32 \<Rightarrow> u32 \<Rightarrow> (nat \<times> dirent) list \<Rightarrow> dirent option + u32" where
  "readdir_scan idx found [] = Inr found"
| "readdir_scan idx found ((i, e) # es) =
     (if de_name e ! 0 = DIRENT_EMPTY then Inl None
      else if de_name e ! 0 = DIRENT_DELETED then readdir_scan idx found es
      else if de_attr e AND ATTR_VOLUME_ID \<noteq> 0 then readdir_scan idx found es
      else if de_name e ! 0 = DOT then readdir_scan idx found es
      else if found = idx then Inl (Some e)
      else readdir_scan idx (found + 1) es)"

text \<open>The entry number \<open>idx\<close>: its display name, size and whether it is a directory.\<close>

definition fat16_readdir :: "u32 \<Rightarrow> u32 \<Rightarrow> fat16 \<Rightarrow> ((u8 list \<times> u32 \<times> bool) option \<times> fat16) option" where
  "fat16_readdir dir_cluster idx fs =
     (if \<not> g_ready fs then Some (None, fs)
      else do {
        (w, fs) \<leftarrow> dir_walk (\<lambda>buf lba found. readdir_scan idx found (dirents buf)) (dir_iter_init dir_cluster) 0 fs;
        Some (case w of
            WalkStop (Some e) \<Rightarrow> Some (dirent_display_name e, de_size e, de_attr e AND ATTR_DIRECTORY \<noteq> 0)
          | _ \<Rightarrow> None, fs)
      })"

section \<open>Creation\<close>

definition new_dirent :: "u8 list \<Rightarrow> u8 \<Rightarrow> u16 \<Rightarrow> dirent" where
  "new_dirent name83 attr first = \<lparr>de_name = take 8 name83, de_ext = drop 8 name83, de_attr = attr,
     de_reserved = replicate 10 0, de_time = 0, de_date = 0, de_first_cluster = first, de_size = 0\<rparr>"

text \<open>The result of \<open>fat16_create\<close> is the parent cluster, or \<open>None\<close> for -1.\<close>

definition fat16_create :: "u32 \<Rightarrow> u8 list \<Rightarrow> fat16 \<Rightarrow> (u32 option \<times> fat16) option" where
  "fat16_create dir_cluster path fs =
     (if \<not> g_ready fs then Some (None, fs)
      else do {
        (r, fs) \<leftarrow> resolve_path dir_cluster path fs;
        case r of
          Resolved (parent, name83) \<Rightarrow> do {
            (l, fs) \<leftarrow> dir_lookup parent name83 fs;
            case l of
              Found e _ _ _ \<Rightarrow> Some (if de_attr e AND ATTR_DIRECTORY \<noteq> 0 then None else Some parent, fs)
            | LookupError \<Rightarrow> Some (None, fs)
            | NotFound \<Rightarrow> do {
                (r, fs) \<leftarrow> dir_insert parent (new_dirent name83 ATTR_ARCHIVE 0) fs;
                Some (if r < 0 then None else Some parent, fs)
              }
          }
        | _ \<Rightarrow> Some (None, fs)
      })"

definition dot_entries :: "u32 \<Rightarrow> u32 \<Rightarrow> u8 list" where
  "dot_entries new_cluster parent =
     put_dirent 1 (new_dirent (pad_to 11 [DOT, DOT]) ATTR_DIRECTORY (ucast parent))
       (put_dirent 0 (new_dirent (pad_to 11 [DOT]) ATTR_DIRECTORY (ucast new_cluster)) (replicate 512 0))"

definition fat16_mkdir :: "u32 \<Rightarrow> u8 list \<Rightarrow> fat16 \<Rightarrow> (int \<times> fat16) option" where
  "fat16_mkdir dir_cluster path fs =
     (if \<not> g_ready fs then Some (-1, fs)
      else do {
        (r, fs) \<leftarrow> resolve_path dir_cluster path fs;
        case r of
          Resolved (parent, name83) \<Rightarrow> do {
            (l, fs) \<leftarrow> dir_lookup parent name83 fs;
            case l of
              Found e _ _ _ \<Rightarrow> Some (if de_attr e AND ATTR_DIRECTORY \<noteq> 0 then 0 else -1, fs)
            | LookupError \<Rightarrow> Some (-1, fs)
            | NotFound \<Rightarrow>
                (let (new_cluster, fs) = fat16_alloc_cluster fs in
                 if new_cluster = 0 then Some (-1, fs)
                 else let new_lba = fat16_cluster_to_lba new_cluster fs;
                          (r, fs) = write_sectors (zero_writes new_lba fs @ [(new_lba, dot_entries new_cluster parent)]) fs in
                   if r < 0 then Some (-1, fs)
                   else do {
                     (r, fs) \<leftarrow> dir_insert parent (new_dirent name83 ATTR_DIRECTORY (ucast new_cluster)) fs;
                     Some (if r < 0 then (-1, fat16_free_chain new_cluster fs) else fat16_flush_fat fs)
                   })
          }
        | _ \<Rightarrow> Some (-1, fs)
      })"

section \<open>Whole-file write\<close>

text \<open>The writes of one cluster: \<open>spc\<close> sectors of \<open>buf\<close> from byte \<open>written\<close> on, zero-padded.\<close>

definition pad_sector :: "u8 list \<Rightarrow> u8 list" where
  "pad_sector d = d @ replicate (512 - length d) 0"

definition cluster_writes :: "u32 \<Rightarrow> nat \<Rightarrow> u8 list \<Rightarrow> (u32 \<times> u8 list) list" where
  "cluster_writes clba spc d = map (\<lambda>sec. (clba + of_nat sec, pad_sector (take 512 (drop (512 * sec) d)))) [0 ..< spc]"

text \<open>The allocation loop; the result is \<open>first_new\<close>, or \<open>None\<close> for the two ways it returns -1.\<close>

partial_function (option) write_chain :: "u8 list \<Rightarrow> nat \<Rightarrow> u32 \<Rightarrow> u32 \<Rightarrow> fat16 \<Rightarrow> (u32 option \<times> fat16) option" where
  "write_chain buf written first_new prev_cluster fs =
     (if written < length buf then
        case fat16_alloc_cluster fs of (c, fs) \<Rightarrow>
          if c = 0 then Some (None, fs)
          else
            case write_sectors (cluster_writes (fat16_cluster_to_lba c fs) (unat (g_sectors_per_cluster fs)) (drop written buf))
                (set_fat c 0xFFFF (if prev_cluster = 0 then fs else set_fat prev_cluster (ucast c) fs)) of
              (r, fs) \<Rightarrow>
                if r < 0 then Some (None, fs)
                else write_chain buf (written + min (unat (g_sectors_per_cluster fs) * 512) (length buf - written))
                       (if prev_cluster = 0 then c else first_new) c fs
      else Some (Some first_new, fs))"

definition fat16_write_file :: "u32 \<Rightarrow> u8 list \<Rightarrow> u8 list \<Rightarrow> fat16 \<Rightarrow> (int \<times> fat16) option" where
  "fat16_write_file parent_cluster name buf fs =
     (if \<not> g_ready fs then Some (-1, fs)
      else do {
        (l, fs) \<leftarrow> dir_lookup parent_cluster (to_8_3 name) fs;
        case l of
          Found e lba index dir_buf \<Rightarrow>
            if de_attr e AND ATTR_DIRECTORY \<noteq> 0 then Some (-1, fs)
            else do {
              (r, fs) \<leftarrow> write_chain buf 0 0 0 (fat16_free_chain (ucast (de_first_cluster e)) fs);
              case r of
                None \<Rightarrow> Some (-1, fs)
              | Some first_new \<Rightarrow>
                  let entry = e\<lparr>de_first_cluster := (if buf = [] then 0 else ucast first_new), de_size := of_nat (length buf)\<rparr>;
                      (r, fs) = fs_write lba (put_dirent index entry dir_buf) fs in
                  Some (if r < 0 then (-1, fs) else fat16_flush_fat fs)
            }
        | _ \<Rightarrow> Some (-1, fs)
      })"

section \<open>From a cluster to its path\<close>

fun child_scan :: "u32 \<Rightarrow> (nat \<times> dirent) list \<Rightarrow> dirent option option" where
  "child_scan child [] = None"
| "child_scan child ((i, e) # es) =
     (if de_name e ! 0 = DIRENT_EMPTY then Some None
      else if de_name e ! 0 = DIRENT_DELETED then child_scan child es
      else if de_attr e AND ATTR_VOLUME_ID \<noteq> 0 then child_scan child es
      else if de_attr e AND ATTR_DIRECTORY = 0 then child_scan child es
      else if de_name e ! 0 = DOT then child_scan child es
      else if ucast (de_first_cluster e) \<noteq> child then child_scan child es
      else Some (Some e))"

definition dir_find_child_name :: "u32 \<Rightarrow> u32 \<Rightarrow> fat16 \<Rightarrow> (u8 list resolved \<times> fat16) option" where
  "dir_find_child_name parent child fs = do {
     (w, fs) \<leftarrow> dir_walk (\<lambda>buf lba a. case child_scan child (dirents buf) of None \<Rightarrow> Inr a | Some r \<Rightarrow> Inl r)
        (dir_iter_init parent) () fs;
     Some (case w of WalkStop (Some e) \<Rightarrow> Resolved (dirent_display_name e) | WalkStop None \<Rightarrow> Missing
           | WalkEnd _ _ \<Rightarrow> Missing | WalkError \<Rightarrow> ResolveError, fs)
   }"

definition FAT16_PATH_MAX_DEPTH :: nat where "FAT16_PATH_MAX_DEPTH = 16"

text \<open>
  The walk towards the root. \<open>tail\<close> is the part of \<open>tmp\<close> assembled so far, so \<open>p = 127 - length tail\<close>.
  One iteration gives the parent cluster and the longer tail, or \<open>None\<close> for -1.
\<close>

definition path_step :: "u32 \<Rightarrow> u8 list \<Rightarrow> fat16 \<Rightarrow> ((u32 \<times> u8 list) option \<times> fat16) option" where
  "path_step cluster tail fs =
     (if cluster < 2 \<or> cluster \<ge> 0xFFF8 then Some (None, fs)
      else do {
        (l, fs) \<leftarrow> dir_lookup cluster (to_8_3 [DOT, DOT]) fs;
        case l of
          Found up _ _ _ \<Rightarrow> do {
            (r, fs) \<leftarrow> dir_find_child_name (ucast (de_first_cluster up)) cluster fs;
            Some (case r of
                Resolved name \<Rightarrow> if length name + 1 > 127 - length tail then None
                  else Some (ucast (de_first_cluster up), SLASH # name @ tail)
              | _ \<Rightarrow> None, fs)
          }
        | _ \<Rightarrow> Some (None, fs)
      })"

function path_up :: "nat \<Rightarrow> u32 \<Rightarrow> u8 list \<Rightarrow> fat16 \<Rightarrow> (u8 list option \<times> fat16) option" where
  "path_up depth cluster tail fs =
     (if cluster = 0 then Some (Some tail, fs)
      else if depth \<ge> FAT16_PATH_MAX_DEPTH then Some (None, fs)
      else case path_step cluster tail fs of
        None \<Rightarrow> None
      | Some (None, fs) \<Rightarrow> Some (None, fs)
      | Some (Some (parent, tail), fs) \<Rightarrow> path_up (Suc depth) parent tail fs)"
  by pat_completeness auto
termination by (relation "measure (\<lambda>(depth, cluster, tail, fs). FAT16_PATH_MAX_DEPTH - depth)") auto

declare path_up.simps [simp del]

definition fat16_get_path :: "u32 \<Rightarrow> u32 \<Rightarrow> fat16 \<Rightarrow> (u8 list option \<times> fat16) option" where
  "fat16_get_path dir_cluster out_size fs =
     (if out_size < 2 then Some (None, fs)
      else if dir_cluster = 0 then Some (Some [SLASH], fs)
      else if \<not> g_ready fs then Some (None, fs)
      else do {
        (r, fs) \<leftarrow> path_up 0 dir_cluster [] fs;
        Some (case r of None \<Rightarrow> None | Some path \<Rightarrow> if length path + 1 > unat out_size then None else Some path, fs)
      })"

section \<open>Positional write\<close>

definition chain_end :: "u32 \<Rightarrow> bool" where
  "chain_end c \<longleftrightarrow> c < 2 \<or> c \<ge> 0xFFF8"

text \<open>One step along the chain, growing it at its end. The result is the next cluster with the
  flag \<open>fresh\<close>, or \<open>None\<close> when the disk is full; \<open>fat_dirty\<close> is passed through.\<close>

definition next_or_grow :: "u32 \<Rightarrow> bool \<Rightarrow> fat16 \<Rightarrow> (u32 \<times> bool) option \<times> bool \<times> fat16" where
  "next_or_grow cluster fat_dirty fs =
     (let next = ucast (g_fat fs cluster) in
      if chain_end next then
        let (new, fs) = fat16_alloc_cluster fs in
        if new = 0 then (None, fat_dirty, fs) else (Some (new, True), True, set_fat cluster (ucast new) fs)
      else (Some (next, False), fat_dirty, fs))"

text \<open>Part 1: walk to the cluster that holds byte \<open>pos\<close>.\<close>

fun seek_grow :: "nat \<Rightarrow> u32 \<Rightarrow> bool \<Rightarrow> bool \<Rightarrow> fat16 \<Rightarrow> (u32 \<times> bool) option \<times> bool \<times> fat16" where
  "seek_grow 0 cluster fresh fat_dirty fs = (Some (cluster, fresh), fat_dirty, fs)"
| "seek_grow (Suc n) cluster fresh fat_dirty fs =
     (case next_or_grow cluster fat_dirty fs of
        (None, fat_dirty, fs) \<Rightarrow> (None, fat_dirty, fs)
      | (Some (c, fresh), fat_dirty, fs) \<Rightarrow> seek_grow n c fresh fat_dirty fs)"

text \<open>Part 2: one sector of the data loop. \<open>None\<close> is one of the two \<open>break\<close>s.\<close>

definition write_piece :: "u32 \<Rightarrow> nat \<Rightarrow> bool \<Rightarrow> u8 list \<Rightarrow> fat16 \<Rightarrow> bool \<times> fat16" where
  "write_piece lba sec_off fresh piece fs =
     (let (base, fs) = (if length piece < 512 then if fresh then (Some (replicate 512 0), fs) else fs_read lba fs
                        else (Some piece, fs))
      in case base of None \<Rightarrow> (False, fs)
         | Some b \<Rightarrow> let (r, fs) = fs_write lba (take sec_off b @ piece @ drop (sec_off + length piece) b) fs
                     in (\<not> r < 0, fs))"

text \<open>One iteration of the loop: \<open>Inl\<close> leaves it, with the flag \<open>fat_dirty\<close>; \<open>Inr\<close> carries its variables
  \<open>written\<close>, \<open>cluster\<close>, \<open>off\<close>, \<open>fresh\<close>, \<open>fat_dirty\<close> on.\<close>

definition write_step :: "u8 list \<Rightarrow> nat \<Rightarrow> u32 \<Rightarrow> nat \<Rightarrow> bool \<Rightarrow> bool \<Rightarrow> fat16
    \<Rightarrow> (nat \<times> bool \<times> fat16) + (nat \<times> u32 \<times> nat \<times> bool \<times> bool \<times> fat16)" where
  "write_step buf written cluster off fresh fat_dirty fs =
     (let lba = fat16_cluster_to_lba cluster fs + of_nat (off div 512);
          n = min (512 - off mod 512) (length buf - written);
          (ok, fs) = write_piece lba (off mod 512) fresh (take n (drop written buf)) fs in
      if \<not> ok then Inl (written, fat_dirty, fs)
      else if off + n \<ge> unat (fat16_bytes_per_cluster fs) \<and> written + n < length buf then
        (case next_or_grow cluster fat_dirty fs of
           (None, fat_dirty, fs) \<Rightarrow> Inl (written + n, fat_dirty, fs)
         | (Some (c, fresh), fat_dirty, fs) \<Rightarrow> Inr (written + n, c, 0, fresh, fat_dirty, fs))
      else Inr (written + n, cluster, off + n, fresh, fat_dirty, fs))"

lemma write_step_written:
  assumes "write_step buf written cluster off fresh fat_dirty fs = Inr (written', c', off', fresh', dirty', fs')"
  shows "written' = written + min (512 - off mod 512) (length buf - written)"
  using assms unfolding write_step_def Let_def by (auto split: prod.splits if_splits option.splits)

function write_data :: "u8 list \<Rightarrow> nat \<Rightarrow> u32 \<Rightarrow> nat \<Rightarrow> bool \<Rightarrow> bool \<Rightarrow> fat16 \<Rightarrow> nat \<times> bool \<times> fat16" where
  "write_data buf written cluster off fresh fat_dirty fs =
     (if written < length buf then
        case write_step buf written cluster off fresh fat_dirty fs of
          Inl r \<Rightarrow> r
        | Inr (written, cluster, off, fresh, fat_dirty, fs) \<Rightarrow> write_data buf written cluster off fresh fat_dirty fs
      else (written, fat_dirty, fs))"
  by pat_completeness auto
termination
  by (relation "measure (\<lambda>(buf, written, cluster, off, fresh, fat_dirty, fs). length buf - written)")
    (auto dest!: write_step_written)

declare write_data.simps [simp del]

text \<open>Part 3: the FAT first, then the directory entry. The result is the number of bytes written
  with the file's first cluster and size, or \<open>None\<close> for -1.\<close>

definition write_commit :: "u32 \<Rightarrow> u8 list \<Rightarrow> dirent \<Rightarrow> u32 \<Rightarrow> u32 \<Rightarrow> nat \<Rightarrow> bool \<Rightarrow> fat16
    \<Rightarrow> ((nat \<times> u32 \<times> u32) option \<times> fat16) option" where
  "write_commit parent_cluster name83 existing first pos written fat_dirty fs =
     (let size' = de_size existing;
          new_size = (if pos + of_nat written > size' then pos + of_nat written else size');
          (r, fs) = (if fat_dirty then fat16_flush_fat fs else (0, fs)) in
      if r < 0 then Some (None, fs)
      else do {
        (ok, fs) \<leftarrow>
          (if new_size \<noteq> size' \<or> first \<noteq> ucast (de_first_cluster existing) then do {
             (l, fs) \<leftarrow> dir_lookup parent_cluster name83 fs;
             Some (case l of
                 Found e dlba dindex dir_buf \<Rightarrow>
                   let (r, fs) = fs_write dlba (put_dirent dindex (e\<lparr>de_first_cluster := ucast first, de_size := new_size\<rparr>) dir_buf) fs
                   in (\<not> r < 0, fs)
               | _ \<Rightarrow> (False, fs))
           } else Some (True, fs));
        Some (if ok \<and> written > 0 then Some (written, first, new_size) else None, fs)
      })"

definition fat16_write_at :: "u32 \<Rightarrow> u8 list \<Rightarrow> u32 \<Rightarrow> u8 list \<Rightarrow> fat16
    \<Rightarrow> ((nat \<times> u32 \<times> u32) option \<times> fat16) option" where
  "fat16_write_at parent_cluster name pos buf fs =
     (if \<not> g_ready fs then Some (None, fs)
      else do {
        (l, fs) \<leftarrow> dir_lookup parent_cluster (to_8_3 name) fs;
        case l of
          Found existing _ _ _ \<Rightarrow>
            (let first = ucast (de_first_cluster existing); size' = de_size existing;
                 bpc = unat (fat16_bytes_per_cluster fs) in
             if de_attr existing AND ATTR_DIRECTORY \<noteq> 0 then Some (None, fs)
             else if pos > size' \<or> of_nat (length buf) > 0xFFFFFFFF - pos \<or> first < 2 \<and> pos \<noteq> 0 then Some (None, fs)
             else if buf = [] then Some (Some (0, first, size'), fs)
             else
               let (r, fat_dirty, fs) =
                 (if first < 2 then
                    (let (c, fs) = fat16_alloc_cluster fs in if c = 0 then (None, False, fs) else (Some (c, True), True, fs))
                  else seek_grow (unat pos div bpc) first False False fs) in
               case r of
                 None \<Rightarrow> Some (None, if first \<ge> 2 \<and> fat_dirty then snd (fat16_flush_fat fs) else fs)
               | Some (cluster, fresh) \<Rightarrow>
                   let (written, fat_dirty, fs) = write_data buf 0 cluster (unat pos mod bpc) fresh fat_dirty fs in
                   write_commit parent_cluster (to_8_3 name) existing (if first < 2 then cluster else first) pos
                     written fat_dirty fs)
        | _ \<Rightarrow> Some (None, fs)
      })"

section \<open>Positional read\<close>

text \<open>The seek of \<open>fat16_read_at\<close>: \<open>None\<close> is the premature end of the chain.\<close>

fun seek_read :: "nat \<Rightarrow> u32 \<Rightarrow> fat16 \<Rightarrow> u32 option" where
  "seek_read 0 cluster fs = Some cluster"
| "seek_read (Suc n) cluster fs =
     (let next = fat16_next_cluster cluster fs in if next \<ge> 0xFFF8 then None else seek_read n next fs)"

text \<open>The inner loop over the sectors of a cluster; the flag says that a read failed.\<close>

fun read_sectors :: "nat list \<Rightarrow> u32 \<Rightarrow> nat \<Rightarrow> u8 list \<Rightarrow> nat \<Rightarrow> fat16 \<Rightarrow> u8 list \<times> bool \<times> fat16" where
  "read_sectors [] lba sec_off acc len fs = (acc, False, fs)"
| "read_sectors (sec_idx # secs) lba sec_off acc len fs =
     (if length acc < len then
        let (r, fs) = fs_read (lba + of_nat sec_idx) fs in
        case r of None \<Rightarrow> (acc, True, fs)
        | Some sector_buf \<Rightarrow>
            read_sectors secs lba 0 (acc @ take (min (len - length acc) (512 - sec_off)) (drop sec_off sector_buf)) len fs
      else (acc, False, fs))"

partial_function (option) read_chain :: "u32 \<Rightarrow> nat \<Rightarrow> u8 list \<Rightarrow> nat \<Rightarrow> fat16 \<Rightarrow> (u8 list \<times> fat16) option" where
  "read_chain cluster cluster_off acc len fs =
     (if length acc < len \<and> cluster < 0xFFF8 then
        case read_sectors [cluster_off div 512 ..< unat (g_sectors_per_cluster fs)]
            (fat16_cluster_to_lba cluster fs) (cluster_off mod 512) acc len fs of
          (acc, failed, fs) \<Rightarrow>
            if failed then Some (acc, fs)
            else if length acc < len then read_chain (fat16_next_cluster cluster fs) 0 acc len fs
            else Some (acc, fs)
      else Some (acc, fs))"

definition fat16_read_at :: "u32 \<Rightarrow> u32 \<Rightarrow> u32 \<Rightarrow> u32 \<Rightarrow> fat16 \<Rightarrow> (u8 list option \<times> fat16) option" where
  "fat16_read_at first_cluster pos len file_size fs =
     (if \<not> g_ready fs \<or> len = 0 then Some (None, fs)
      else if pos \<ge> file_size then Some (Some [], fs)
      else
        let len = (if pos + len > file_size then file_size - pos else len);
            bpc = fat16_bytes_per_cluster fs in
        case seek_read (unat (pos div bpc)) first_cluster fs of
          None \<Rightarrow> Some (Some [], fs)
        | Some cluster \<Rightarrow> do {
            (bs, fs) \<leftarrow> read_chain cluster (unat (pos mod bpc)) [] (unat len) fs;
            Some (Some bs, fs)
          })"

end
