(* ===== verification/Fat16_Table.thy ===== *)
theory Fat16_Table
  imports Fat16
begin

text \<open>
  The file allocation table: cluster chains as lists, allocation and release of clusters as an
  instance of the allocator contract, and loading and flushing the cached table.
\<close>

section \<open>Chains\<close>

text \<open>\<open>chain fat c cs\<close>: following the table from \<open>c\<close> visits exactly \<open>cs\<close> and then an end marker.\<close>

fun chain :: "(u32 \<Rightarrow> u16) \<Rightarrow> u32 \<Rightarrow> u32 list \<Rightarrow> bool" where
  "chain fat c [] = (c \<ge> 0xFFF8)"
| "chain fat c (x # xs) = (c = x \<and> 2 \<le> x \<and> x < 0xFFF8 \<and> chain fat (ucast (fat x)) xs)"

lemma chain_unique: "chain fat c xs \<Longrightarrow> chain fat c ys \<Longrightarrow> xs = ys"
proof (induction xs arbitrary: c ys)
  case Nil
  then show ?case by (cases ys) auto
next
  case (Cons x xs)
  then show ?case by (cases ys) auto
qed

lemma chain_cong: "(\<And>x. x \<in> set xs \<Longrightarrow> fat' x = fat x) \<Longrightarrow> chain fat' c xs = chain fat c xs"
  by (induction xs arbitrary: c) auto

lemma chain_range: "chain fat c xs \<Longrightarrow> x \<in> set xs \<Longrightarrow> 2 \<le> x \<and> x < 0xFFF8"
  by (induction xs arbitrary: c) auto

lemma chain_linked: "chain fat c xs \<Longrightarrow> x \<in> set xs \<Longrightarrow> fat x \<noteq> 0"
proof (induction xs arbitrary: c)
  case (Cons y xs)
  have "fat y \<noteq> 0" if "chain fat (ucast (fat y)) xs" using that by (cases xs) auto
  then show ?case using Cons by auto
qed simp

lemma chain_tail: "chain fat c (ps @ x # xs) \<Longrightarrow> chain fat x (x # xs)"
  by (induction ps arbitrary: c) auto

lemma chain_distinct: "chain fat c xs \<Longrightarrow> distinct xs"
proof (induction xs arbitrary: c)
  case (Cons x xs)
  have "x \<notin> set xs"
  proof
    assume "x \<in> set xs"
    then obtain ps qs where "xs = ps @ x # qs" by (meson split_list)
    then have "chain fat x (x # qs)" using Cons.prems chain_tail[of fat c "x # ps" x qs] by simp
    moreover have "chain fat x (x # xs)" using Cons.prems by simp
    ultimately have "x # qs = x # xs" by (rule chain_unique)
    then show False using \<open>xs = ps @ x # qs\<close> by simp
  qed
  then show ?case using Cons by auto
qed simp

lemma free_chain_step:
  "2 \<le> c \<Longrightarrow> c < 0xFFF8 \<Longrightarrow> free_chain c fat = free_chain (ucast (fat c)) (fat(c := 0))"
  "c < 2 \<or> c \<ge> 0xFFF8 \<Longrightarrow> free_chain c fat = fat"
  by (simp_all add: free_chain.simps[of c fat] not_less not_le) (auto simp: not_less[symmetric])

text \<open>Freeing a chain zeroes its cells and nothing else.\<close>

lemma free_chain_chain:
  "chain fat c xs \<Longrightarrow> free_chain c fat = (\<lambda>x. if x \<in> set xs then 0 else fat x)"
proof (induction xs arbitrary: c fat)
  case (Cons x xs)
  have nx: "x \<notin> set xs" using chain_distinct[OF Cons.prems] by simp
  have ch: "chain (fat(x := 0)) (ucast (fat x)) xs"
    using Cons.prems nx by (subst chain_cong[of xs "fat(x := 0)" fat]) auto
  have "free_chain c fat = free_chain (ucast (fat x)) (fat(x := 0))"
    using Cons.prems free_chain_step(1)[of c fat] by simp
  also have "\<dots> = (\<lambda>y. if y \<in> set xs then 0 else (fat(x := 0)) y)" by (rule Cons.IH[OF ch])
  also have "\<dots> = (\<lambda>y. if y \<in> set (x # xs) then 0 else fat y)" by auto
  finally show ?case .
qed (simp add: free_chain_step)

text \<open>On any table, also a corrupted one, it only clears cells with an index a cluster can have.\<close>

lemma free_chain_only_clears:
  "free_chain c fat x = fat x \<or> free_chain c fat x = 0 \<and> 2 \<le> x \<and> x < 0xFFF8"
proof (induction c fat rule: free_chain.induct)
  case (1 c fat)
  show ?case
  proof (cases "2 \<le> c \<and> c < 0xFFF8")
    case True
    have "free_chain (ucast (fat c)) (fat(c := 0)) x = (fat(c := 0)) x
        \<or> free_chain (ucast (fat c)) (fat(c := 0)) x = 0 \<and> 2 \<le> x \<and> x < 0xFFF8"
      using 1[OF True] by (simp add: fun_upd_def)
    then show ?thesis using True free_chain_step(1)[of c fat] by (auto split: if_splits)
  next
    case False
    then have "free_chain c fat = fat" by (intro free_chain_step(2)) auto
    then show ?thesis by simp
  qed
qed

section \<open>Allocation\<close>

lemma alloc_scan_found:
  assumes "alloc_scan c n fat = r" "r \<noteq> 0"
  shows "c \<le> r \<and> r < n \<and> fat r = 0 \<and> (\<forall>x. c \<le> x \<and> x < r \<longrightarrow> fat x \<noteq> 0)"
  using assms
proof (induction c n fat rule: alloc_scan.induct)
  case (1 c n fat)
  have cn: "c < n" using 1(2,3) alloc_scan.simps[of c n fat] by (auto split: if_splits)
  show ?case
  proof (cases "fat c = 0")
    case True
    then have "r = c" using 1(2) cn alloc_scan.simps[of c n fat] by simp
    then show ?thesis using True cn by auto
  next
    case False
    have "alloc_scan (c + 1) n fat = r" using 1(2) cn False alloc_scan.simps[of c n fat] by simp
    from 1(1)[OF cn False this 1(3)] have ih: "c + 1 \<le> r \<and> r < n \<and> fat r = 0 \<and> (\<forall>x. c + 1 \<le> x \<and> x < r \<longrightarrow> fat x \<noteq> 0)" .
    have s: "unat (c + 1) = Suc (unat c)" using unat_Suc_less[OF cn] .
    have "x = c \<or> c + 1 \<le> x" if "c \<le> x" for x
      using that s by (auto simp: word_le_nat_alt word_unat_eq_iff)
    then show ?thesis using ih False s by (auto simp: word_le_nat_alt)
  qed
qed

lemma alloc_scan_none:
  assumes "alloc_scan c n fat = 0" "c \<noteq> 0" "c \<le> x" "x < n"
  shows "fat x \<noteq> 0"
  using assms
proof (induction c n fat rule: alloc_scan.induct)
  case (1 c n fat)
  have cn: "c < n" using 1(4,5) by simp
  have s: "unat (c + 1) = Suc (unat c)" using unat_Suc_less[OF cn] .
  have ne: "fat c \<noteq> 0" "alloc_scan (c + 1) n fat = 0"
    using 1(2,3) cn alloc_scan.simps[of c n fat] by (auto split: if_splits)
  have c1: "c + 1 \<noteq> 0" using s by (metis nat.distinct(1) unat_0)
  show ?case
  proof (cases "x = c")
    case False
    then have "c + 1 \<le> x" using 1(4) s by (simp add: word_le_nat_alt word_unat_eq_iff)
    then show ?thesis using 1(1)[OF cn ne(1,2) c1] 1(5) by blast
  qed (use ne in simp)
qed

text \<open>A mounted file system: the cache is there, every allocatable cluster has a cell in it and is
  not mistaken for an end marker, and the FAT copies, the root directory and the data area follow
  each other on the disk.\<close>

definition fat_ok :: "fat16 \<Rightarrow> bool" where
  "fat_ok fs \<longleftrightarrow> g_ready fs \<and> g_fat_cached fs \<and> g_sectors_per_cluster fs \<noteq> 0 \<and> g_sectors_per_cluster fs < 256
     \<and> g_total_clusters fs \<le> 0xFFF8 \<and> unat (g_total_clusters fs) \<le> 256 * unat (g_fat_size_sectors fs)
     \<and> g_fat_size_sectors fs < 0x10000
     \<and> unat (g_root_start_lba fs) = unat (g_fat_start_lba fs) + unat (g_num_fats fs) * unat (g_fat_size_sectors fs)
     \<and> unat (g_data_start_lba fs) = unat (g_root_start_lba fs) + unat (g_root_sector_count fs)
     \<and> g_data_start_lba fs < 0x4000000"

definition cluster_free :: "fat16 \<Rightarrow> u32 \<Rightarrow> bool" where
  "cluster_free fs c \<longleftrightarrow> 2 \<le> c \<and> c < g_total_clusters fs \<and> g_fat fs c = 0"

text \<open>A cluster that is a chain of its own.\<close>

definition cluster_owned :: "fat16 \<Rightarrow> u32 \<Rightarrow> bool" where
  "cluster_owned fs c \<longleftrightarrow> 2 \<le> c \<and> c < g_total_clusters fs \<and> g_fat fs c \<ge> 0xFFF8"

lemma fat_ok_set_fat [simp]: "fat_ok (set_fat c v fs) = fat_ok fs"
  by (simp add: fat_ok_def set_fat_def)

lemma fat16_alloc_cases:
  obtains "fat16_alloc_cluster fs = (0, fs)" "\<And>x. \<not> cluster_free fs x"
  | c where "fat16_alloc_cluster fs = (c, set_fat c 0xFFFF fs)" "c \<noteq> 0" "cluster_free fs c"
    "\<And>x. cluster_free fs x \<Longrightarrow> c \<le> x"
proof -
  let ?c = "alloc_scan 2 (g_total_clusters fs) (g_fat fs)"
  show thesis
  proof (cases "?c = 0")
    case True
    show thesis
      by (rule that(1)) (use True alloc_scan_none[OF True] in \<open>auto simp: fat16_alloc_cluster_def cluster_free_def Let_def\<close>)
  next
    case False
    note f = alloc_scan_found[OF refl False]
    show thesis
    proof (rule that(2)[of ?c])
      show "fat16_alloc_cluster fs = (?c, set_fat ?c 0xFFFF fs)" using False by (simp add: fat16_alloc_cluster_def Let_def)
      show "cluster_free fs ?c" using f by (simp add: cluster_free_def)
      show "?c \<le> x" if "cluster_free fs x" for x
        using f that by (meson cluster_free_def not_less)
    qed (rule False)
  qed
qed

interpretation clusters: allocator fat_ok cluster_free cluster_owned fat16_alloc_cluster fat16_free_chain
proof unfold_locales
  show "\<not> cluster_free s a" if "cluster_owned s a" for s a
    using that by (auto simp: cluster_free_def cluster_owned_def)
  show "s' = s \<and> \<not> cluster_free s a" if "fat_ok s" "fat16_alloc_cluster s = (0, s')" for s s' a
    using that(2) by (cases rule: fat16_alloc_cases[of s]) auto
  show "fat_ok s' \<and> cluster_free s a" if "fat_ok s" "fat16_alloc_cluster s = (a, s')" "a \<noteq> 0" for s a s'
    using that by (cases rule: fat16_alloc_cases[of s]) auto
  show "(cluster_free s' b \<longleftrightarrow> b \<noteq> a \<and> cluster_free s b) \<and> (cluster_owned s' b \<longleftrightarrow> b = a \<or> cluster_owned s b)"
    if "fat_ok s" "fat16_alloc_cluster s = (a, s')" "a \<noteq> 0" for s a s' b
    using that by (cases rule: fat16_alloc_cases[of s]) (auto simp: cluster_free_def cluster_owned_def set_fat_def split: if_splits)
  show "fat_ok (fat16_free_chain a s) \<and> (cluster_free (fat16_free_chain a s) b \<longleftrightarrow> b = a \<or> cluster_free s b)
      \<and> (cluster_owned (fat16_free_chain a s) b \<longleftrightarrow> b \<noteq> a \<and> cluster_owned s b)"
    if "fat_ok s" "cluster_owned s a" for s a b
  proof -
    have "a < 0xFFF8" using that by (auto simp: fat_ok_def cluster_owned_def)
    moreover have "ucast (g_fat s a) \<ge> (0xFFF8 :: u32)"
      using that(2) by (simp add: cluster_owned_def word_le_nat_alt)
    ultimately have "chain (g_fat s) a [a]" using that(2) by (simp add: cluster_owned_def)
    from free_chain_chain[OF this] show ?thesis
      using that by (auto simp: fat16_free_chain_def fat_ok_def cluster_free_def cluster_owned_def)
  qed
qed

end
