(* ===== verification/Fat16_File.thy ===== *)
theory Fat16_File
  imports Fat16_Table
begin

text \<open>
  File contents: reading at a position and replacing a whole file, on a disk that does not fail.
\<close>

section \<open>Reliable disks\<close>

abbreviation media :: "fat16 \<Rightarrow> u32 \<Rightarrow> u8 list" where
  "media fs \<equiv> sectors (dev fs)"

text \<open>What the operations change: the cached table, the sectors and the command count.\<close>

definition upd :: "(u32 \<Rightarrow> u16) \<Rightarrow> (u32 \<Rightarrow> u8 list) \<Rightarrow> nat \<Rightarrow> fat16 \<Rightarrow> fat16" where
  "upd fat m n fs = fs\<lparr>g_fat := fat, dev := (dev fs)\<lparr>sectors := m, ios := n\<rparr>\<rparr>"

lemma upd_simps [simp]:
  "g_ready (upd fat m n fs) = g_ready fs" "g_fat_start_lba (upd fat m n fs) = g_fat_start_lba fs"
  "g_root_start_lba (upd fat m n fs) = g_root_start_lba fs" "g_data_start_lba (upd fat m n fs) = g_data_start_lba fs"
  "g_root_sector_count (upd fat m n fs) = g_root_sector_count fs"
  "g_sectors_per_cluster (upd fat m n fs) = g_sectors_per_cluster fs" "g_fat_cached (upd fat m n fs) = g_fat_cached fs"
  "g_fat (upd fat m n fs) = fat" "g_fat_size_sectors (upd fat m n fs) = g_fat_size_sectors fs"
  "g_total_clusters (upd fat m n fs) = g_total_clusters fs" "g_num_fats (upd fat m n fs) = g_num_fats fs"
  "media (upd fat m n fs) = m" "ios (dev (upd fat m n fs)) = n" "reliable (dev (upd fat m n fs)) = reliable (dev fs)"
  "upd fat' m' n' (upd fat m n fs) = upd fat' m' n' fs" "fat_ok (upd fat m n fs) = fat_ok fs"
  "fat16_cluster_to_lba c (upd fat m n fs) = fat16_cluster_to_lba c fs"
  "fat16_bytes_per_cluster (upd fat m n fs) = fat16_bytes_per_cluster fs"
  by (simp_all add: upd_def reliable_def fat_ok_def fat16_cluster_to_lba_def fat16_bytes_per_cluster_def)

lemma upd_same: "upd (g_fat fs) (media fs) (ios (dev fs)) fs = fs"
  by (simp add: upd_def)

lemma set_fat_upd: "set_fat c v fs = upd ((g_fat fs)(c := v)) (media fs) (ios (dev fs)) fs"
  by (simp add: set_fat_def upd_def)

lemma free_chain_upd: "fat16_free_chain c fs = upd (free_chain c (g_fat fs)) (media fs) (ios (dev fs)) fs"
  by (simp add: fat16_free_chain_def upd_def)

lemma fs_read_reliable:
  "reliable (dev fs) \<Longrightarrow> fs_read lba fs = (Some (media fs lba), upd (g_fat fs) (media fs) (Suc (ios (dev fs))) fs)"
  by (simp add: fs_read_def read_reliable upd_def)

lemma fs_write_reliable:
  "reliable (dev fs) \<Longrightarrow> fs_write lba buf fs = (0, upd (g_fat fs) ((media fs)(lba := buf)) (Suc (ios (dev fs))) fs)"
  by (simp add: fs_write_def write_reliable upd_def)

primrec apply_writes :: "(u32 \<times> u8 list) list \<Rightarrow> (u32 \<Rightarrow> u8 list) \<Rightarrow> (u32 \<Rightarrow> u8 list)" where
  "apply_writes [] m = m"
| "apply_writes (w # ws) m = apply_writes ws (m(fst w := snd w))"

lemma write_sectors_reliable:
  "reliable (dev fs) \<Longrightarrow>
     write_sectors ws fs = (0, upd (g_fat fs) (apply_writes ws (media fs)) (ios (dev fs) + length ws) fs)"
proof (induction ws arbitrary: fs)
  case Nil
  then show ?case by (simp add: upd_same)
next
  case (Cons w ws)
  then show ?case by (cases w) (simp add: fs_write_reliable del: fun_upd_apply)
qed

lemma apply_writes_other: "lba \<notin> fst ` set ws \<Longrightarrow> apply_writes ws m lba = m lba"
  by (induction ws arbitrary: m) auto

lemma apply_writes_in:
  "distinct (map fst ws) \<Longrightarrow> (lba, b) \<in> set ws \<Longrightarrow> apply_writes ws m lba = b"
proof (induction ws arbitrary: m)
  case (Cons w ws)
  show ?case
  proof (cases "fst w = lba")
    case True
    then have "lba \<notin> fst ` set ws" "w = (lba, b)" using Cons.prems by (force simp: image_iff)+
    then show ?thesis using apply_writes_other[of lba ws "m(lba := b)"] by simp
  qed (use Cons in auto)
qed simp

section \<open>Directory scans only read\<close>

lemma fs_read_frame: "fs_read lba fs = (r, fs') \<Longrightarrow> fs' = upd (g_fat fs) (media fs) (Suc (ios (dev fs))) fs"
  by (auto simp: fs_read_def block_read_sector_def upd_def)

lemma dir_iter_next_frame:
  assumes "dir_iter_next_sector it fs = (r, it', fs')"
  obtains n where "fs' = upd (g_fat fs) (media fs) n fs"
proof -
  have "fs' = fs \<or> (\<exists>lba r. fs_read lba fs = (r, fs'))"
    using assms by (auto simp: dir_iter_next_sector_def Let_def split: if_splits prod.splits option.splits)
  then show thesis using that fs_read_frame upd_same[of fs] by metis
qed

lemma dir_walk_frame:
  assumes "dir_walk body it a fs = Some (w, fs')"
  shows "\<exists>n. fs' = upd (g_fat fs) (media fs) n fs"
proof -
  have "\<exists>n. snd r = upd (g_fat fs) (media fs) n fs" if "dir_walk body it a fs = Some r" for r
  proof (rule dir_walk.raw_induct[where P = "\<lambda>body it a fs r. \<exists>n. snd r = upd (g_fat fs) (media fs) n fs", OF _ that], goal_cases)
    case (1 walk body it a fs r)
    obtain s it1 fs1 where nx: "dir_iter_next_sector it fs = (s, it1, fs1)" by (metis prod_cases3)
    obtain n where n: "fs1 = upd (g_fat fs) (media fs) n fs" by (rule dir_iter_next_frame[OF nx])
    show ?case
    proof (cases s)
      case (DirSector buf lba)
      show ?thesis
      proof (cases "body buf lba a")
        case (Inr a')
        then have "walk body it1 a' fs1 = Some r" using 1(2) nx DirSector by simp
        from 1(1)[OF this] show ?thesis using n by auto
      qed (use 1(2) nx DirSector n in auto)
    qed (use 1(2) nx n in auto)
  qed
  from this[OF assms] show ?thesis by simp
qed

lemma dir_lookup_frame:
  assumes "dir_lookup dc name83 fs = Some (l, fs')"
  shows "\<exists>n. fs' = upd (g_fat fs) (media fs) n fs"
  using assms dir_walk_frame by (auto simp: dir_lookup_def bind_eq_Some_conv)

text \<open>What stopped a scan was a sector of the disk.\<close>

lemma dir_walk_stop:
  assumes "dir_walk body it a fs = Some (WalkStop x, fs')"
  shows "\<exists>lba a. body (media fs lba) lba a = Inl x"
proof -
  have "\<forall>x. fst r = WalkStop x \<longrightarrow> (\<exists>lba a. body (media fs lba) lba a = Inl x)" if "dir_walk body it a fs = Some r" for r
  proof (rule dir_walk.raw_induct[where P = "\<lambda>body it a fs r. \<forall>x. fst r = WalkStop x \<longrightarrow> (\<exists>lba a. body (media fs lba) lba a = Inl x)", OF _ that], goal_cases)
    case (1 walk body it a fs r)
    obtain s it1 fs1 where nx: "dir_iter_next_sector it fs = (s, it1, fs1)" by (metis prod_cases3)
    obtain n where n: "fs1 = upd (g_fat fs) (media fs) n fs" by (rule dir_iter_next_frame[OF nx])
    show ?case
    proof (cases s)
      case (DirSector buf lba)
      have buf: "buf = media fs lba"
        using nx DirSector by (auto simp: dir_iter_next_sector_def fs_read_def block_read_sector_def Let_def split: if_splits)
      show ?thesis
      proof (cases "body buf lba a")
        case (Inl x)
        then have "r = (WalkStop x, fs1)" using 1(2) nx DirSector by simp
        then show ?thesis using Inl[unfolded buf] by (metis fst_conv walk.inject(1))
      next
        case (Inr a')
        then have "walk body it1 a' fs1 = Some r" using 1(2) nx DirSector by simp
        from 1(1)[OF this] show ?thesis using n by simp
      qed
    qed (use 1(2) nx n in auto)
  qed
  from this[OF assms] show ?thesis by auto
qed

lemma lookup_scan_Some: "lookup_scan name83 es = Some (Some (i, e)) \<Longrightarrow> (i, e) \<in> set es"
  by (induction name83 es rule: lookup_scan.induct) (auto split: if_splits)

lemma dir_lookup_found:
  assumes "dir_lookup dc name83 fs = Some (Found e lba i buf, fs')"
  shows "buf = media fs lba" "i < 16" "e = dirent_of (take 32 (drop (32 * i) buf))"
proof -
  obtain w where w: "dir_walk (lookup_body name83) (dir_iter_init dc) () fs = Some (w, fs')"
    "(case w of WalkStop r \<Rightarrow> r | WalkEnd _ _ \<Rightarrow> NotFound | WalkError \<Rightarrow> LookupError) = Found e lba i buf"
    using assms by (auto simp: dir_lookup_def bind_eq_Some_conv)
  then have "w = WalkStop (Found e lba i buf)" by (cases w) auto
  with w(1) have "dir_walk (lookup_body name83) (dir_iter_init dc) () fs = Some (WalkStop (Found e lba i buf), fs')" by simp
  from dir_walk_stop[OF this] obtain l a where "lookup_body name83 (media fs l) l a = Inl (Found e lba i buf)" by blast
  then have "lookup_scan name83 (dirents (media fs l)) = Some (Some (i, e))" "l = lba" "media fs l = buf"
    by (auto simp: lookup_body_def split: option.splits)
  then show "buf = media fs lba" "i < 16" "e = dirent_of (take 32 (drop (32 * i) buf))"
    by (auto simp: dirents_def dest!: lookup_scan_Some)
qed

section \<open>Data of a file\<close>

definition cluster_data :: "fat16 \<Rightarrow> u32 \<Rightarrow> u8 list" where
  "cluster_data fs c = concat (map (\<lambda>s. media fs (fat16_cluster_to_lba c fs + of_nat s)) [0 ..< unat (g_sectors_per_cluster fs)])"

definition file_data :: "fat16 \<Rightarrow> u32 list \<Rightarrow> u8 list" where
  "file_data fs cs = concat (map (cluster_data fs) cs)"

abbreviation bpc :: "fat16 \<Rightarrow> nat" where
  "bpc fs \<equiv> 512 * unat (g_sectors_per_cluster fs)"

lemma length_concat_sectors:
  "(\<And>s. s \<in> set ss \<Longrightarrow> length (f s) = n) \<Longrightarrow> length (concat (map f ss)) = n * length ss"
  by (induction ss) auto

lemma length_cluster_data: "disk_wf (dev fs) \<Longrightarrow> length (cluster_data fs c) = bpc fs"
  unfolding cluster_data_def by (subst length_concat_sectors[where n = 512]) (simp_all add: disk_wf_def)

lemma length_file_data: "disk_wf (dev fs) \<Longrightarrow> length (file_data fs cs) = bpc fs * length cs"
  unfolding file_data_def by (rule length_concat_sectors) (rule length_cluster_data)

lemma file_data_cong:
  assumes "g_data_start_lba fs' = g_data_start_lba fs" "g_sectors_per_cluster fs' = g_sectors_per_cluster fs"
    "\<And>c s. c \<in> set cs \<Longrightarrow> s < unat (g_sectors_per_cluster fs) \<Longrightarrow>
       media fs' (fat16_cluster_to_lba c fs + of_nat s) = media fs (fat16_cluster_to_lba c fs + of_nat s)"
  shows "file_data fs' cs = file_data fs cs"
proof -
  have "cluster_data fs' c = cluster_data fs c" if "c \<in> set cs" for c
    using assms that unfolding cluster_data_def
    by (intro arg_cong[of _ _ concat] map_cong) (auto simp: fat16_cluster_to_lba_def)
  then show ?thesis unfolding file_data_def by (metis map_eq_conv)
qed

lemma bpc_unat: "fat_ok fs \<Longrightarrow> unat (fat16_bytes_per_cluster fs) = bpc fs"
proof -
  assume "fat_ok fs"
  then have "unat (g_sectors_per_cluster fs) < 256" by (simp add: fat_ok_def word_less_nat_alt)
  then show ?thesis by (simp add: fat16_bytes_per_cluster_def unat_word_ariths)
qed

lemma bpc_pos: "fat_ok fs \<Longrightarrow> 0 < bpc fs"
  by (simp add: fat_ok_def unat_gt_0)

section \<open>Reading\<close>

lemma read_sectors_reliable:
  assumes "reliable (dev fs)" "\<And>l. length (media fs l) = 512" "off \<le> 512" "length acc \<le> len"
  shows "\<exists>n. read_sectors secs lba off acc len fs =
     (acc @ take (len - length acc) (drop off (concat (map (\<lambda>s. media fs (lba + of_nat s)) secs))), False,
      upd (g_fat fs) (media fs) n fs)"
  using assms
proof (induction secs arbitrary: off acc fs)
  case Nil
  then show ?case using upd_same[of fs, symmetric] by auto
next
  case (Cons s secs)
  show ?case
  proof (cases "length acc < len")
    case True
    let ?S = "media fs (lba + of_nat s)" and ?fs = "upd (g_fat fs) (media fs) (Suc (ios (dev fs))) fs"
    let ?acc = "acc @ take (min (len - length acc) (512 - off)) (drop off ?S)"
    have S: "length ?S = 512" using Cons.prems(2) .
    have "length ?acc \<le> len" using True S by simp
    then obtain n where n: "read_sectors secs lba 0 ?acc len ?fs =
       (?acc @ take (len - length ?acc) (concat (map (\<lambda>s. media fs (lba + of_nat s)) secs)), False, upd (g_fat fs) (media fs) n fs)"
      using Cons.IH[of ?fs 0 ?acc] Cons.prems S by auto
    have "?acc @ take (len - length ?acc) (concat (map (\<lambda>s. media fs (lba + of_nat s)) secs))
       = acc @ take (len - length acc) (drop off (concat (map (\<lambda>s. media fs (lba + of_nat s)) (s # secs))))"
      using S Cons.prems(3) by (simp add: min_def)
    then show ?thesis using n True Cons.prems(1) by (auto simp: fs_read_reliable)
  next
    case False
    then show ?thesis using Cons.prems(4) upd_same[of fs, symmetric] by auto
  qed
qed

lemma concat_drop_first:
  assumes "\<And>s. length (f s) = 512" "k \<le> n" "r \<le> 512"
  shows "drop r (concat (map f [k ..< n])) = drop (512 * k + r) (concat (map f [0 ..< n]))"
proof -
  have "[0 ..< n] = [0 ..< k] @ [k ..< n]" using assms(2) upt_add_eq_append[of 0 k "n - k"] by simp
  moreover have "length (concat (map f [0 ..< k])) = 512 * k"
    using length_concat_sectors[of "[0 ..< k]" f 512] assms(1) by simp
  ultimately show ?thesis by simp
qed

lemma read_cluster_reliable:
  assumes "fat_ok fs" "reliable (dev fs)" "disk_wf (dev fs)" "off < bpc fs" "length acc \<le> len"
  shows "\<exists>n. read_sectors [off div 512 ..< unat (g_sectors_per_cluster fs)] (fat16_cluster_to_lba c fs) (off mod 512) acc len fs =
     (acc @ take (len - length acc) (drop off (cluster_data fs c)), False, upd (g_fat fs) (media fs) n fs)"
proof -
  have l: "length (media fs x) = 512" for x using assms(3) by (simp add: disk_wf_def)
  have k: "off div 512 \<le> unat (g_sectors_per_cluster fs)" using assms(4) by simp
  have "drop (off mod 512) (concat (map (\<lambda>s. media fs (fat16_cluster_to_lba c fs + of_nat s)) [off div 512 ..< unat (g_sectors_per_cluster fs)]))
      = drop off (cluster_data fs c)"
    unfolding cluster_data_def using concat_drop_first[OF l k, of "off mod 512"] by simp
  then show ?thesis
    using read_sectors_reliable[OF assms(2) l _ assms(5), of "off mod 512" "[off div 512 ..< unat (g_sectors_per_cluster fs)]"
        "fat16_cluster_to_lba c fs"]
    by simp
qed

lemma next_cluster_chain:
  assumes "fat_ok fs" "2 \<le> c"
  shows "fat16_next_cluster c fs = ucast (g_fat fs c)"
proof -
  have "\<not> c < 2" using assms(2) by simp
  then show ?thesis using assms(1) by (simp add: fat16_next_cluster_def fat_ok_def)
qed

lemma read_chain_stop: "\<not> (length acc < len \<and> c < 0xFFF8) \<Longrightarrow> read_chain c off acc len fs = Some (acc, fs)"
  by (subst read_chain.simps) (simp only: if_False)

lemma read_chain_step:
  assumes "length acc < len" "c < 0xFFF8"
    "read_sectors [off div 512 ..< unat (g_sectors_per_cluster fs)] (fat16_cluster_to_lba c fs) (off mod 512) acc len fs = (acc', False, fs')"
  shows "read_chain c off acc len fs =
     (if length acc' < len then read_chain (fat16_next_cluster c fs') 0 acc' len fs' else Some (acc', fs'))"
  using assms by (subst read_chain.simps) simp

lemma read_chain_reliable:
  assumes "fat_ok fs" "reliable (dev fs)" "disk_wf (dev fs)" "off < bpc fs" "length acc \<le> len"
    "chain (g_fat fs) c cs"
  shows "\<exists>n. read_chain c off acc len fs =
     Some (acc @ take (len - length acc) (drop off (file_data fs cs)), upd (g_fat fs) (media fs) n fs)"
  using assms
proof (induction cs arbitrary: c off acc fs)
  case Nil
  then have "\<not> c < 0xFFF8" by (simp add: not_less)
  then have "read_chain c off acc len fs = Some (acc, fs)" by (intro read_chain_stop) simp
  then show ?case using upd_same[of fs] by (auto simp: file_data_def intro!: exI[of _ "ios (dev fs)"])
next
  case (Cons x cs)
  have c: "c = x" "2 \<le> x" "x < 0xFFF8" "chain (g_fat fs) (ucast (g_fat fs x)) cs" using Cons.prems(6) by auto
  show ?case
  proof (cases "length acc < len")
    case True
    let ?acc = "acc @ take (len - length acc) (drop off (cluster_data fs x))"
    obtain n where n: "read_sectors [off div 512 ..< unat (g_sectors_per_cluster fs)] (fat16_cluster_to_lba x fs) (off mod 512) acc len fs
        = (?acc, False, upd (g_fat fs) (media fs) n fs)"
      using read_cluster_reliable[OF Cons.prems(1-5)] by blast
    let ?fs = "upd (g_fat fs) (media fs) n fs"
    have cd: "file_data ?fs cs = file_data fs cs" by (rule file_data_cong) simp_all
    have wf: "disk_wf (dev ?fs)" using Cons.prems(3) by (simp add: disk_wf_def)
    have data: "take (len - length acc) (drop off (file_data fs (x # cs)))
        = take (len - length acc) (drop off (cluster_data fs x)) @ take (len - length ?acc) (file_data fs cs)"
      using length_cluster_data[OF Cons.prems(3), of x] Cons.prems(4) by (simp add: file_data_def min_def)
    note step = read_chain_step[OF True, of x off fs, OF c(3) n]
    show ?thesis
    proof (cases "length ?acc < len")
      case False
      then have "take (len - length ?acc) (file_data fs cs) = []" by simp
      then have "acc @ take (len - length acc) (drop off (file_data fs (x # cs))) = ?acc" unfolding data by simp
      then show ?thesis using False step c(1) by (metis (no_types))
    next
      case less: True
      obtain m where "read_chain (ucast (g_fat fs x)) 0 ?acc len ?fs =
          Some (?acc @ take (len - length ?acc) (drop 0 (file_data fs cs)), upd (g_fat fs) (media fs) m fs)"
        using Cons.IH[of ?fs 0 ?acc "ucast (g_fat fs x)"] Cons.prems(1,2) bpc_pos[of fs] c(4) wf cd less_imp_le[OF less]
        by (simp only: upd_simps drop_0 simp_thms) blast
      moreover have "fat16_next_cluster x ?fs = ucast (g_fat fs x)"
        using next_cluster_chain[of ?fs x] Cons.prems(1) c(2) by simp
      ultimately have "read_chain c off acc len fs =
          Some (?acc @ take (len - length ?acc) (drop 0 (file_data fs cs)), upd (g_fat fs) (media fs) m fs)"
        using step less c(1) by (simp only: if_True)
      moreover have "?acc @ take (len - length ?acc) (drop 0 (file_data fs cs))
          = acc @ take (len - length acc) (drop off (file_data fs (x # cs)))"
        unfolding data by (simp only: drop_0 append_assoc)
      ultimately show ?thesis by (metis (no_types))
    qed
  next
    case False
    then have "read_chain c off acc len fs = Some (acc, fs)" by (intro read_chain_stop) simp
    then show ?thesis using False upd_same[of fs] by (auto intro!: exI[of _ "ios (dev fs)"])
  qed
qed

lemma seek_read_chain:
  assumes "fat_ok fs" "chain (g_fat fs) c cs" "cs \<noteq> []"
  shows "if n < length cs then \<exists>x. seek_read n c fs = Some x \<and> chain (g_fat fs) x (drop n cs)
     else seek_read n c fs = None"
  using assms(2,3)
proof (induction n arbitrary: c cs)
  case (Suc n)
  then obtain xs where cs: "cs = c # xs" "2 \<le> c" "chain (g_fat fs) (ucast (g_fat fs c)) xs" by (cases cs) auto
  note nx = next_cluster_chain[OF assms(1) cs(2)]
  show ?case
  proof (cases xs)
    case Nil
    then show ?thesis using cs nx by simp
  next
    case (Cons y ys)
    then have "\<not> (0xFFF8 \<le> (ucast (g_fat fs c) :: u32))" using cs(3) by (auto simp: not_le)
    then show ?thesis using Suc.IH[OF cs(3)] Cons cs nx by (auto split: if_splits)
  qed
qed simp

lemma fat16_read_at_chain:
  assumes "fat_ok fs" "reliable (dev fs)" "disk_wf (dev fs)" "chain (g_fat fs) first cs" "cs \<noteq> []"
    "len \<noteq> 0" "unat pos + unat len < 2 ^ 32"
  shows "\<exists>n. fat16_read_at first pos len sz fs =
     Some (Some (take (min (unat len) (unat sz - unat pos)) (drop (unat pos) (file_data fs cs))),
           upd (g_fat fs) (media fs) n fs)"
proof (cases "pos \<ge> sz")
  case True
  then have "min (unat len) (unat sz - unat pos) = 0" by (simp add: word_le_nat_alt)
  then show ?thesis
    using True assms(1,6) upd_same[of fs, symmetric] by (auto simp: fat16_read_at_def fat_ok_def)
next
  case False
  define l where "l = (if pos + len > sz then sz - pos else len)"
  have sum: "unat (pos + len) = unat pos + unat len" using assms(7) by (simp add: unat_word_ariths)
  have ps: "unat pos < unat sz" using False by (simp add: word_le_nat_alt not_le)
  have l: "unat l = min (unat len) (unat sz - unat pos)"
    using ps sum by (auto simp: l_def word_less_nat_alt unat_sub_if_size)
  let ?b = "fat16_bytes_per_cluster fs"
  have b: "unat (pos div ?b) = unat pos div bpc fs" "unat (pos mod ?b) = unat pos mod bpc fs"
    using bpc_unat[OF assms(1)] by (simp_all add: unat_div unat_mod)
  have bp: "0 < bpc fs" by (rule bpc_pos[OF assms(1)])
  let ?n = "unat pos div bpc fs"
  have run: "fat16_read_at first pos len sz fs = (case seek_read ?n first fs of
      None \<Rightarrow> Some (Some [], fs)
    | Some cluster \<Rightarrow> read_chain cluster (unat pos mod bpc fs) [] (unat l) fs \<bind> (\<lambda>(bs, fs). Some (Some bs, fs)))"
    using False assms(1,6) b unfolding fat16_read_at_def l_def[symmetric] fat_ok_def
    by (simp add: Let_def l_def[symmetric] split: option.splits)
  show ?thesis
  proof (cases "?n < length cs")
    case True
    then obtain x where x: "seek_read ?n first fs = Some x" "chain (g_fat fs) x (drop ?n cs)"
      using seek_read_chain[OF assms(1,4,5), of ?n] by auto
    obtain n where n: "read_chain x (unat pos mod bpc fs) [] (unat l) fs =
        Some (take (unat l) (drop (unat pos mod bpc fs) (file_data fs (drop ?n cs))), upd (g_fat fs) (media fs) n fs)"
      using read_chain_reliable[OF assms(1-3) _ _ x(2), of "unat pos mod bpc fs" "[]"] bp by auto
    have len: "length (file_data fs (take ?n cs)) = bpc fs * ?n"
      using length_file_data[OF assms(3), of "take ?n cs"] True by simp
    have "file_data fs cs = file_data fs (take ?n cs) @ file_data fs (drop ?n cs)"
      unfolding file_data_def by (metis append_take_drop_id concat_append map_append)
    then have "drop (bpc fs * ?n + unat pos mod bpc fs) (file_data fs cs) = drop (unat pos mod bpc fs) (file_data fs (drop ?n cs))"
      unfolding len[symmetric] by simp
    then have "drop (unat pos) (file_data fs cs) = drop (unat pos mod bpc fs) (file_data fs (drop ?n cs))"
      by (simp only: mult_div_mod_eq)
    then show ?thesis using run x(1) n l by auto
  next
    case no: False
    then have "bpc fs * length cs \<le> bpc fs * ?n" by (intro mult_le_mono2) simp
    also have "\<dots> \<le> unat pos" by (simp only: times_div_less_eq_dividend)
    finally have "drop (unat pos) (file_data fs cs) = []" using length_file_data[OF assms(3)] by simp
    then show ?thesis
      using run no seek_read_chain[OF assms(1,4,5), of ?n] upd_same[of fs, symmetric] by auto
  qed
qed

end
