(* ===== verification/Fat16_Write.thy ===== *)
theory Fat16_Write
  imports Fat16_File
begin

text \<open>
  Replacing a whole file: \<open>write_chain\<close> builds a fresh chain that holds exactly the data, touches
  only free clusters, and succeeds exactly when there are enough of them.
\<close>

section \<open>Sectors of different clusters do not overlap\<close>

lemma unat_lba:
  assumes "fat_ok fs" "2 \<le> c" "c < g_total_clusters fs" "s < unat (g_sectors_per_cluster fs)"
  shows "unat (fat16_cluster_to_lba c fs + of_nat s)
     = unat (g_data_start_lba fs) + (unat c - 2) * unat (g_sectors_per_cluster fs) + s"
proof -
  let ?spc = "g_sectors_per_cluster fs" and ?d = "g_data_start_lba fs"
  have b: "unat ?spc < 256" "unat ?d < 0x4000000" "unat c < 0xFFF8" "2 \<le> unat c"
    using assms by (auto simp: fat_ok_def word_less_nat_alt word_le_nat_alt)
  have m: "(unat c - 2) * unat ?spc \<le> 0xFFF8 * 256" using b by (intro mult_le_mono) auto
  have c2: "unat (c - 2) = unat c - 2" using assms(2) by (simp add: unat_sub)
  have "unat ((c - 2) * ?spc) = (unat c - 2) * unat ?spc"
    using m by (simp add: unat_word_ariths c2)
  then have "unat (fat16_cluster_to_lba c fs) = unat ?d + (unat c - 2) * unat ?spc"
    using m b(2) by (simp add: fat16_cluster_to_lba_def unat_word_ariths)
  then show ?thesis using m b assms(4) by (simp add: unat_word_ariths unat_of_nat)
qed

lemma lba_inj:
  assumes "fat_ok fs" "2 \<le> c" "c < g_total_clusters fs" "s < unat (g_sectors_per_cluster fs)"
    "2 \<le> c'" "c' < g_total_clusters fs" "s' < unat (g_sectors_per_cluster fs)"
    "fat16_cluster_to_lba c fs + of_nat s = fat16_cluster_to_lba c' fs + of_nat s'"
  shows "c = c' \<and> s = s'"
proof -
  let ?k = "unat (g_sectors_per_cluster fs)"
  have "(unat c - 2) * ?k + s = (unat c' - 2) * ?k + s'"
    using unat_lba[OF assms(1-4)] unat_lba[OF assms(1,5-7)] assms(8) by simp
  then have "s + (unat c - 2) * ?k = s' + (unat c' - 2) * ?k" by (simp only: add.commute)
  moreover have "(s + (unat c - 2) * ?k) div ?k = unat c - 2" "(s' + (unat c' - 2) * ?k) div ?k = unat c' - 2"
    "(s + (unat c - 2) * ?k) mod ?k = s" "(s' + (unat c' - 2) * ?k) mod ?k = s'"
    using assms(4,7) by simp_all
  ultimately have "unat c - 2 = unat c' - 2" "s = s'" by metis+
  moreover have "2 \<le> unat c" "2 \<le> unat c'" using assms(2,5) by (simp_all add: word_le_nat_alt)
  ultimately show ?thesis by (metis le_add_diff_inverse2 word_unat_eq_iff)
qed

text \<open>The sectors of a cluster, and of the data area as a whole.\<close>

definition cluster_lbas :: "fat16 \<Rightarrow> u32 \<Rightarrow> u32 set" where
  "cluster_lbas fs c = (\<lambda>s. fat16_cluster_to_lba c fs + of_nat s) ` {..< unat (g_sectors_per_cluster fs)}"

lemma cluster_lbas_disjoint:
  assumes "fat_ok fs" "2 \<le> c" "c < g_total_clusters fs" "2 \<le> c'" "c' < g_total_clusters fs" "c \<noteq> c'"
  shows "cluster_lbas fs c \<inter> cluster_lbas fs c' = {}"
  using lba_inj[OF assms(1-3) _ assms(4,5)] assms(6) by (fastforce simp: cluster_lbas_def)

lemma cluster_lbas_data:
  assumes "fat_ok fs" "2 \<le> c" "c < g_total_clusters fs" "lba \<in> cluster_lbas fs c"
  shows "g_data_start_lba fs \<le> lba"
  using assms(4) unat_lba[OF assms(1-3)] by (auto simp: cluster_lbas_def word_le_nat_alt)

lemma cluster_lbas_upd [simp]: "cluster_lbas (upd fat m n fs) = cluster_lbas fs"
  by (simp add: cluster_lbas_def fun_eq_iff)

section \<open>Writing one cluster\<close>

lemma concat_pieces:
  "concat (map (\<lambda>s. pad_sector (take 512 (drop (512 * s) d))) [0 ..< k]) = take (512 * k) d @ replicate (512 * k - length d) 0"
proof (induction k)
  case (Suc k)
  show ?case
  proof (cases "length d \<le> 512 * k")
    case True
    then have "replicate (512 * Suc k - length d) (0 :: u8) = replicate (512 * k - length d) 0 @ replicate 512 0"
      by (simp add: replicate_add[symmetric])
    then show ?thesis using Suc True by (simp add: pad_sector_def)
  next
    case False
    have "take (512 * Suc k) d = take (512 * k) d @ take 512 (drop (512 * k) d)"
      by (metis add.commute mult_Suc_right take_add)
    moreover have "512 - length (take 512 (drop (512 * k) d)) = 512 * Suc k - length d" using False by simp
    ultimately show ?thesis using Suc False by (simp add: pad_sector_def)
  qed
qed simp

lemma cluster_writes_fst: "fst ` set (cluster_writes (fat16_cluster_to_lba c fs) (unat (g_sectors_per_cluster fs)) d) = cluster_lbas fs c"
  by (simp add: cluster_writes_def cluster_lbas_def image_image atLeast0LessThan)

lemma cluster_writes_distinct:
  assumes "fat_ok fs" "2 \<le> c" "c < g_total_clusters fs"
  shows "distinct (map fst (cluster_writes (fat16_cluster_to_lba c fs) (unat (g_sectors_per_cluster fs)) d))"
  using lba_inj[OF assms _ assms(2,3)]
  by (auto simp: cluster_writes_def distinct_map inj_on_def comp_def)

lemma cluster_data_written:
  assumes "fat_ok fs" "2 \<le> c" "c < g_total_clusters fs"
    "media fs' = apply_writes (cluster_writes (fat16_cluster_to_lba c fs) (unat (g_sectors_per_cluster fs)) d) m"
    "g_data_start_lba fs' = g_data_start_lba fs" "g_sectors_per_cluster fs' = g_sectors_per_cluster fs"
  shows "cluster_data fs' c = take (bpc fs) d @ replicate (bpc fs - length d) 0"
proof -
  let ?ws = "cluster_writes (fat16_cluster_to_lba c fs) (unat (g_sectors_per_cluster fs)) d"
  have "media fs' (fat16_cluster_to_lba c fs + of_nat s) = pad_sector (take 512 (drop (512 * s) d))"
    if "s < unat (g_sectors_per_cluster fs)" for s
    unfolding assms(4)
    by (rule apply_writes_in[OF cluster_writes_distinct[OF assms(1-3)]]) (use that in \<open>auto simp: cluster_writes_def\<close>)
  then have "cluster_data fs' c = concat (map (\<lambda>s. pad_sector (take 512 (drop (512 * s) d))) [0 ..< unat (g_sectors_per_cluster fs)])"
    unfolding cluster_data_def using assms(5,6)
    by (intro arg_cong[of _ _ concat] map_cong) (auto simp: fat16_cluster_to_lba_def)
  then show ?thesis by (simp add: concat_pieces)
qed

section \<open>Building the chain\<close>

lemma cluster_free_range:
  assumes "fat_ok fs" "cluster_free fs c"
  shows "2 \<le> c" "c < g_total_clusters fs" "c < 0xFFF8" "c \<noteq> 0" "ucast (ucast c :: u16) = c" "(ucast c :: u16) \<noteq> 0"
proof -
  show r: "2 \<le> c" "c < g_total_clusters fs" "c < 0xFFF8" "c \<noteq> 0"
    using assms by (auto simp: cluster_free_def fat_ok_def)
  have "unat c < 0x10000" using r(3) by (simp add: word_less_nat_alt)
  then have u: "unat (ucast c :: u16) = unat c" by (simp add: unat_ucast)
  then show "ucast (ucast c :: u16) = c" by (simp add: word_unat_eq_iff)
  show "(ucast c :: u16) \<noteq> 0" using u r(4) by (metis unat_0 unat_eq_zero)
qed

text \<open>The state after allocating \<open>c\<close>, linking it behind \<open>prev\<close> and writing its data.\<close>

definition grown :: "u32 \<Rightarrow> u32 \<Rightarrow> u8 list \<Rightarrow> fat16 \<Rightarrow> fat16" where
  "grown c prev d fs = upd ((if prev = 0 then g_fat fs else (g_fat fs)(prev := ucast c))(c := 0xFFFF))
     (apply_writes (cluster_writes (fat16_cluster_to_lba c fs) (unat (g_sectors_per_cluster fs)) d) (media fs))
     (ios (dev fs) + unat (g_sectors_per_cluster fs)) fs"

lemma write_chain_done: "written \<ge> length buf \<Longrightarrow> write_chain buf written first prev fs = Some (Some first, fs)"
  by (subst write_chain.simps) (simp only: if_False not_less[symmetric])

lemma write_chain_full:
  "written < length buf \<Longrightarrow> fat16_alloc_cluster fs = (0, fs) \<Longrightarrow> write_chain buf written first prev fs = Some (None, fs)"
  by (subst write_chain.simps) simp

lemma write_chain_step:
  assumes "reliable (dev fs)" "written < length buf" "fat16_alloc_cluster fs = (c, set_fat c 0xFFFF fs)" "c \<noteq> 0" "prev \<noteq> c"
  shows "write_chain buf written first prev fs = write_chain buf (written + min (bpc fs) (length buf - written))
     (if prev = 0 then c else first) c (grown c prev (drop written buf) fs)"
proof -
  let ?f = "set_fat c 0xFFFF (if prev = 0 then set_fat c 0xFFFF fs else set_fat prev (ucast c) (set_fat c 0xFFFF fs))"
  have f: "?f = upd ((if prev = 0 then g_fat fs else (g_fat fs)(prev := ucast c))(c := 0xFFFF)) (media fs) (ios (dev fs)) fs"
    using assms(5) by (simp add: set_fat_upd fun_upd_twist del: fun_upd_apply)
  have "write_sectors (cluster_writes (fat16_cluster_to_lba c fs) (unat (g_sectors_per_cluster fs)) (drop written buf)) ?f
      = (0, grown c prev (drop written buf) fs)"
    unfolding f using assms(1) by (simp add: write_sectors_reliable grown_def cluster_writes_def del: fun_upd_apply)
  moreover have "fat16_cluster_to_lba c (set_fat c 0xFFFF fs) = fat16_cluster_to_lba c fs"
    "g_sectors_per_cluster (set_fat c 0xFFFF fs) = g_sectors_per_cluster fs"
    "g_sectors_per_cluster (grown c prev (drop written buf) fs) = g_sectors_per_cluster fs"
    by (simp_all add: set_fat_upd grown_def)
  ultimately show ?thesis
    using assms(2-4) by (subst write_chain.simps) (simp add: mult.commute)
qed

lemma grown_free:
  assumes "fat_ok fs" "cluster_free fs c" "prev \<noteq> 0 \<longrightarrow> \<not> cluster_free fs prev"
  shows "cluster_free (grown c prev d fs) x \<longleftrightarrow> x \<noteq> c \<and> cluster_free fs x"
  using assms(3) cluster_free_range(6)[OF assms(1,2)] by (auto simp: grown_def cluster_free_def)

lemma grown_simps [simp]:
  "fat_ok (grown c prev d fs) = fat_ok fs" "reliable (dev (grown c prev d fs)) = reliable (dev fs)"
  "cluster_lbas (grown c prev d fs) = cluster_lbas fs" "upd fat m n (grown c prev d fs) = upd fat m n fs"
  "g_sectors_per_cluster (grown c prev d fs) = g_sectors_per_cluster fs"
  "g_data_start_lba (grown c prev d fs) = g_data_start_lba fs"
  by (simp_all add: grown_def)

lemma card_free_step:
  assumes "fat_ok fs" "cluster_free fs c" "prev \<noteq> 0 \<longrightarrow> \<not> cluster_free fs prev"
  shows "card {x. cluster_free fs x} = Suc (card {x. cluster_free (grown c prev d fs) x})"
proof -
  have "{x. cluster_free (grown c prev d fs) x} = {x. cluster_free fs x} - {c}"
    using grown_free[OF assms] by auto
  then show ?thesis using assms(2) card.remove[of "{x. cluster_free fs x}" c] by simp
qed

text \<open>What a run of \<open>write_chain\<close> leaves: \<open>cs\<close> are the clusters it took, in order.\<close>

definition chain_written :: "u8 list \<Rightarrow> u32 option \<Rightarrow> u32 \<Rightarrow> u32 \<Rightarrow> u32 list \<Rightarrow> fat16 \<Rightarrow> fat16 \<Rightarrow> bool" where
  "chain_written d r first prev cs fs fs' \<longleftrightarrow>
     (\<forall>c \<in> set cs. cluster_free fs c) \<and> distinct cs
     \<and> (\<forall>x. x \<notin> set cs \<and> x \<noteq> prev \<longrightarrow> g_fat fs' x = g_fat fs x)
     \<and> (\<forall>l. (\<forall>c \<in> set cs. l \<notin> cluster_lbas fs c) \<longrightarrow> media fs' l = media fs l)
     \<and> ((\<forall>l. length (media fs l) = 512) \<longrightarrow> (\<forall>l. length (media fs' l) = 512))
     \<and> (case r of None \<Rightarrow> card {c. cluster_free fs c} * bpc fs < length d
        | Some f \<Rightarrow> f = (if prev = 0 \<and> cs \<noteq> [] then hd cs else first) \<and> (cs = [] \<longleftrightarrow> d = [])
            \<and> (prev \<noteq> 0 \<longrightarrow> g_fat fs' prev = (if cs = [] then g_fat fs prev else ucast (hd cs)))
            \<and> (cs \<noteq> [] \<longrightarrow> chain (g_fat fs') (hd cs) cs)
            \<and> take (length d) (file_data fs' cs) = d)"

lemma file_data_step:
  assumes "fat_ok fs" "cluster_free fs c" "\<forall>x \<in> set cs. cluster_free fs x \<and> x \<noteq> c"
    "\<forall>l. (\<forall>x \<in> set cs. l \<notin> cluster_lbas fs x) \<longrightarrow> m l = media (grown c prev d fs) l"
    "take (length d - bpc fs) (file_data (upd fat m n fs) cs) = drop (bpc fs) d"
  shows "take (length d) (file_data (upd fat m n fs) (c # cs)) = d"
proof -
  note rc = cluster_free_range[OF assms(1,2)]
  have "media (upd fat m n fs) (fat16_cluster_to_lba c fs + of_nat s) = media (grown c prev d fs) (fat16_cluster_to_lba c fs + of_nat s)"
    if "s < unat (g_sectors_per_cluster fs)" for s
  proof -
    have in_c: "fat16_cluster_to_lba c fs + of_nat s \<in> cluster_lbas fs c" using that by (auto simp: cluster_lbas_def)
    have "fat16_cluster_to_lba c fs + of_nat s \<notin> cluster_lbas fs x" if x: "x \<in> set cs" for x
    proof -
      have "cluster_free fs x" "c \<noteq> x" using assms(3) x by auto
      then have "cluster_lbas fs c \<inter> cluster_lbas fs x = {}"
        using cluster_lbas_disjoint[OF assms(1) rc(1,2)] cluster_free_range(1,2)[OF assms(1)] by simp
      then show ?thesis using in_c by (meson disjoint_iff)
    qed
    then show ?thesis using assms(4) by simp
  qed
  then have "file_data (upd fat m n fs) [c] = file_data (grown c prev d fs) [c]"
    by (intro file_data_cong) (simp_all add: fat16_cluster_to_lba_def)
  also have "\<dots> = take (bpc fs) d @ replicate (bpc fs - length d) 0"
    using cluster_data_written[OF assms(1) rc(1,2), of "grown c prev d fs" d "media fs"]
    by (simp add: file_data_def) (simp add: grown_def)
  finally have fd: "file_data (upd fat m n fs) (c # cs) = (take (bpc fs) d @ replicate (bpc fs - length d) 0) @ file_data (upd fat m n fs) cs"
    by (simp add: file_data_def)
  show ?thesis
  proof (cases "length d \<le> bpc fs")
    case True
    then show ?thesis using fd by simp
  next
    case False
    then have "take (length d) (file_data (upd fat m n fs) (c # cs)) = take (bpc fs) d @ drop (bpc fs) d"
      using fd assms(5) by (simp add: min_def)
    then show ?thesis by simp
  qed
qed

lemma apply_writes_length:
  "\<forall>l. length (m l) = 512 \<Longrightarrow> \<forall>(l, b) \<in> set ws. length b = 512 \<Longrightarrow> length (apply_writes ws m l) = 512"
  by (induction ws arbitrary: m) auto

lemma grown_length: "\<forall>l. length (media fs l) = 512 \<Longrightarrow> \<forall>l. length (media (grown c prev d fs) l) = 512"
  by (auto simp: grown_def cluster_writes_def pad_sector_def intro!: apply_writes_length)

lemma chain_cons_fresh:
  assumes "2 \<le> c" "c < 0xFFF8" "cs = [] \<longrightarrow> fat c = 0xFFFF"
    "cs \<noteq> [] \<longrightarrow> fat c = ucast (hd cs) \<and> chain fat (hd cs) cs \<and> ucast (ucast (hd cs) :: u16) = hd cs"
  shows "chain fat c (c # cs)"
  using assms by (cases "cs = []") simp_all

lemma chain_written_step:
  assumes "fat_ok fs" "cluster_free fs c" "prev \<noteq> 0 \<longrightarrow> \<not> cluster_free fs prev" "d \<noteq> []"
    "chain_written (drop (bpc fs) d) r (if prev = 0 then c else first) c cs (grown c prev d fs) (upd fat m n fs)"
  shows "chain_written d r first prev (c # cs) fs (upd fat m n fs)"
proof -
  note rc = cluster_free_range[OF assms(1,2)]
  have pc: "prev \<noteq> c" using assms(2,3) rc(4) by auto
  have g: "g_fat (grown c prev d fs) x = (if x = c then 0xFFFF else if x = prev \<and> prev \<noteq> 0 then ucast c else g_fat fs x)" for x
    by (simp add: grown_def)
  have free: "\<forall>x \<in> set cs. cluster_free fs x \<and> x \<noteq> c" and dist: "distinct cs"
    and frame: "\<forall>x. x \<notin> set cs \<and> x \<noteq> c \<longrightarrow> fat x = g_fat (grown c prev d fs) x"
    and med: "\<forall>l. (\<forall>x \<in> set cs. l \<notin> cluster_lbas fs x) \<longrightarrow> m l = media (grown c prev d fs) l"
    and wf: "(\<forall>l. length (media fs l) = 512) \<longrightarrow> (\<forall>l. length (m l) = 512)"
    using assms(5) grown_free[OF assms(1-3)] grown_length[of fs c prev d] by (auto simp: chain_written_def)
  have mg: "media (grown c prev d fs) l = media fs l" if "l \<notin> cluster_lbas fs c" for l
    using that cluster_writes_fst[of c fs d] by (simp add: grown_def apply_writes_other)
  have dist: "distinct (c # cs)" using dist free by auto
  have prev: "prev \<notin> set cs" if "prev \<noteq> 0" using free assms(3) that by auto
  have fr: "\<forall>x. x \<notin> set (c # cs) \<and> x \<noteq> prev \<longrightarrow> fat x = g_fat fs x" using frame g by auto
  have md: "\<forall>l. (\<forall>x \<in> set (c # cs). l \<notin> cluster_lbas fs x) \<longrightarrow> m l = media fs l" using med mg by auto
  show ?thesis
  proof (cases r)
    case None
    then have "card {x. cluster_free (grown c prev d fs) x} * bpc fs < length d - bpc fs"
      using assms(5) by (simp add: chain_written_def)
    then have "card {x. cluster_free fs x} * bpc fs < length d" using card_free_step[OF assms(1-3), of d] by simp
    then show ?thesis using None free dist fr md wf assms(2) by (simp add: chain_written_def)
  next
    case (Some f)
    have ih: "f = (if prev = 0 then c else first)" "cs = [] \<longleftrightarrow> drop (bpc fs) d = []"
      "fat c = (if cs = [] then 0xFFFF else ucast (hd cs))" "cs \<noteq> [] \<longrightarrow> chain fat (hd cs) cs"
      "take (length d - bpc fs) (file_data (upd fat m n fs) cs) = drop (bpc fs) d"
      using assms(5) Some rc(4) g[of c] by (auto simp: chain_written_def)
    have "cs \<noteq> [] \<longrightarrow> ucast (ucast (hd cs) :: u16) = hd cs"
      using cluster_free_range(5)[OF assms(1)] free by simp
    then have ch: "chain fat c (c # cs)" using ih(3,4) rc(1,3) by (intro chain_cons_fresh) auto
    have "prev \<noteq> 0 \<longrightarrow> fat prev = ucast c" using frame prev pc g by auto
    then show ?thesis
      using Some free dist fr md wf assms(2,4) ih(1) ch file_data_step[OF assms(1,2) free med ih(5)]
      by (simp add: chain_written_def del: chain.simps)
  qed
qed

lemma write_chain_spec:
  assumes "fat_ok fs" "reliable (dev fs)" "prev \<noteq> 0 \<longrightarrow> \<not> cluster_free fs prev" "written \<le> length buf"
  shows "\<exists>r fat m n cs. write_chain buf written first prev fs = Some (r, upd fat m n fs)
     \<and> chain_written (drop written buf) r first prev cs fs (upd fat m n fs)"
  using assms
proof (induction "length buf - written" arbitrary: written first prev fs rule: less_induct)
  case less
  show ?case
  proof (cases "written < length buf")
    case False
    then have "chain_written (drop written buf) (Some first) first prev [] fs (upd (g_fat fs) (media fs) (ios (dev fs)) fs)"
      by (simp add: chain_written_def)
    then show ?thesis using False write_chain_done[of buf written first prev fs] upd_same[of fs] by (metis not_less)
  next
    case lt: True
    show ?thesis
    proof (cases rule: fat16_alloc_cases[of fs])
      case 1
      then have "card {x. cluster_free fs x} = 0" by (metis (no_types) Collect_empty_eq card.empty)
      then have "card {x. cluster_free fs x} * bpc fs < length (drop written buf)"
        using lt by (simp only: mult_zero_left length_drop zero_less_diff)
      then have "chain_written (drop written buf) None first prev [] fs (upd (g_fat fs) (media fs) (ios (dev fs)) fs)"
        by (simp add: chain_written_def)
      then show ?thesis using write_chain_full[OF lt 1(1)] upd_same[of fs] by metis
    next
      case (2 c)
      let ?d = "drop written buf" let ?fs = "grown c prev ?d fs" let ?w = "written + min (bpc fs) (length buf - written)"
      have pc: "prev \<noteq> c" using 2(2,3) less.prems(3) by auto
      have nc: "c \<noteq> 0 \<longrightarrow> \<not> cluster_free ?fs c" using grown_free[OF less.prems(1) 2(3) less.prems(3)] by simp
      have w: "length buf - ?w < length buf - written" "?w \<le> length buf" using lt bpc_pos[OF less.prems(1)] by auto
      have dw: "drop ?w buf = drop (bpc fs) ?d" by (simp add: min_def add.commute)
      obtain r fat m n cs where ih: "write_chain buf ?w (if prev = 0 then c else first) c ?fs = Some (r, upd fat m n fs)"
        "chain_written (drop (bpc fs) ?d) r (if prev = 0 then c else first) c cs ?fs (upd fat m n fs)"
        using less.hyps[OF w(1), of ?fs c "if prev = 0 then c else first"] less.prems(1,2) nc w(2) unfolding dw grown_simps by blast
      have "chain_written ?d r first prev (c # cs) fs (upd fat m n fs)"
        by (rule chain_written_step[OF less.prems(1) 2(3) less.prems(3) _ ih(2)]) (use lt in simp)
      moreover have "write_chain buf written first prev fs = Some (r, upd fat m n fs)"
        using write_chain_step[OF less.prems(2) lt 2(1,2) pc] ih(1) by simp
      ultimately show ?thesis by blast
    qed
  qed
qed

section \<open>Flushing\<close>

lemma flush_writes_lba:
  assumes "fat_ok fs" "(l, b) \<in> set (flush_writes fs)"
  obtains f s where "f < unat (g_num_fats fs)" "s < unat (g_fat_size_sectors fs)" "b = fat_sector s (g_fat fs)"
    "l = g_fat_start_lba fs + of_nat f * g_fat_size_sectors fs + of_nat s"
    "unat l = unat (g_fat_start_lba fs) + f * unat (g_fat_size_sectors fs) + s"
proof -
  obtain f s where fs: "f < unat (g_num_fats fs)" "s < unat (g_fat_size_sectors fs)" "b = fat_sector s (g_fat fs)"
    "l = g_fat_start_lba fs + of_nat f * g_fat_size_sectors fs + of_nat s"
    using assms(2) by (auto simp: flush_writes_def)
  let ?z = "unat (g_fat_size_sectors fs)"
  have z: "f * ?z + s < unat (g_num_fats fs) * ?z"
  proof -
    have "f * ?z + s < Suc f * ?z" using fs(2) by simp
    also have "\<dots> \<le> unat (g_num_fats fs) * ?z" using fs(1) by (intro mult_le_mono1) simp
    finally show ?thesis .
  qed
  have lim: "unat (g_fat_start_lba fs) + unat (g_num_fats fs) * ?z < 0x4000000"
    using assms(1) by (auto simp: fat_ok_def word_less_nat_alt)
  have fz: "unat (of_nat f * g_fat_size_sectors fs :: u32) = f * ?z"
    using z lim fs(1) unat_u8[of "g_num_fats fs"] by (simp add: unat_word_ariths unat_of_nat)
  then have "unat l = unat (g_fat_start_lba fs) + f * ?z + s"
    using fs(4) z lim by (simp add: unat_word_ariths unat_of_nat)
  then show ?thesis using that fs by blast
qed

lemma flush_writes_below:
  assumes "fat_ok fs" "(l, b) \<in> set (flush_writes fs)"
  shows "l < g_root_start_lba fs"
proof -
  obtain f s where fs: "f < unat (g_num_fats fs)" "s < unat (g_fat_size_sectors fs)"
    "unat l = unat (g_fat_start_lba fs) + f * unat (g_fat_size_sectors fs) + s"
    using flush_writes_lba[OF assms] by metis
  have "f * unat (g_fat_size_sectors fs) + s < Suc f * unat (g_fat_size_sectors fs)" using fs(2) by simp
  also have "\<dots> \<le> unat (g_num_fats fs) * unat (g_fat_size_sectors fs)" using fs(1) by (intro mult_le_mono1) simp
  finally show ?thesis using fs(3) assms(1) by (simp add: fat_ok_def word_less_nat_alt)
qed

lemma flush_reliable:
  assumes "fat_ok fs" "reliable (dev fs)"
  obtains m n where "fat16_flush_fat fs = (0, upd (g_fat fs) m n fs)"
    "\<And>l. g_root_start_lba fs \<le> l \<Longrightarrow> m l = media fs l" "\<And>l. l \<notin> fst ` set (flush_writes fs) \<Longrightarrow> m l = media fs l"
proof -
  have out: "l \<notin> fst ` set (flush_writes fs)" if "g_root_start_lba fs \<le> l" for l
  proof
    assume "l \<in> fst ` set (flush_writes fs)"
    then obtain b where "(l, b) \<in> set (flush_writes fs)" by auto
    from flush_writes_below[OF assms(1) this] that show False by simp
  qed
  show ?thesis
  proof (rule that)
    show "fat16_flush_fat fs = (0, upd (g_fat fs) (apply_writes (flush_writes fs) (media fs)) (ios (dev fs) + length (flush_writes fs)) fs)"
      unfolding fat16_flush_fat_def by (rule write_sectors_reliable[OF assms(2)])
    show "apply_writes (flush_writes fs) (media fs) l = media fs l" if "g_root_start_lba fs \<le> l" for l
      by (rule apply_writes_other[OF out[OF that]])
    show "apply_writes (flush_writes fs) (media fs) l = media fs l" if "l \<notin> fst ` set (flush_writes fs)" for l
      by (rule apply_writes_other[OF that])
  qed
qed

section \<open>Replacing a file\<close>

text \<open>The clusters of an entry's file: none if the entry has no first cluster.\<close>

definition file_chain :: "(u32 \<Rightarrow> u16) \<Rightarrow> u16 \<Rightarrow> u32 list \<Rightarrow> bool" where
  "file_chain fat first cs \<longleftrightarrow> (if first = 0 then cs = [] else cs \<noteq> [] \<and> chain fat (ucast first) cs)"

lemma free_file_chain:
  assumes "file_chain fat first cs"
  shows "free_chain (ucast first) fat = (\<lambda>x. if x \<in> set cs then 0 else fat x)"
  using assms free_chain_chain[of fat "ucast first" cs] by (auto simp: file_chain_def free_chain_step split: if_splits)

text \<open>The entry's sector is outside the FAT and outside every cluster the write may take.\<close>

definition entry_sector_ok :: "fat16 \<Rightarrow> u32 \<Rightarrow> u32 list \<Rightarrow> bool" where
  "entry_sector_ok fs lba old \<longleftrightarrow> g_root_start_lba fs \<le> lba
     \<and> (\<forall>c. 2 \<le> c \<and> c < g_total_clusters fs \<and> (g_fat fs c = 0 \<or> c \<in> set old) \<longrightarrow> lba \<notin> cluster_lbas fs c)"

definition usable :: "fat16 \<Rightarrow> u32 list \<Rightarrow> u32 set" where
  "usable fs old = {c. 2 \<le> c \<and> c < g_total_clusters fs \<and> (g_fat fs c = 0 \<or> c \<in> set old)}"

lemma write_file_runs:
  assumes "fat_ok fs" "reliable (dev fs)" "dir_lookup parent (to_8_3 name) fs = Some (Found e lba i dbuf, fs1)"
    "de_attr e AND ATTR_DIRECTORY = 0" "file_chain (g_fat fs) (de_first_cluster e) old"
  obtains r fat m n cs where
    "chain_written buf r 0 0 cs (upd (\<lambda>x. if x \<in> set old then 0 else g_fat fs x) (media fs) (ios (dev fs)) fs) (upd fat m n fs)"
    "r = None \<Longrightarrow> fat16_write_file parent name buf fs = Some (-1, upd fat m n fs)"
    "\<And>f. r = Some f \<Longrightarrow> \<exists>n'. fat16_write_file parent name buf fs =
       Some (fat16_flush_fat (upd fat (m(lba := put_dirent i
         (e\<lparr>de_first_cluster := (if buf = [] then 0 else ucast f), de_size := of_nat (length buf)\<rparr>) dbuf)) n' fs))"
proof -
  obtain k where k: "fs1 = upd (g_fat fs) (media fs) k fs" using dir_lookup_frame[OF assms(3)] by blast
  let ?fat = "\<lambda>x. if x \<in> set old then 0 else g_fat fs x"
  have fr: "fat16_free_chain (ucast (de_first_cluster e)) fs1 = upd ?fat (media fs) k fs"
    using free_file_chain[OF assms(5)] k by (simp add: free_chain_upd)
  obtain r fat m n cs where w: "write_chain buf 0 0 0 (upd ?fat (media fs) k fs) = Some (r, upd fat m n fs)"
    "chain_written (drop 0 buf) r 0 0 cs (upd ?fat (media fs) k fs) (upd fat m n fs)"
    using write_chain_spec[of "upd ?fat (media fs) k fs" 0 0 buf 0] assms(1,2) by auto
  have cw: "chain_written buf r 0 0 cs (upd ?fat (media fs) (ios (dev fs)) fs) (upd fat m n fs)"
    using w(2) by (simp add: chain_written_def cluster_free_def cong: option.case_cong)
  have rdy: "g_ready fs" using assms(1) by (simp add: fat_ok_def)
  show thesis
  proof (rule that[OF cw])
    show "fat16_write_file parent name buf fs = Some (-1, upd fat m n fs)" if "r = None"
      using that w(1) fr assms(3,4) rdy by (simp add: fat16_write_file_def)
    show "\<exists>n'. fat16_write_file parent name buf fs = Some (fat16_flush_fat (upd fat (m(lba := put_dirent i
         (e\<lparr>de_first_cluster := (if buf = [] then 0 else ucast f), de_size := of_nat (length buf)\<rparr>) dbuf)) n' fs))"
      if "r = Some f" for f
      using that w(1) fr assms(2-4) rdy by (auto simp: fat16_write_file_def fs_write_reliable Let_def)
  qed
qed

lemma length_put_dirent:
  assumes "i < 16" "length b = 512" "length (dirent_bytes e) = 32"
  shows "length (put_dirent i e b) = 512"
  using assms by (simp add: put_dirent_def)

lemma length_dirent_of:
  "length b = 32 \<Longrightarrow> length (dirent_bytes ((dirent_of b)\<lparr>de_first_cluster := f, de_size := z\<rparr>)) = 32"
  by (simp add: dirent_bytes_def dirent_of_def bytes16_def bytes32_def)

lemma length_fat_sector: "length (fat_sector s fat) = 512"
  unfolding fat_sector_def by (subst length_concat_sectors[where n = 2]) (simp_all add: bytes16_def)

lemma flush_disk_wf:
  assumes "disk_wf (dev fs)" "fat16_flush_fat fs = (r, fs')" "reliable (dev fs)"
  shows "disk_wf (dev fs')"
proof -
  have "media fs' = apply_writes (flush_writes fs) (media fs)"
    using assms(2) write_sectors_reliable[OF assms(3)] by (auto simp: fat16_flush_fat_def)
  then show ?thesis
    using assms(1) by (auto simp: disk_wf_def flush_writes_def length_fat_sector intro!: apply_writes_length)
qed

text \<open>After a successful run the new chain holds the data; other chains keep their cells and data.\<close>

lemma chain_written_file:
  assumes "chain_written buf (Some f) 0 0 cs fs0 fs'" "buf \<noteq> []" "fat_ok fs0" "g_data_start_lba fs' = g_data_start_lba fs0"
    "g_sectors_per_cluster fs' = g_sectors_per_cluster fs0"
  shows "cs \<noteq> []" "f = hd cs" "ucast (ucast f :: u16) = f" "chain (g_fat fs') f cs" "take (length buf) (file_data fs' cs) = buf"
    "\<And>c xs. chain (g_fat fs0) c xs \<Longrightarrow> chain (g_fat fs') c xs"
    "\<And>c xs. chain (g_fat fs0) c xs \<Longrightarrow> \<forall>x \<in> set xs. x < g_total_clusters fs0 \<Longrightarrow> file_data fs' xs = file_data fs0 xs"
proof -
  show cs: "cs \<noteq> []" "f = hd cs" "chain (g_fat fs') f cs" "take (length buf) (file_data fs' cs) = buf"
    using assms(1,2) by (auto simp: chain_written_def)
  have free: "\<forall>c \<in> set cs. cluster_free fs0 c" using assms(1) by (simp add: chain_written_def)
  show "ucast (ucast f :: u16) = f" using free cs cluster_free_range(5)[OF assms(3)] by simp
  have out: "x \<notin> set cs" if "chain (g_fat fs0) c xs" "x \<in> set xs" for c xs x
    using chain_linked[OF that] free by (auto simp: cluster_free_def)
  show "chain (g_fat fs') c xs" if ch: "chain (g_fat fs0) c xs" for c xs
  proof -
    have "g_fat fs' x = g_fat fs0 x" if "x \<in> set xs" for x
      using assms(1) out[OF ch that] chain_range[OF ch that] by (auto simp: chain_written_def)
    then show ?thesis using chain_cong[of xs "g_fat fs'" "g_fat fs0" c] ch by simp
  qed
  show "file_data fs' xs = file_data fs0 xs" if ch: "chain (g_fat fs0) c xs" "\<forall>x \<in> set xs. x < g_total_clusters fs0" for c xs
  proof (rule file_data_cong[OF assms(4,5)])
    fix x s assume x: "x \<in> set xs" "s < unat (g_sectors_per_cluster fs0)"
    let ?l = "fat16_cluster_to_lba x fs0 + of_nat s"
    have l: "?l \<in> cluster_lbas fs0 x" using x(2) by (auto simp: cluster_lbas_def)
    have "?l \<notin> cluster_lbas fs0 y" if y: "y \<in> set cs" for y
    proof -
      have "cluster_free fs0 y" "x \<noteq> y" using free y out[OF ch(1) x(1)] by auto
      then have "cluster_lbas fs0 x \<inter> cluster_lbas fs0 y = {}"
        using cluster_lbas_disjoint[OF assms(3)] cluster_free_range(1,2)[OF assms(3)] chain_range[OF ch(1) x(1)] ch(2) x(1) by simp
      then show ?thesis using l by (meson disjoint_iff)
    qed
    then show "media fs' ?l = media fs0 ?l" using assms(1) by (simp add: chain_written_def)
  qed
qed

text \<open>Later writes outside the chain's sectors do not change its data.\<close>

lemma file_data_outside:
  assumes "\<forall>x \<in> set xs. \<forall>l \<in> cluster_lbas fs x. m' l = media fs l"
  shows "file_data (upd fat m' n fs) xs = file_data fs xs"
  using assms by (intro file_data_cong) (auto simp: cluster_lbas_def)

lemma write_file_result:
  assumes "fat_ok fs" "reliable (dev fs)" "disk_wf (dev fs)"
    "dir_lookup parent (to_8_3 name) fs = Some (Found e lba i dbuf, fs1)" "de_attr e AND ATTR_DIRECTORY = 0"
    "file_chain (g_fat fs) (de_first_cluster e) old" "entry_sector_ok fs lba old" "buf \<noteq> []"
    "length buf \<le> card (usable fs old) * bpc fs"
  obtains fat m m0 n n0 cs where
    "chain_written buf (Some (hd cs)) 0 0 cs (upd (\<lambda>x. if x \<in> set old then 0 else g_fat fs x) (media fs) (ios (dev fs)) fs) (upd fat m0 n0 fs)"
    "fat16_write_file parent name buf fs = Some (0, upd fat m n fs)" "disk_wf (dev (upd fat m n fs))"
    "m lba = put_dirent i (e\<lparr>de_first_cluster := ucast (hd cs), de_size := of_nat (length buf)\<rparr>) dbuf"
    "\<And>l. l \<noteq> lba \<Longrightarrow> g_root_start_lba fs \<le> l \<Longrightarrow> m l = m0 l"
proof -
  let ?fat = "\<lambda>x. if x \<in> set old then 0 else g_fat fs x"
  let ?fs = "upd ?fat (media fs) (ios (dev fs)) fs"
  show thesis
  proof (rule write_file_runs[OF assms(1,2,4-6), of buf])
  fix r fat m0 n0 cs
  assume w: "chain_written buf r 0 0 cs ?fs (upd fat m0 n0 fs)"
    and some: "\<And>f. r = Some f \<Longrightarrow> \<exists>n'. fat16_write_file parent name buf fs =
       Some (fat16_flush_fat (upd fat (m0(lba := put_dirent i
         (e\<lparr>de_first_cluster := (if buf = [] then 0 else ucast f), de_size := of_nat (length buf)\<rparr>) dbuf)) n' fs))"
  have us: "{c. cluster_free ?fs c} = usable fs old" by (auto simp: cluster_free_def usable_def)
  have "r \<noteq> None"
  proof
    assume "r = None"
    then have "card {c. cluster_free ?fs c} * bpc fs < length buf" using w by (simp add: chain_written_def)
    then show False using assms(9) unfolding us by simp
  qed
  then obtain f where f: "r = Some f" by auto
  have fh: "f = hd cs" using chain_written_file(2)[OF w[unfolded f] assms(8)] assms(1) by simp
  let ?e = "e\<lparr>de_first_cluster := ucast f, de_size := of_nat (length buf)\<rparr>"
  obtain n' where run: "fat16_write_file parent name buf fs = Some (fat16_flush_fat (upd fat (m0(lba := put_dirent i ?e dbuf)) n' fs))"
    using some[OF f] assms(8) by auto
  let ?fs2 = "upd fat (m0(lba := put_dirent i ?e dbuf)) n' fs"
  have ok2: "fat_ok ?fs2" "reliable (dev ?fs2)" using assms(1,2) by simp_all
  obtain m n where fl: "fat16_flush_fat ?fs2 = (0, upd fat m n fs)"
    "\<And>l. g_root_start_lba fs \<le> l \<Longrightarrow> m l = (m0(lba := put_dirent i ?e dbuf)) l"
    by (rule flush_reliable[OF ok2]) (simp del: fun_upd_apply)
  have lb: "g_root_start_lba fs \<le> lba" using assms(7) by (simp add: entry_sector_ok_def)
  have d: "length dbuf = 512" "i < 16" "length (dirent_bytes ?e) = 32"
    using dir_lookup_found[OF assms(4)] assms(3) length_dirent_of by (auto simp: disk_wf_def)
  have "disk_wf (dev (upd fat m0 n0 fs))" using w assms(3) by (simp add: chain_written_def disk_wf_def)
  then have "disk_wf (dev ?fs2)" using length_put_dirent[OF d(2,1,3)] by (simp add: disk_wf_def)
  then have wf: "disk_wf (dev (upd fat m n fs))" using flush_disk_wf[OF _ fl(1) ok2(2)] by simp
  show thesis
    by (rule that[OF w[unfolded f fh] _ wf]) (use run fl lb fh in auto)
  qed
qed

end
