(* ===== verification/Fat16_Dir.thy ===== *)
theory Fat16_Dir
  imports Fat16_File
begin

text \<open>
  Directories: the byte form of an entry, the sectors a directory consists of, and lookup and
  insertion as operations on that list of sectors.
\<close>

section \<open>Entries as bytes\<close>

lemma le16_of_bytes: "b ! i = ucast v \<Longrightarrow> b ! (i + 1) = ucast (drop_bit 8 v) \<Longrightarrow> le16 b i = v"
  unfolding le16_def by (rule bit_word_eqI) (auto simp: bit_simps)

lemma le32_of_bytes:
  assumes "b ! i = ucast v" "b ! (i + 1) = ucast (drop_bit 8 v)" "b ! (i + 2) = ucast (drop_bit 16 v)"
    "b ! (i + 3) = ucast (drop_bit 24 v)"
  shows "le32 b i = v"
  using split_bytes[of v] assms by (simp add: le32_def)

definition dirent_ok :: "dirent \<Rightarrow> bool" where
  "dirent_ok e \<longleftrightarrow> length (de_name e) = 8 \<and> length (de_ext e) = 3 \<and> length (de_reserved e) = 10"

lemma length_dirent_bytes: "dirent_ok e \<Longrightarrow> length (dirent_bytes e) = 32"
  by (simp add: dirent_ok_def dirent_bytes_def bytes16_def bytes32_def)

lemma list_of_length: "length xs = Suc n \<Longrightarrow> \<exists>y ys. xs = y # ys \<and> length ys = n"
  by (cases xs) auto

lemma dirent_of_bytes:
  assumes "dirent_ok e"
  shows "dirent_of (dirent_bytes e) = e"
proof -
  let ?b = "dirent_bytes e"
  have l: "length (de_name e) = 8" "length (de_ext e) = 3" "length (de_reserved e) = 10"
    using assms by (simp_all add: dirent_ok_def)
  have "le16 ?b 22 = de_time e" "le16 ?b 24 = de_date e" "le16 ?b 26 = de_first_cluster e" "le32 ?b 28 = de_size e"
    using l by (auto intro!: le16_of_bytes le32_of_bytes simp: dirent_bytes_def bytes16_def bytes32_def nth_append)
  moreover have "?b ! 11 = de_attr e" "take 8 ?b = de_name e" "take 3 (drop 8 ?b) = de_ext e" "take 10 (drop 12 ?b) = de_reserved e"
    using l by (simp_all add: dirent_bytes_def nth_append)
  ultimately show ?thesis by (simp add: dirent_of_def)
qed

text \<open>Replacing entry \<open>i\<close> of a sector leaves the others.\<close>

definition entry_at :: "u8 list \<Rightarrow> nat \<Rightarrow> dirent" where
  "entry_at buf j = dirent_of (take 32 (drop (32 * j) buf))"

lemma dirents_entries: "dirents buf = map (\<lambda>j. (j, entry_at buf j)) [0 ..< 16]"
  by (simp add: dirents_def entry_at_def)

lemma window_before: "a + k \<le> b \<Longrightarrow> b \<le> length xs \<Longrightarrow> take k (drop a (take b xs @ ys)) = take k (drop a xs)"
  by (rule nth_equalityI) (auto simp: nth_append)

lemma window_after:
  assumes "length zs = c" "b + c \<le> length xs" "b + c \<le> a"
  shows "drop a (take b xs @ zs @ drop (b + c) xs) = drop a xs"
proof -
  have "a - length (take b xs) - length zs = a - (b + c)" using assms by simp
  then have "drop a (take b xs @ zs @ drop (b + c) xs) = drop (a - (b + c)) (drop (b + c) xs)"
    using assms by (simp only: drop_append) simp
  also have "\<dots> = drop a xs" using assms(3) by (simp only: drop_drop le_add_diff_inverse2)
  finally show ?thesis .
qed

lemma entry_at_put:
  assumes "length buf = 512" "i < 16" "j < 16" "dirent_ok e"
  shows "entry_at (put_dirent i e buf) j = (if j = i then e else entry_at buf j)"
proof -
  have l: "length (dirent_bytes e) = 32" by (rule length_dirent_bytes[OF assms(4)])
  consider "j < i" | "j = i" | "j > i" by linarith
  then show ?thesis
  proof cases
    case 1
    have "take 32 (drop (32 * j) (put_dirent i e buf)) = take 32 (drop (32 * j) buf)"
      unfolding put_dirent_def by (rule window_before) (use 1 assms in auto)
    then show ?thesis using 1 by (simp add: entry_at_def)
  next
    case 2
    have "take 32 (drop (32 * i) (put_dirent i e buf)) = dirent_bytes e"
      using assms(1,2) l by (simp add: put_dirent_def)
    then show ?thesis using 2 dirent_of_bytes[OF assms(4)] by (simp add: entry_at_def)
  next
    case 3
    have "drop (32 * j) (put_dirent i e buf) = drop (32 * j) buf"
      unfolding put_dirent_def by (rule window_after[OF l]) (use 3 assms in auto)
    then show ?thesis using 3 by (simp add: entry_at_def)
  qed
qed

lemma dirent_ok_of: "length b = 32 \<Longrightarrow> dirent_ok (dirent_of b)"
  by (simp add: dirent_ok_def dirent_of_def)

lemma length_put: "length buf = 512 \<Longrightarrow> i < 16 \<Longrightarrow> dirent_ok e \<Longrightarrow> length (put_dirent i e buf) = 512"
  using length_dirent_bytes[of e] by (simp add: put_dirent_def)

section \<open>The sectors of a directory\<close>

text \<open>\<open>dir_sectors fs it ls it'\<close>: from the iterator \<open>it\<close> the scan visits the sectors \<open>ls\<close> and stops at the
  end of the directory with the iterator \<open>it'\<close>. On a reliable disk this depends on the table and the
  geometry alone.\<close>

definition dir_advance :: "dir_iter \<Rightarrow> fat16 \<Rightarrow> (u32 \<times> dir_iter) option" where
  "dir_advance it fs =
     (if it_dir_cluster it = 0 then
        if it_root_sector it \<ge> g_root_sector_count fs then None
        else Some (g_root_start_lba fs + it_root_sector it, it\<lparr>it_root_sector := it_root_sector it + 1\<rparr>)
      else if chain_end (it_cluster it) then None
      else if it_cluster_sector it < g_sectors_per_cluster fs then
        Some (fat16_cluster_to_lba (it_cluster it) fs + it_cluster_sector it, it\<lparr>it_cluster_sector := it_cluster_sector it + 1\<rparr>)
      else if chain_end (fat16_next_cluster (it_cluster it) fs) then None
      else Some (fat16_cluster_to_lba (fat16_next_cluster (it_cluster it) fs) fs,
             it\<lparr>it_cluster := fat16_next_cluster (it_cluster it) fs, it_cluster_sector := 1\<rparr>))"

inductive dir_sectors :: "fat16 \<Rightarrow> dir_iter \<Rightarrow> u32 list \<Rightarrow> dir_iter \<Rightarrow> bool" for fs where
  dir_end: "dir_advance it fs = None \<Longrightarrow> dir_sectors fs it [] it"
| dir_step: "dir_advance it fs = Some (lba, it') \<Longrightarrow> dir_sectors fs it' ls it'' \<Longrightarrow> dir_sectors fs it (lba # ls) it''"

lemma next_sector_reliable:
  assumes "reliable (dev fs)"
  shows "dir_iter_next_sector it fs = (case dir_advance it fs of
      Some (lba, it') \<Rightarrow> (DirSector (media fs lba) lba, it', upd (g_fat fs) (media fs) (Suc (ios (dev fs))) fs)
    | None \<Rightarrow> (DirEnd, it, fs))"
  unfolding dir_iter_next_sector_def dir_advance_def chain_end_def Let_def fs_read_reliable[OF assms]
  by (simp add: not_less[symmetric])

text \<open>A scan is a fold over the sectors.\<close>

fun walk_list :: "(u8 list \<Rightarrow> u32 \<Rightarrow> 'a \<Rightarrow> 'r + 'a) \<Rightarrow> (u32 \<Rightarrow> u8 list) \<Rightarrow> u32 list \<Rightarrow> dir_iter \<Rightarrow> 'a \<Rightarrow> ('r, 'a) walk" where
  "walk_list body m [] it a = WalkEnd it a"
| "walk_list body m (l # ls) it a = (case body (m l) l a of Inl r \<Rightarrow> WalkStop r | Inr a \<Rightarrow> walk_list body m ls it a)"

lemma dir_advance_upd [simp]: "dir_advance it (upd (g_fat fs) m n fs) = dir_advance it fs"
  by (simp add: dir_advance_def fat16_next_cluster_def)

lemma dir_walk_list:
  assumes "dir_sectors fs it ls it'" "reliable (dev fs)"
  shows "\<exists>n. dir_walk body it a fs = Some (walk_list body (media fs) ls it' a, upd (g_fat fs) (media fs) n fs)"
proof -
  have "\<exists>n'. dir_walk body it a (upd (g_fat fs) (media fs) n fs) =
      Some (walk_list body (media fs) ls it' a, upd (g_fat fs) (media fs) n' fs)" for n
    using assms(1)
  proof (induction arbitrary: a n)
    case (dir_end it)
    then show ?case
      using next_sector_reliable[of "upd (g_fat fs) (media fs) n fs" it] assms(2)
      by (subst dir_walk.simps) auto
  next
    case (dir_step it lba it' ls it'')
    have nx: "dir_iter_next_sector it (upd (g_fat fs) (media fs) n fs) =
        (DirSector (media fs lba) lba, it', upd (g_fat fs) (media fs) (Suc n) fs)"
      using next_sector_reliable[of "upd (g_fat fs) (media fs) n fs" it] assms(2) dir_step.hyps(1)
      by simp
    show ?case
    proof (cases "body (media fs lba) lba a")
      case (Inl r)
      then show ?thesis using nx by (subst dir_walk.simps) auto
    next
      case (Inr a')
      then show ?thesis using nx dir_step.IH[of a' "Suc n"] by (subst dir_walk.simps) auto
    qed
  qed
  from this[of "ios (dev fs)"] show ?thesis by (simp add: upd_same)
qed

text \<open>Every directory whose chain ends has such a list: the fixed region of the root, or the sectors
  of the clusters of a chain.\<close>

lemma root_sectors_from:
  assumes "k \<le> unat (g_root_sector_count fs)"
  shows "\<exists>it'. dir_sectors fs ((dir_iter_init 0)\<lparr>it_root_sector := of_nat k\<rparr>)
     (map (\<lambda>j. g_root_start_lba fs + of_nat j) [k ..< unat (g_root_sector_count fs)]) it'"
  using assms
proof (induction "unat (g_root_sector_count fs) - k" arbitrary: k)
  case 0
  then have "k = unat (g_root_sector_count fs)" by simp
  then have "dir_advance ((dir_iter_init 0)\<lparr>it_root_sector := of_nat k\<rparr>) fs = None"
    by (simp add: dir_advance_def dir_iter_init_def)
  from dir_end[OF this] show ?case using \<open>k = _\<close> by auto
next
  case (Suc d)
  then have k: "k < unat (g_root_sector_count fs)" by simp
  then have "k < 2 ^ 32" using unat_u32[of "g_root_sector_count fs"] by simp
  then have lt: "(of_nat k :: u32) < g_root_sector_count fs" using k by (simp add: word_less_nat_alt unat_of_nat)
  have "dir_advance ((dir_iter_init 0)\<lparr>it_root_sector := of_nat k\<rparr>) fs
      = Some (g_root_start_lba fs + of_nat k, (dir_iter_init 0)\<lparr>it_root_sector := of_nat (Suc k)\<rparr>)"
    using lt by (simp add: dir_advance_def dir_iter_init_def add.commute not_le[symmetric])
  moreover obtain it' where "dir_sectors fs ((dir_iter_init 0)\<lparr>it_root_sector := of_nat (Suc k)\<rparr>)
      (map (\<lambda>j. g_root_start_lba fs + of_nat j) [Suc k ..< unat (g_root_sector_count fs)]) it'"
  proof -
    have "d = unat (g_root_sector_count fs) - Suc k" using Suc.hyps(2) by arith
    from Suc.hyps(1)[OF this] k that show thesis by (meson Suc_leI)
  qed
  ultimately show ?case using k dir_step by (fastforce simp: upt_conv_Cons)
qed

lemma root_sectors:
  "\<exists>it'. dir_sectors fs (dir_iter_init 0) (map (\<lambda>j. g_root_start_lba fs + of_nat j) [0 ..< unat (g_root_sector_count fs)]) it'"
  using root_sectors_from[of 0 fs] by (simp add: dir_iter_init_def)

definition sub_iter :: "u32 \<Rightarrow> u32 \<Rightarrow> nat \<Rightarrow> dir_iter" where
  "sub_iter dc c s = \<lparr>it_dir_cluster = dc, it_root_sector = 0, it_cluster = c, it_cluster_sector = of_nat s\<rparr>"

lemma sub_sectors_from:
  assumes "fat_ok fs" "dc \<noteq> 0" "chain (g_fat fs) c (c # cs)" "s \<le> unat (g_sectors_per_cluster fs)"
  shows "\<exists>ls it'. dir_sectors fs (sub_iter dc c s) ls it'"
  using assms(3,4)
proof (induction cs arbitrary: c s)
  case outer: Nil
  show ?case
    using outer
  proof (induction "unat (g_sectors_per_cluster fs) - s" arbitrary: s)
    case 0
    then have "s = unat (g_sectors_per_cluster fs)" by simp
    then have "dir_advance (sub_iter dc c s) fs = None"
      using 0(2) assms(1,2) by (auto simp: dir_advance_def sub_iter_def chain_end_def next_cluster_chain)
    from dir_end[OF this] show ?case by blast
  next
    case (Suc d)
    then have s: "s < unat (g_sectors_per_cluster fs)" by simp
    then have lt: "(of_nat s :: u32) < g_sectors_per_cluster fs"
      using unat_u32[of "g_sectors_per_cluster fs"] by (simp add: word_less_nat_alt unat_of_nat)
    have "dir_advance (sub_iter dc c s) fs = Some (fat16_cluster_to_lba c fs + of_nat s, sub_iter dc c (Suc s))"
      using lt Suc.prems(1) assms(2) by (auto simp: dir_advance_def sub_iter_def chain_end_def add.commute)
    moreover have "d = unat (g_sectors_per_cluster fs) - Suc s" using Suc.hyps(2) by arith
    then obtain ls it' where "dir_sectors fs (sub_iter dc c (Suc s)) ls it'"
      using Suc.hyps(1)[of "Suc s"] Suc.prems s by (meson Suc_leI)
    ultimately show ?case using dir_step by blast
  qed
next
  case outer: (Cons x cs)
  have x: "ucast (g_fat fs c) = x" "chain (g_fat fs) x (x # cs)" "2 \<le> x" "x < 0xFFF8" "2 \<le> c" "c < 0xFFF8"
    using outer.prems(1) by auto
  have spc: "1 \<le> unat (g_sectors_per_cluster fs)" using assms(1) by (simp add: fat_ok_def Suc_le_eq unat_gt_0)
  show ?case
    using outer.prems(2)
  proof (induction "unat (g_sectors_per_cluster fs) - s" arbitrary: s)
    case 0
    then have "s = unat (g_sectors_per_cluster fs)" by simp
    then have "dir_advance (sub_iter dc c s) fs = Some (fat16_cluster_to_lba x fs, sub_iter dc x 1)"
      using x assms(1,2) by (auto simp: dir_advance_def sub_iter_def chain_end_def next_cluster_chain not_le[symmetric])
    moreover obtain ls it' where "dir_sectors fs (sub_iter dc x 1) ls it'" using outer.IH[OF x(2) spc] by blast
    ultimately show ?case using dir_step by blast
  next
    case (Suc d)
    then have s: "s < unat (g_sectors_per_cluster fs)" by simp
    then have lt: "(of_nat s :: u32) < g_sectors_per_cluster fs"
      using unat_u32[of "g_sectors_per_cluster fs"] by (simp add: word_less_nat_alt unat_of_nat)
    have "dir_advance (sub_iter dc c s) fs = Some (fat16_cluster_to_lba c fs + of_nat s, sub_iter dc c (Suc s))"
      using lt x(5,6) assms(2) by (auto simp: dir_advance_def sub_iter_def chain_end_def add.commute not_le[symmetric])
    moreover have "d = unat (g_sectors_per_cluster fs) - Suc s" using Suc.hyps(2) by arith
    then obtain ls it' where "dir_sectors fs (sub_iter dc c (Suc s)) ls it'"
      using Suc.hyps(1)[of "Suc s"] Suc.prems s by (meson Suc_leI)
    ultimately show ?case using dir_step by blast
  qed
qed

lemma dir_sectors_exist:
  assumes "fat_ok fs" "dc = 0 \<or> (\<exists>cs. chain (g_fat fs) dc (dc # cs))"
  shows "\<exists>ls it'. dir_sectors fs (dir_iter_init dc) ls it'"
proof (cases "dc = 0")
  case True
  then show ?thesis using root_sectors[of fs] by blast
next
  case False
  have "dir_iter_init dc = sub_iter dc dc 0" by (simp add: dir_iter_init_def sub_iter_def)
  then show ?thesis using sub_sectors_from[OF assms(1) False, of dc _ 0] assms(2) False by auto
qed

section \<open>Insertion and lookup in one sector\<close>

text \<open>A live entry is neither the end marker nor a deleted one; \<open>matching\<close> is the test of \<open>dir_lookup\<close>.\<close>

definition live :: "dirent \<Rightarrow> bool" where
  "live e \<longleftrightarrow> de_name e ! 0 \<noteq> DIRENT_EMPTY \<and> de_name e ! 0 \<noteq> DIRENT_DELETED"

definition matching :: "u8 list \<Rightarrow> dirent \<Rightarrow> bool" where
  "matching name83 e \<longleftrightarrow> live e \<and> de_attr e AND ATTR_VOLUME_ID = 0 \<and> name83_of e = name83"

abbreviation slots :: "(nat \<Rightarrow> dirent) \<Rightarrow> nat \<Rightarrow> nat \<Rightarrow> (nat \<times> dirent) list" where
  "slots f k n \<equiv> map (\<lambda>j. (j, f j)) [k ..< n]"

lemma lookup_slots:
  "k < n \<Longrightarrow> lookup_scan name (slots f k n) =
     (if de_name (f k) ! 0 = DIRENT_EMPTY then Some None
      else if matching name (f k) then Some (Some (k, f k)) else lookup_scan name (slots f (Suc k) n))"
  by (auto simp: upt_conv_Cons matching_def live_def)

lemma insert_slots:
  "insert_scan (slots f k n) = Some i \<longleftrightarrow> k \<le> i \<and> i < n \<and> \<not> live (f i) \<and> (\<forall>j. k \<le> j \<and> j < i \<longrightarrow> live (f j))"
proof (induction "n - k" arbitrary: k)
  case 0
  then show ?case by auto
next
  case (Suc d)
  then have kn: "k < n" by simp
  show ?case
  proof (cases "live (f k)")
    case True
    then have "insert_scan (slots f k n) = insert_scan (slots f (Suc k) n)"
      using kn by (simp add: upt_conv_Cons live_def)
    moreover have "d = n - Suc k" using Suc.hyps(2) by arith
    note Suc.hyps(1)[OF this]
    moreover have "(k \<le> i \<and> i < n \<and> \<not> live (f i) \<and> (\<forall>j. k \<le> j \<and> j < i \<longrightarrow> live (f j))) \<longleftrightarrow>
        (Suc k \<le> i \<and> i < n \<and> \<not> live (f i) \<and> (\<forall>j. Suc k \<le> j \<and> j < i \<longrightarrow> live (f j)))"
      using True by (metis Suc_leI Suc_leD le_neq_implies_less)
    ultimately show ?thesis by simp
  next
    case False
    then have "insert_scan (slots f k n) = Some k" using kn by (auto simp: upt_conv_Cons live_def)
    then show ?thesis using False kn by (metis le_neq_implies_less le_refl not_less option.inject)
  qed
qed

lemma insert_slots_None: "insert_scan (slots f k n) = None \<longleftrightarrow> (\<forall>j. k \<le> j \<and> j < n \<longrightarrow> live (f j))"
proof (induction "n - k" arbitrary: k)
  case 0
  then show ?case by auto
next
  case (Suc d)
  then have kn: "k < n" by simp
  have "d = n - Suc k" using Suc.hyps(2) by arith
  note IH = Suc.hyps(1)[OF this]
  have "insert_scan (slots f k n) = (if live (f k) then insert_scan (slots f (Suc k) n) else Some k)"
    using kn by (auto simp: upt_conv_Cons live_def)
  moreover have "(\<forall>j. k \<le> j \<and> j < n \<longrightarrow> live (f j)) \<longleftrightarrow> live (f k) \<and> (\<forall>j. Suc k \<le> j \<and> j < n \<longrightarrow> live (f j))"
    using kn by (metis Suc_leI Suc_leD le_neq_implies_less le_refl)
  ultimately show ?case using IH by simp
qed

text \<open>The new entry is found in its slot, and entries found before are found again.\<close>

lemma lookup_after_insert:
  assumes "k \<le> i" "i < n" "\<forall>j. k \<le> j \<and> j < i \<longrightarrow> live (f j)" "matching name e"
    "\<forall>x. lookup_scan name (slots f k n) \<noteq> Some (Some x)"
  shows "lookup_scan name (slots (f(i := e)) k n) = Some (Some (i, e))"
  using assms(1,3,5)
proof (induction "i - k" arbitrary: k)
  case 0
  then show ?case using assms(2,4) by (simp add: lookup_slots) (simp add: matching_def live_def)
next
  case (Suc d)
  then have k: "k < i" "k < n" using assms(2) by auto
  then have lv: "live (f k)" using Suc.prems(2) by simp
  have "d = i - Suc k" using Suc.hyps(2) by arith
  moreover have "\<not> matching name (f k)" "\<forall>x. lookup_scan name (slots f (Suc k) n) \<noteq> Some (Some x)"
    using Suc.prems(3) lookup_slots[OF k(2), of name f] lv by (auto simp: live_def split: if_splits)
  moreover from calculation have "lookup_scan name (slots (f(i := e)) (Suc k) n) = Some (Some (i, e))"
    using Suc.hyps(1)[of "Suc k"] k Suc.prems(2) by (simp add: Suc_le_eq)
  ultimately show ?case using lookup_slots[OF k(2), of name "f(i := e)"] lv k by (simp add: live_def)
qed

lemma lookup_other_kept:
  assumes "\<not> live (f i)" "\<not> matching name e" "live e" "lookup_scan name (slots f k n) \<noteq> Some None"
  shows "lookup_scan name (slots (f(i := e)) k n) = lookup_scan name (slots f k n)"
  using assms(4)
proof (induction "n - k" arbitrary: k)
  case 0
  then show ?case by simp
next
  case (Suc d)
  then have kn: "k < n" by simp
  have "d = n - Suc k" using Suc.hyps(2) by arith
  note IH = Suc.hyps(1)[OF this]
  have nm: "\<not> matching name (f i)" using assms(1) by (simp add: matching_def)
  show ?case
    using Suc.prems IH lookup_slots[OF kn, of name f] lookup_slots[OF kn, of name "f(i := e)"] assms(2,3) nm
    by (auto simp: live_def split: if_splits)
qed

section \<open>Insertion and lookup in a directory\<close>

lemma dirents_slots: "dirents buf = slots (entry_at buf) 0 16"
  by (rule dirents_entries)

lemma lookup_put:
  assumes "length buf = 512" "i < 16" "dirent_ok e"
  shows "lookup_scan name (dirents (put_dirent i e buf)) = lookup_scan name (slots ((entry_at buf)(i := e)) 0 16)"
proof -
  have "slots (entry_at (put_dirent i e buf)) 0 16 = slots ((entry_at buf)(i := e)) 0 16"
    using entry_at_put[OF assms(1,2) _ assms(3)] by (auto simp: fun_upd_def)
  then show ?thesis by (simp only: dirents_slots)
qed

lemma walk_insert_Cons:
  "walk_list insert_body m (l # ls) it () =
     (case insert_scan (dirents (m l)) of None \<Rightarrow> walk_list insert_body m ls it () | Some i \<Rightarrow> WalkStop (i, m l, l))"
  by (cases "insert_scan (dirents (m l))") (simp_all add: insert_body_def[of "m l" l "()"])

lemma walk_lookup_Cons:
  "walk_list (lookup_body name) m (l # ls) it () =
     (case lookup_scan name (dirents (m l)) of None \<Rightarrow> walk_list (lookup_body name) m ls it ()
      | Some None \<Rightarrow> WalkStop NotFound | Some (Some (i, e)) \<Rightarrow> WalkStop (Found e l i (m l)))"
  by (auto simp: lookup_body_def[of name "m l" l "()"] split: option.splits)

lemma insert_walk:
  assumes "walk_list insert_body m ls it () = WalkStop (i, buf, lba)"
  shows "\<exists>pre post. ls = pre @ lba # post \<and> buf = m lba \<and> insert_scan (dirents (m lba)) = Some i
      \<and> (\<forall>l \<in> set pre. insert_scan (dirents (m l)) = None)"
  using assms
proof (induction ls)
  case (Cons l ls)
  show ?case
  proof (cases "insert_scan (dirents (m l))")
    case None
    then have "walk_list insert_body m ls it () = WalkStop (i, buf, lba)" using Cons.prems by (simp add: walk_insert_Cons del: walk_list.simps)
    from Cons.IH[OF this] obtain pre post where "ls = pre @ lba # post \<and> buf = m lba \<and> insert_scan (dirents (m lba)) = Some i
      \<and> (\<forall>l \<in> set pre. insert_scan (dirents (m l)) = None)" by blast
    then have "l # ls = (l # pre) @ lba # post \<and> buf = m lba \<and> insert_scan (dirents (m lba)) = Some i
      \<and> (\<forall>l \<in> set (l # pre). insert_scan (dirents (m l)) = None)" using None by simp
    then show ?thesis by blast
  next
    case (Some j)
    then have "l # ls = [] @ lba # ls \<and> buf = m lba \<and> insert_scan (dirents (m lba)) = Some i"
      using Cons.prems by (auto simp: walk_insert_Cons simp del: walk_list.simps)
    then show ?thesis by fastforce
  qed
qed simp

lemma lookup_full_sector:
  assumes "insert_scan (dirents buf) = None"
  shows "lookup_scan name (dirents buf) \<noteq> Some None"
proof -
  have "\<forall>j < 16. live (entry_at buf j)" using assms by (simp add: dirents_slots insert_slots_None)
  then have "lookup_scan name (slots (entry_at buf) k 16) \<noteq> Some None" for k
  proof (induction "16 - k" arbitrary: k)
    case (Suc d)
    then have "d = 16 - Suc k" "k < 16" by arith+
    then show ?case using Suc.hyps(1)[of "Suc k"] Suc.prems lookup_slots[of k 16 name "entry_at buf"]
      by (auto simp: live_def)
  qed simp
  then show ?thesis by (simp add: dirents_slots)
qed

lemma walk_lookup_inserted:
  assumes "\<forall>l \<in> set pre. insert_scan (dirents (m l)) = None" "insert_scan (dirents (m lba)) = Some i"
    "\<forall>x l j b. walk_list (lookup_body name) m (pre @ lba # post) it () \<noteq> WalkStop (Found x l j b)"
    "length (m lba) = 512" "dirent_ok e" "matching name e" "m' = m(lba := put_dirent i e (m lba))"
  shows "walk_list (lookup_body name) m' (pre @ lba # post) it () = WalkStop (Found e lba i (m' lba))"
  using assms(1,3)
proof (induction pre)
  case Nil
  have i: "i < 16" "\<forall>j. 0 \<le> j \<and> j < i \<longrightarrow> live (entry_at (m lba) j)"
    using assms(2) by (auto simp: dirents_slots insert_slots)
  have "\<forall>x. lookup_scan name (slots (entry_at (m lba)) 0 16) \<noteq> Some (Some x)"
    using Nil.prems(2) by (auto simp: walk_lookup_Cons dirents_slots split: option.splits prod.splits simp del: walk_list.simps)
  from lookup_after_insert[OF _ i assms(6) this] show ?case
    using lookup_put[OF assms(4) i(1) assms(5)] assms(7) by (simp add: walk_lookup_Cons del: walk_list.simps)
next
  case (Cons l pre)
  have full: "insert_scan (dirents (m l)) = None" using Cons.prems(1) by simp
  then have "l \<noteq> lba" using assms(2) by auto
  moreover have "lookup_scan name (dirents (m l)) = None"
    using lookup_full_sector[OF full, of name] Cons.prems(2) by (auto simp: walk_lookup_Cons simp del: walk_list.simps split: option.splits prod.splits)
  ultimately show ?case using Cons assms(7) by (simp add: walk_lookup_Cons del: walk_list.simps)
qed

lemma walk_lookup_kept:
  assumes "insert_scan (dirents (m lba)) = Some i" "length (m lba) = 512" "dirent_ok e" "live e" "\<not> matching name e"
    "m' = m(lba := put_dirent i e (m lba))" "walk_list (lookup_body name) m ls it () = WalkStop (Found x l j b)"
  shows "walk_list (lookup_body name) m' ls it () = WalkStop (Found x l j (m' l))"
  using assms(7)
proof (induction ls)
  case (Cons h ls)
  have i: "i < 16" "\<not> live (entry_at (m lba) i)" using assms(1) by (auto simp: dirents_slots insert_slots)
  have ne: "lookup_scan name (dirents (m h)) \<noteq> Some None"
    using Cons.prems by (auto simp: walk_lookup_Cons simp del: walk_list.simps)
  have "lookup_scan name (dirents (m' h)) = lookup_scan name (dirents (m h))"
    using lookup_put[OF assms(2) i(1) assms(3), of name] lookup_other_kept[of "entry_at (m lba)" i name e 0 16] i(2) assms(4,5) ne assms(6)
    by (auto simp: dirents_slots)
  then show ?case using Cons ne by (auto simp: walk_lookup_Cons simp del: walk_list.simps split: option.splits prod.splits)
qed simp

text \<open>Lookup and insertion through the list of sectors.\<close>

lemma dir_lookup_list:
  assumes "dir_sectors fs (dir_iter_init dc) ls it" "reliable (dev fs)"
  shows "\<exists>n. dir_lookup dc name fs = Some (case walk_list (lookup_body name) (media fs) ls it () of
      WalkStop r \<Rightarrow> r | WalkEnd _ _ \<Rightarrow> NotFound | WalkError \<Rightarrow> LookupError, upd (g_fat fs) (media fs) n fs)"
  using dir_walk_list[OF assms, of "lookup_body name" "()"] by (auto simp: dir_lookup_def)

lemma walk_list_no_error: "walk_list body m ls it a \<noteq> WalkError"
  by (induction ls arbitrary: a) (auto split: sum.splits)

definition dir_full :: "u32 \<Rightarrow> fat16 \<Rightarrow> bool" where
  "dir_full dc fs \<longleftrightarrow> (\<exists>it fs'. dir_walk insert_body (dir_iter_init dc) () fs = Some (WalkEnd it (), fs'))"

lemma dir_sectors_upd:
  "dir_sectors fs it ls it' \<Longrightarrow> dir_sectors (upd (g_fat fs) m n fs) it ls it'"
  by (induction rule: dir_sectors.induct) (auto intro: dir_sectors.intros)

lemma dir_insert_slot:
  assumes "dir_sectors fs (dir_iter_init dc) ls it" "reliable (dev fs)" "\<not> dir_full dc fs"
  obtains i lba pre post n where "ls = pre @ lba # post" "insert_scan (dirents (media fs lba)) = Some i"
    "\<forall>l \<in> set pre. insert_scan (dirents (media fs l)) = None"
    "dir_insert dc e fs = Some (0, upd (g_fat fs) ((media fs)(lba := put_dirent i e (media fs lba))) n fs)"
proof -
  obtain n where w: "dir_walk insert_body (dir_iter_init dc) () fs =
      Some (walk_list insert_body (media fs) ls it (), upd (g_fat fs) (media fs) n fs)"
    using dir_walk_list[OF assms(1,2), of insert_body "()"] by (rule exE)
  have "\<exists>x. walk_list insert_body (media fs) ls it () = WalkStop x"
  proof (cases "walk_list insert_body (media fs) ls it ()")
    case (WalkEnd it' a)
    then have "dir_full dc fs" unfolding dir_full_def w by simp
    then show ?thesis using assms(3) by simp
  next
    case (WalkStop x)
    then show ?thesis by (rule exI)
  qed (simp add: walk_list_no_error)
  then obtain i buf lba where st: "walk_list insert_body (media fs) ls it () = WalkStop (i, buf, lba)"
    by (metis prod_cases3)
  from insert_walk[OF st] obtain pre post where *: "ls = pre @ lba # post" "buf = media fs lba"
    "insert_scan (dirents (media fs lba)) = Some i" "\<forall>l \<in> set pre. insert_scan (dirents (media fs l)) = None" by blast
  have "reliable (dev (upd (g_fat fs) (media fs) n fs))" using assms(2) by simp
  from fs_write_reliable[OF this] w st *(2)
  have "dir_insert dc e fs = Some (0, upd (g_fat fs) ((media fs)(lba := put_dirent i e (media fs lba))) (Suc n) fs)"
    by (simp add: dir_insert_def del: fun_upd_apply)
  with that[OF *(1,3,4)] show thesis by blast
qed

end
