(* ===== verification/Fat16_Props.thy ===== *)
theory Fat16_Props
  imports Fat16_Write Fat16_Dir
begin

text \<open>
  Properties of the FAT16 driver: allocation and release of clusters, reading at a position, and
  replacing a file. The concrete file systems at the start are the inputs of the examples.
\<close>

section \<open>A small volume\<close>

text \<open>One FAT of one sector, one root sector, one sector per cluster, 100 clusters; \<open>fat\<close> and \<open>m\<close> are
  its table and sectors.\<close>

definition small_volume :: "(u32 \<Rightarrow> u16) \<Rightarrow> (u32 \<Rightarrow> u8 list) \<Rightarrow> fat16" where
  "small_volume fat m = \<lparr>g_ready = True, g_fat_start_lba = 1, g_root_start_lba = 2, g_data_start_lba = 3,
     g_root_sector_count = 1, g_sectors_per_cluster = 1, g_fat_cached = True, g_fat = fat, g_fat_size_sectors = 1,
     g_total_clusters = 100, g_num_fats = 1, dev = \<lparr>sectors = m, outcome = (\<lambda>_. IoOk), ios = 0\<rparr>\<rparr>"

lemma small_volume_ok: "fat_ok (small_volume fat m)" "reliable (dev (small_volume fat m))"
  by (simp_all add: fat_ok_def small_volume_def reliable_def)

lemma small_volume_simps [simp]:
  "g_fat (small_volume fat m) = fat" "media (small_volume fat m) = m" "g_sectors_per_cluster (small_volume fat m) = 1"
  "g_total_clusters (small_volume fat m) = 100" "g_root_start_lba (small_volume fat m) = 2"
  "fat16_cluster_to_lba c (small_volume fat m) = c + 1"
  by (simp_all add: small_volume_def fat16_cluster_to_lba_def)

text \<open>Its root directory is sector 2; \<open>example_entry\<close> is the entry of an empty file A.TXT.\<close>

definition example_entry :: dirent where
  "example_entry = new_dirent (to_8_3 [97, 46, 116, 120, 116]) ATTR_ARCHIVE 7"

lemma example_entry_simps:
  "de_name example_entry = [65, 32, 32, 32, 32, 32, 32, 32]" "de_ext example_entry = [84, 88, 84]"
  "de_attr example_entry = 32" "de_first_cluster example_entry = 7" "dirent_ok example_entry" "live example_entry"
  by code_simp+

lemma example_name: "name83_of example_entry = to_8_3 [97, 46, 116, 120, 116]"
  by (simp add: name83_of_def example_entry_def new_dirent_def to_8_3_def pad_to_def fat16_toupper_def DOT_def SPACE_def)

lemma small_root: "\<exists>it. dir_sectors (small_volume fat m) (dir_iter_init 0) [2] it"
  using root_sectors[of "small_volume fat m"] by (simp add: small_volume_def)

lemma empty_sector: "\<not> live (entry_at (replicate 512 0) 0)" "de_name (entry_at (replicate 512 0) 0) ! 0 = DIRENT_EMPTY"
  by (simp_all add: live_def entry_at_def dirent_of_def DIRENT_EMPTY_def)

section \<open>Clusters\<close>

text \<open>
  C21. Cluster allocation never hands out a cluster in use: on a mounted volume it returns the
  lowest free cluster, marks it as the end of a chain and changes no other cell of the table, so
  every existing chain keeps its clusters; it returns 0, changing nothing, exactly when no cluster
  is free; and freeing the allocated cluster again restores the table.
\<close>

theorem fat16_alloc_cluster_correct:
  assumes "fat_ok fs" "fat16_alloc_cluster fs = (c, fs')"
  shows "if c = 0 then fs' = fs \<and> (\<forall>x. \<not> cluster_free fs x)
     else cluster_free fs c \<and> (\<forall>x. cluster_free fs x \<longrightarrow> c \<le> x) \<and> fs' = set_fat c 0xFFFF fs
       \<and> (\<forall>d cs. chain (g_fat fs) d cs \<longrightarrow> c \<notin> set cs \<and> chain (g_fat fs') d cs)
       \<and> g_fat (fat16_free_chain c fs') = g_fat fs"
proof (cases "c = 0")
  case True
  then show ?thesis using clusters.alloc_none[of fs fs'] assms by simp
next
  case False
  have free: "cluster_free fs c" using clusters.alloc_avail[OF assms False] by blast
  have fs': "fs' = set_fat c 0xFFFF fs" and least: "\<forall>x. cluster_free fs x \<longrightarrow> c \<le> x"
    using assms(2) False by (cases rule: fat16_alloc_cases[of fs]; auto)+
  have notin: "c \<notin> set cs" if "chain (g_fat fs) d cs" for d cs
    using chain_linked[OF that] free by (auto simp: cluster_free_def)
  have keep: "chain (g_fat fs') d cs" if ch: "chain (g_fat fs) d cs" for d cs
  proof -
    have "g_fat fs' x = g_fat fs x" if "x \<in> set cs" for x
      using that notin[OF ch] fs' by (auto simp: set_fat_def)
    then show ?thesis using chain_cong[of cs "g_fat fs'" "g_fat fs" d] ch by simp
  qed
  note rc = cluster_free_range[OF assms(1) free]
  have "chain (g_fat fs') c [c]" using rc fs' by (simp add: set_fat_def)
  from free_chain_chain[OF this] have "g_fat (fat16_free_chain c fs') = g_fat fs"
    using free fs' by (auto simp: fat16_free_chain_def set_fat_def cluster_free_def fun_eq_iff)
  then show ?thesis using False free least fs' notin keep by simp
qed

theorem fat16_alloc_cluster_correct_witness:
  "fat16_alloc_cluster (small_volume (\<lambda>c. if c < 5 then 0xFFFF else 0) (\<lambda>_. [])) =
     (5, set_fat 5 0xFFFF (small_volume (\<lambda>c. if c < 5 then 0xFFFF else 0) (\<lambda>_. [])))"
proof -
  let ?fs = "small_volume (\<lambda>c. if c < 5 then 0xFFFF else 0) (\<lambda>_. [])"
  obtain c fs' where a: "fat16_alloc_cluster ?fs = (c, fs')" by fastforce
  have five: "cluster_free ?fs 5" by (simp add: cluster_free_def)
  note r = fat16_alloc_cluster_correct[OF small_volume_ok(1) a]
  then have "c \<noteq> 0" using five by (cases "c = 0") auto
  then have "cluster_free ?fs c" "c \<le> 5" "fs' = set_fat c 0xFFFF ?fs" using r five by auto
  moreover from this(1) have "\<not> c < 5" by (auto simp: cluster_free_def split: if_splits)
  ultimately have "c = 5" by simp
  then show ?thesis using a \<open>fs' = set_fat c 0xFFFF ?fs\<close> by simp
qed

text \<open>
  C22. Freeing a chain always ends, also on a corrupted, cyclic table, and clears nothing but cells
  of possible clusters; on a proper chain it clears exactly the cells of that chain.
\<close>

theorem fat16_free_chain_correct:
  "(g_fat (fat16_free_chain c fs) x = g_fat fs x \<or> g_fat (fat16_free_chain c fs) x = 0 \<and> 2 \<le> x \<and> x < 0xFFF8)
   \<and> (chain (g_fat fs) c cs \<longrightarrow> g_fat (fat16_free_chain c fs) x = (if x \<in> set cs then 0 else g_fat fs x))"
  using free_chain_only_clears[of c "g_fat fs" x] free_chain_chain[of "g_fat fs" c cs]
  by (simp add: fat16_free_chain_def)

theorem fat16_free_chain_correct_witness:
  "map (g_fat (fat16_free_chain 7 (small_volume ((\<lambda>_. 0xFFFF)(7 := 9, 9 := 8)) (\<lambda>_. [])))) [6, 7, 8, 9] = [0xFFFF, 0, 0, 0]"
proof -
  let ?fs = "small_volume ((\<lambda>_. 0xFFFF)(7 := 9, 9 := 8)) (\<lambda>_. [])"
  have ch: "chain (g_fat ?fs) 7 [7, 9, 8]" by simp
  show ?thesis using fat16_free_chain_correct[of 7 ?fs _ "[7, 9, 8]"] ch by simp
qed

section \<open>Reading\<close>

text \<open>
  C23. Reading refines the file as a byte sequence: on a disk that does not fail, reading \<open>len\<close>
  bytes at \<open>pos\<close> from a file whose chain is \<open>cs\<close> returns exactly that slice of the concatenated
  clusters, cut at the file size and at the end of the chain, always returns, and changes neither
  the disk nor the cached table.
\<close>

theorem fat16_read_at_correct:
  assumes "fat_ok fs" "reliable (dev fs)" "disk_wf (dev fs)" "chain (g_fat fs) first cs" "cs \<noteq> []"
    "len \<noteq> 0" "unat pos + unat len < 2 ^ 32"
  shows "\<exists>fs'. fat16_read_at first pos len file_size fs =
       Some (Some (take (min (unat len) (unat file_size - unat pos)) (drop (unat pos) (file_data fs cs))), fs')
     \<and> media fs' = media fs \<and> g_fat fs' = g_fat fs"
  using fat16_read_at_chain[OF assms] by fastforce

theorem fat16_read_at_correct_witness:
  "\<exists>fs'. fat16_read_at 7 510 4 600 (small_volume ((\<lambda>_. 0xFFFF)(7 := 9)) (\<lambda>l. replicate 512 (ucast l))) = Some (Some [8, 8, 10, 10], fs')"
proof -
  let ?fs = "small_volume ((\<lambda>_. 0xFFFF)(7 := 9)) (\<lambda>l. replicate 512 (ucast l))"
  have ch: "chain (g_fat ?fs) 7 [7, 9]" by simp
  have wf: "disk_wf (dev ?fs)" by (simp add: disk_wf_def)
  have data: "file_data ?fs [7, 9] = replicate 512 8 @ replicate 512 10" by (simp add: file_data_def cluster_data_def)
  have "take 4 (drop 510 (replicate 512 (8 :: u8) @ replicate 512 10)) = [8, 8, 10, 10]"
    by (simp add: drop_append eval_nat_numeral)
  then show ?thesis
    using fat16_read_at_correct[OF small_volume_ok wf ch, of 4 510 600] data by auto
qed

section \<open>Replacing a file\<close>

lemma slice_of_prefix: "take (min l (n - p)) (drop p d) = take l (drop p (take n d))"
  by (simp add: drop_take)

text \<open>
  C24. A file that was written reads back: on a disk that does not fail, when the name is found as a
  plain file, its old chain and the free clusters are enough for the data, and the entry's sector
  is not one of them, \<open>fat16_write_file\<close> returns 0; the entry on disk then names the new first cluster
  and the new size, reading through it returns exactly the slices of the new data at every
  position, and every other chain keeps its clusters and, outside the entry's sector, its data.
\<close>

theorem fat16_write_file_read_back:
  assumes "fat_ok fs" "reliable (dev fs)" "disk_wf (dev fs)"
    "dir_lookup parent (to_8_3 name) fs = Some (Found e lba i dbuf, fs1)" "de_attr e AND ATTR_DIRECTORY = 0"
    "file_chain (g_fat fs) (de_first_cluster e) old" "entry_sector_ok fs lba old" "buf \<noteq> []" "length buf < 2 ^ 32"
    "length buf \<le> card (usable fs old) * bpc fs"
  shows "\<exists>fs' first. fat16_write_file parent name buf fs = Some (0, fs')
     \<and> media fs' lba = put_dirent i (e\<lparr>de_first_cluster := first, de_size := of_nat (length buf)\<rparr>) dbuf
     \<and> (\<forall>pos len. len \<noteq> 0 \<and> unat pos + unat len < 2 ^ 32 \<longrightarrow>
          (\<exists>fs''. fat16_read_at (ucast first) pos len (of_nat (length buf)) fs'
             = Some (Some (take (unat len) (drop (unat pos) buf)), fs'')))
     \<and> (\<forall>c cs. chain (g_fat fs) c cs \<and> set cs \<inter> set old = {} \<and> (\<forall>x \<in> set cs. x < g_total_clusters fs \<and> lba \<notin> cluster_lbas fs x) \<longrightarrow>
          chain (g_fat fs') c cs \<and> file_data fs' cs = file_data fs cs)"
proof (rule write_file_result[OF assms(1-8,10)])
  fix fat m m0 n n0 cs
  let ?fs0 = "upd (\<lambda>x. if x \<in> set old then 0 else g_fat fs x) (media fs) (ios (dev fs)) fs"
  let ?fs1 = "upd fat m0 n0 fs" and ?fs' = "upd fat m n fs"
  assume w: "chain_written buf (Some (hd cs)) 0 0 cs ?fs0 ?fs1"
    and run: "fat16_write_file parent name buf fs = Some (0, ?fs')" and wf: "disk_wf (dev ?fs')"
    and ent: "m lba = put_dirent i (e\<lparr>de_first_cluster := ucast (hd cs), de_size := of_nat (length buf)\<rparr>) dbuf"
    and same: "\<And>l. l \<noteq> lba \<Longrightarrow> g_root_start_lba fs \<le> l \<Longrightarrow> m l = m0 l"
  have ok0: "fat_ok ?fs0" using assms(1) by simp
  have geo: "g_data_start_lba ?fs1 = g_data_start_lba ?fs0" "g_sectors_per_cluster ?fs1 = g_sectors_per_cluster ?fs0" by simp_all
  note f = chain_written_file[OF w assms(8) ok0 geo]
  have free: "\<forall>c \<in> set cs. 2 \<le> c \<and> c < g_total_clusters fs \<and> lba \<notin> cluster_lbas fs c"
    using w assms(7) by (auto simp: chain_written_def cluster_free_def entry_sector_ok_def split: if_splits)
  have keep: "file_data ?fs' xs = file_data ?fs1 xs"
    if "\<forall>x \<in> set xs. 2 \<le> x \<and> x < g_total_clusters fs \<and> lba \<notin> cluster_lbas fs x" for xs
  proof -
    have "m l = m0 l" if "x \<in> set xs" "l \<in> cluster_lbas fs x" for x l
    proof -
      have "g_data_start_lba fs \<le> l" using cluster_lbas_data[OF assms(1)] that \<open>\<forall>x \<in> set xs. _\<close> by blast
      moreover have "g_root_start_lba fs \<le> g_data_start_lba fs" using assms(1) by (simp add: fat_ok_def word_le_nat_alt)
      ultimately show ?thesis using same that \<open>\<forall>x \<in> set xs. _\<close> by (metis order_trans)
    qed
    then show ?thesis using file_data_outside[of xs ?fs1 m fat n] by simp
  qed
  have read: "\<exists>fs''. fat16_read_at (ucast (ucast (hd cs) :: u16)) pos len (of_nat (length buf)) ?fs'
      = Some (Some (take (unat len) (drop (unat pos) buf)), fs'')" if "len \<noteq> 0" "unat pos + unat len < 2 ^ 32" for pos len
  proof -
    have ch: "chain (g_fat ?fs') (hd cs) cs" using f(4) by simp
    have "unat (of_nat (length buf) :: u32) = length buf" using assms(9) by (simp add: unat_of_nat)
    moreover have "take (min (unat len) (length buf - unat pos)) (drop (unat pos) (file_data ?fs' cs))
        = take (unat len) (drop (unat pos) buf)"
      unfolding slice_of_prefix using f(5) keep[of cs] free by simp
    ultimately show ?thesis
      using fat16_read_at_chain[OF _ _ wf ch f(1) that, of "of_nat (length buf)"] assms(1,2) f(3) by auto
  qed
  have other: "chain fat c xs \<and> file_data ?fs' xs = file_data fs xs"
    if x: "chain (g_fat fs) c xs" "set xs \<inter> set old = {}" "\<forall>x \<in> set xs. x < g_total_clusters fs \<and> lba \<notin> cluster_lbas fs x" for c xs
  proof -
    have ch0: "chain (g_fat ?fs0) c xs" using x(1,2) by (subst chain_cong[of xs _ "g_fat fs"]) auto
    have "file_data ?fs1 xs = file_data ?fs0 xs" using f(7)[OF ch0] x(3) by simp
    moreover have "file_data ?fs0 xs = file_data fs xs" by (rule file_data_cong) simp_all
    moreover have "file_data ?fs' xs = file_data ?fs1 xs" using keep[of xs] chain_range[OF x(1)] x(3) by blast
    ultimately show ?thesis using f(6)[OF ch0] by simp
  qed
  show ?thesis
    by (rule exI[of _ ?fs'], rule exI[of _ "ucast (hd cs)"]) (use run ent read other in auto)
qed

theorem fat16_write_file_read_back_witness:
  "\<exists>fs' fs'' first. fat16_write_file 0 [97, 46, 116, 120, 116] (replicate 600 5)
        (small_volume ((\<lambda>_. 0)(7 := 0xFFFF)) ((\<lambda>_. replicate 512 0)(2 := put_dirent 0 example_entry (replicate 512 0)))) = Some (0, fs')
     \<and> fat16_read_at first 510 4 600 fs' = Some (Some [5, 5, 5, 5], fs'')"
proof -
  let ?m = "(\<lambda>_. replicate 512 0)(2 := put_dirent 0 example_entry (replicate 512 0))"
  let ?fs = "small_volume ((\<lambda>_. 0)(7 := 0xFFFF)) ?m"
  let ?nm = "to_8_3 [97, 46, 116, 120, 116]"
  have wf: "disk_wf (dev ?fs)" using length_put[of "replicate 512 0" 0 example_entry] example_entry_simps(5)
    by (simp add: disk_wf_def)
  obtain it where ds: "dir_sectors ?fs (dir_iter_init 0) [2] it" using small_root by blast
  have "matching ?nm example_entry" by (simp add: matching_def example_entry_simps example_name ATTR_VOLUME_ID_def)
  then have "lookup_scan ?nm (dirents (put_dirent 0 example_entry (replicate 512 0))) = Some (Some (0, example_entry))"
    using example_entry_simps(5,6) lookup_put[of "replicate 512 0" 0 example_entry ?nm]
    by (simp add: lookup_slots) (simp add: live_def)
  then obtain fs1 where lk: "dir_lookup 0 ?nm ?fs = Some (Found example_entry 2 0 (?m 2), fs1)"
    using dir_lookup_list[OF ds small_volume_ok(2), of ?nm]
    by (auto simp: walk_lookup_Cons simp del: walk_list.simps)
  have attr: "de_attr example_entry AND ATTR_DIRECTORY = 0" by (simp add: example_entry_simps ATTR_DIRECTORY_def)
  have fc: "file_chain (g_fat ?fs) (de_first_cluster example_entry) [7]" by (simp add: file_chain_def example_entry_simps)
  have es: "entry_sector_ok ?fs 2 [7]" by (auto simp: entry_sector_ok_def cluster_lbas_def word_le_nat_alt)
  have "{7, 8} \<subseteq> usable ?fs [7]" by (simp add: usable_def cluster_free_def)
  then have "card {7 :: u32, 8} \<le> card (usable ?fs [7])" by (rule card_mono[rotated]) simp
  then have room: "length (replicate 600 (5 :: u8)) \<le> card (usable ?fs [7]) * bpc ?fs" by simp
  obtain fs' first where w: "fat16_write_file 0 [97, 46, 116, 120, 116] (replicate 600 5) ?fs = Some (0, fs')"
    and r: "\<forall>pos len. len \<noteq> 0 \<and> unat pos + unat len < 2 ^ 32 \<longrightarrow> (\<exists>fs''. fat16_read_at (ucast (first :: u16)) pos len (of_nat (length (replicate 600 (5 :: u8)))) fs'
        = Some (Some (take (unat len) (drop (unat pos) (replicate 600 5))), fs''))"
    using fat16_write_file_read_back[OF small_volume_ok wf lk attr fc es _ _ room] by auto
  have "take 4 (drop 510 (replicate 600 (5 :: u8))) = [5, 5, 5, 5]" by (simp add: eval_nat_numeral)
  then show ?thesis using w r[rule_format, of 4 510] by auto
qed

section \<open>Directories\<close>

text \<open>
  C25. Lookup after insertion. In a mounted directory (the root, or one whose chain ends) that has a
  free slot and does not contain the name, inserting an entry succeeds; a lookup of its name then
  returns exactly that entry, and every entry found under another name before is found again, at
  the same place. All of these calls return.
\<close>

theorem dir_insert_lookup:
  assumes "fat_ok fs" "reliable (dev fs)" "disk_wf (dev fs)" "dc = 0 \<or> (\<exists>cs. chain (g_fat fs) dc (dc # cs))"
    "\<not> dir_full dc fs" "dirent_ok e" "live e" "de_attr e AND ATTR_VOLUME_ID = 0"
    "dir_lookup dc (name83_of e) fs = Some (NotFound, fs1)"
  shows "\<exists>fs'. dir_insert dc e fs = Some (0, fs')
     \<and> (\<exists>lba i buf fs2. dir_lookup dc (name83_of e) fs' = Some (Found e lba i buf, fs2))
     \<and> (\<forall>name x l j b fs2. dir_lookup dc name fs = Some (Found x l j b, fs2) \<longrightarrow>
          (\<exists>b' fs3. dir_lookup dc name fs' = Some (Found x l j b', fs3)))"
proof -
  obtain ls it where ds: "dir_sectors fs (dir_iter_init dc) ls it" using dir_sectors_exist[OF assms(1,4)] by blast
  show ?thesis
  proof (rule dir_insert_slot[OF ds assms(2,5), of e])
    fix i lba pre post n
    let ?m = "(media fs)(lba := put_dirent i e (media fs lba))"
    let ?fs' = "upd (g_fat fs) ?m n fs"
    assume ls: "ls = pre @ lba # post" and slot: "insert_scan (dirents (media fs lba)) = Some i"
      and pre: "\<forall>l \<in> set pre. insert_scan (dirents (media fs l)) = None" and run: "dir_insert dc e fs = Some (0, ?fs')"
    have len: "length (media fs lba) = 512" using assms(3) by (simp add: disk_wf_def)
    have m: "matching (name83_of e) e" using assms(7,8) by (simp add: matching_def)
    have look: "dir_lookup dc name fs = Some (Found x l j b, fs2) \<longleftrightarrow>
        walk_list (lookup_body name) (media fs) ls it () = WalkStop (Found x l j b) \<and> dir_lookup dc name fs = Some (Found x l j b, fs2)"
      for name x l j b fs2
      using dir_lookup_list[OF ds assms(2), of name] by (auto split: walk.splits)
    have look': "walk_list (lookup_body name) ?m ls it () = WalkStop (Found x l j b) \<Longrightarrow>
        \<exists>fs2. dir_lookup dc name ?fs' = Some (Found x l j b, fs2)" for name x l j b
      using dir_lookup_list[OF dir_sectors_upd[OF ds, of ?m n], of name] assms(2) by auto
    have "\<forall>x l j b. walk_list (lookup_body (name83_of e)) (media fs) (pre @ lba # post) it () \<noteq> WalkStop (Found x l j b)"
      using dir_lookup_list[OF ds assms(2), of "name83_of e"] assms(9) ls by auto
    from look'[folded ls, OF walk_lookup_inserted[OF pre slot this len assms(6) m refl, folded ls]]
    have found: "\<exists>lba i buf fs2. dir_lookup dc (name83_of e) ?fs' = Some (Found e lba i buf, fs2)" by blast
    have kept: "\<exists>b' fs3. dir_lookup dc name ?fs' = Some (Found x l j b', fs3)"
      if "dir_lookup dc name fs = Some (Found x l j b, fs2)" for name x l j b fs2
    proof -
      have w: "walk_list (lookup_body name) (media fs) ls it () = WalkStop (Found x l j b)" using look that by blast
      have "name \<noteq> name83_of e" using that assms(9) by auto
      then have "\<not> matching name e" by (simp add: matching_def)
      from look'[OF walk_lookup_kept[OF slot len assms(6,7) this refl w]] show ?thesis by blast
    qed
    show ?thesis by (rule exI[of _ ?fs']) (use run found kept in blast)
  qed
qed

theorem dir_insert_lookup_witness:
  "\<exists>fs' lba i buf fs2. dir_insert 0 example_entry (small_volume (\<lambda>_. 0) (\<lambda>_. replicate 512 0)) = Some (0, fs')
     \<and> dir_lookup 0 (name83_of example_entry) fs' = Some (Found example_entry lba i buf, fs2)"
proof -
  let ?fs = "small_volume (\<lambda>_. 0) (\<lambda>_. replicate 512 0)"
  obtain it where ds: "dir_sectors ?fs (dir_iter_init 0) [2] it" using small_root by blast
  have wf: "disk_wf (dev ?fs)" by (simp add: disk_wf_def)
  have "insert_scan (dirents (replicate 512 0)) = Some 0" using empty_sector(1) by (simp add: dirents_slots insert_slots)
  then have "\<not> dir_full 0 ?fs"
    using dir_walk_list[OF ds small_volume_ok(2), of insert_body "()"]
    by (auto simp: dir_full_def walk_insert_Cons simp del: walk_list.simps)
  moreover have "lookup_scan n (dirents (replicate 512 0)) = Some None" for n
    using empty_sector(2) by (simp add: dirents_slots lookup_slots)
  then obtain fs1 where "dir_lookup 0 (name83_of example_entry) ?fs = Some (NotFound, fs1)"
    using dir_lookup_list[OF ds small_volume_ok(2), of "name83_of example_entry"]
    by (auto simp: walk_lookup_Cons simp del: walk_list.simps)
  ultimately show ?thesis
    using dir_insert_lookup[OF small_volume_ok wf _ _ example_entry_simps(5,6), of 0 fs1]
    by (auto simp: example_entry_simps ATTR_VOLUME_ID_def)
qed

section \<open>Names\<close>

lemma fat16_toupper_simps [simp]:
  "fat16_toupper (fat16_toupper c) = fat16_toupper c" "fat16_toupper c = SPACE \<longleftrightarrow> c = SPACE"
  "fat16_toupper c = DOT \<longleftrightarrow> c = DOT" "fat16_toupper DOT = DOT"
  unfolding fat16_toupper_def SPACE_def DOT_def by (uint_arith, uint_arith, uint_arith, simp)

lemma fat16_toupper_flipped [simp]: "SPACE = fat16_toupper c \<longleftrightarrow> c = SPACE" "DOT = fat16_toupper c \<longleftrightarrow> c = DOT"
  by (metis fat16_toupper_simps(2), metis fat16_toupper_simps(3))

lemma takeWhile_pad: "SPACE \<notin> set xs \<Longrightarrow> takeWhile (\<lambda>c. c \<noteq> SPACE) (pad_to n xs) = xs"
proof -
  assume "SPACE \<notin> set xs"
  then have "takeWhile (\<lambda>c. c \<noteq> SPACE) (xs @ ys) = xs @ takeWhile (\<lambda>c. c \<noteq> SPACE) ys" for ys
    by (induction xs) auto
  then show ?thesis by (simp add: pad_to_def takeWhile_replicate)
qed

lemma pad_nonblank: "SPACE \<notin> set xs \<Longrightarrow> (\<exists>c \<in> set (pad_to n xs). c \<noteq> SPACE) \<longleftrightarrow> xs \<noteq> []"
  by (cases xs) (auto simp: pad_to_def)

lemma dot_names:
  "to_8_3 (dirent_display_name (new_dirent (to_8_3 [DOT]) 0 0)) = to_8_3 [DOT]"
  "to_8_3 (dirent_display_name (new_dirent (to_8_3 [DOT, DOT]) 0 0)) = to_8_3 [DOT, DOT]"
  by code_simp+

lemma length_to_8_3: "length (to_8_3 n) = 11"
  by (auto simp: to_8_3_def pad_to_def Let_def)

lemma to_8_3_parts:
  assumes "n \<noteq> [DOT]" "n \<noteq> [DOT, DOT]" "SPACE \<notin> set n"
  obtains b x where "to_8_3 n = pad_to 8 b @ pad_to 3 x" "length b \<le> 8" "length x \<le> 3" "SPACE \<notin> set b" "SPACE \<notin> set x"
    "DOT \<notin> set b" "map fat16_toupper b = b" "map fat16_toupper x = x" "b @ DOT # x \<noteq> [DOT, DOT]"
proof -
  define base where "base = takeWhile (\<lambda>c. c \<noteq> DOT) n"
  define rest where "rest = dropWhile (\<lambda>c. c \<noteq> DOT) n"
  have n: "n = base @ rest" by (simp add: base_def rest_def)
  have b: "DOT \<notin> set base" by (auto simp: base_def dest: set_takeWhileD)
  let ?b = "map fat16_toupper (take 8 base)" and ?x = "map fat16_toupper (take 3 (drop 1 rest))"
  have "to_8_3 n = pad_to 8 ?b @ pad_to 3 ?x" using assms(1,2) by (simp add: to_8_3_def base_def rest_def)
  moreover have "?b @ DOT # ?x \<noteq> [DOT, DOT]"
  proof
    assume "?b @ DOT # ?x = [DOT, DOT]"
    then have e: "?b = []" "?x = [DOT]" using b by (cases base; auto)+
    then have "base = []" by simp
    moreover obtain r rs where rest: "rest = r # rs" using e(2) by (cases rest) auto
    then have "r = DOT" using hd_dropWhile[of "\<lambda>c. c \<noteq> DOT" n] by (simp add: rest_def)
    moreover have "rs = [DOT]" using e(2) rest by (cases rs rule: remdups_adj.cases) (auto simp: eval_nat_numeral)
    ultimately show False using n rest assms(2) by simp
  qed
  ultimately show thesis
    using assms(3) b n by (intro that[of ?b ?x]) (auto dest!: in_set_takeD in_set_dropD)
qed

text \<open>
  C26. Names survive the directory: \<open>to_8_3\<close> always gives the 11 bytes of an entry, and for a name
  without a space the name that \<open>fat16_readdir\<close> shows for the entry of that name leads back to the same
  11 bytes, so every listed file can be opened under its listed name.
\<close>

theorem name_roundtrip:
  "length (to_8_3 n) = 11 \<and> (SPACE \<notin> set n \<longrightarrow> to_8_3 (dirent_display_name (new_dirent (to_8_3 n) attr c)) = to_8_3 n)"
proof (intro conjI impI)
  assume sp: "SPACE \<notin> set n"
  show "to_8_3 (dirent_display_name (new_dirent (to_8_3 n) attr c)) = to_8_3 n"
  proof (cases "n = [DOT] \<or> n = [DOT, DOT]")
    case True
    have "dirent_display_name (new_dirent x attr c) = dirent_display_name (new_dirent x 0 0)" for x
      by (simp add: dirent_display_name_def new_dirent_def)
    then show ?thesis using True dot_names by auto
  next
    case False
    then obtain b x where p: "to_8_3 n = pad_to 8 b @ pad_to 3 x" "length b \<le> 8" "length x \<le> 3" "SPACE \<notin> set b" "SPACE \<notin> set x"
      "DOT \<notin> set b" "map fat16_toupper b = b" "map fat16_toupper x = x" "b @ DOT # x \<noteq> [DOT, DOT]"
      using to_8_3_parts[of n] sp by blast
    have "length (pad_to 8 b) = 8" using p(2) by (simp add: pad_to_def)
    then have d: "dirent_display_name (new_dirent (to_8_3 n) attr c) = b @ (if x = [] then [] else DOT # x)"
      unfolding dirent_display_name_def new_dirent_def
      using p(1) takeWhile_pad[OF p(4)] takeWhile_pad[OF p(5)] pad_nonblank[OF p(5)] by simp
    have "takeWhile (\<lambda>c. c \<noteq> DOT) (b @ ys) = b @ takeWhile (\<lambda>c. c \<noteq> DOT) ys"
      "dropWhile (\<lambda>c. c \<noteq> DOT) (b @ ys) = dropWhile (\<lambda>c. c \<noteq> DOT) ys" for ys
      using p(6) by (induction b) auto
    moreover have "b @ (if x = [] then [] else DOT # x) \<noteq> [DOT]" "b @ (if x = [] then [] else DOT # x) \<noteq> [DOT, DOT]"
      using p(6,9) by (auto simp: append_eq_Cons_conv)
    ultimately show ?thesis unfolding d using p(1-3,7,8) by (simp add: to_8_3_def)
  qed
qed (rule length_to_8_3)

theorem name_roundtrip_witness:
  "to_8_3 (dirent_display_name (new_dirent (to_8_3 [97, 46, 116, 120, 116]) 32 7)) = to_8_3 [97, 46, 116, 120, 116]"
  using name_roundtrip[of "[97, 46, 116, 120, 116]" 32 7] by (simp add: SPACE_def)

end
