(* ===== verification/Vmm.thy ===== *)
theory Vmm
  imports Pmm
begin

text \<open>
  The virtual memory manager (kernel/memory/vmm.c). Page directories and page tables are arrays of 1024 words in physical memory.
  The kernel runs with the first 8 MB mapped to themselves, so a pointer made from a physical
  address is an access to that address; the console output of \<open>vmm_init\<close> is left out.
\<close>

section \<open>Constants and state\<close>

definition VMM_PRESENT :: u32 where "VMM_PRESENT = 0x01"
definition VMM_WRITABLE :: u32 where "VMM_WRITABLE = 0x02"
definition VMM_USER :: u32 where "VMM_USER = 0x04"
definition VMM_KERNEL :: u32 where "VMM_KERNEL = VMM_PRESENT OR VMM_WRITABLE"
definition VMM_ERR_RANGE :: int where "VMM_ERR_RANGE = -1"
definition VMM_ERR_NOMEM :: int where "VMM_ERR_NOMEM = -2"
definition PAGE_DIR_ADDR :: u32 where "PAGE_DIR_ADDR = 0x300000"
definition PAGE_TABLE_START :: u32 where "PAGE_TABLE_START = 0x301000"
definition PAGE_TABLE_END :: u32 where "PAGE_TABLE_END = 0x341000"

record vmm =
  ram :: mem
  frames_of :: pmm
  pt_next :: u32
  paging_active :: bool
  cr0 :: u32
  cr3 :: u32

text \<open>Word \<open>i\<close> of the array at \<open>base\<close>, the indices of a virtual address, and the table an entry names.\<close>

abbreviation slot :: "u32 \<Rightarrow> u32 \<Rightarrow> u32" where
  "slot base i \<equiv> base + 4 * i"

definition pd_index :: "u32 \<Rightarrow> u32" where
  "pd_index virt = drop_bit 22 virt"

definition pt_index :: "u32 \<Rightarrow> u32" where
  "pt_index virt = drop_bit 12 virt AND 0x3FF"

definition frame_of :: "u32 \<Rightarrow> u32" where
  "frame_of e = e AND 0xFFFFF000"

definition present :: "u32 \<Rightarrow> bool" where
  "present e \<longleftrightarrow> e AND VMM_PRESENT \<noteq> 0"

definition user_accessible :: "u32 \<Rightarrow> bool" where
  "user_accessible e \<longleftrightarrow> e AND VMM_USER \<noteq> 0"

text \<open>\<open>for (i = 0; i < 1024; i++) p[i] = f(i)\<close>.\<close>

definition fill_words :: "u32 \<Rightarrow> (u32 \<Rightarrow> u32) \<Rightarrow> nat list \<Rightarrow> mem \<Rightarrow> mem" where
  "fill_words p f is m = fold (\<lambda>i m. write32 m (slot p (of_nat i)) (f (of_nat i))) is m"

definition zero_4kb :: "u32 \<Rightarrow> mem \<Rightarrow> mem" where
  "zero_4kb addr m = fill_words addr (\<lambda>_. 0) [0 ..< 1024] m"

section \<open>Kernel mappings\<close>

definition map_page_early :: "u32 \<Rightarrow> u32 \<Rightarrow> u32 \<Rightarrow> vmm \<Rightarrow> int \<times> vmm" where
  "map_page_early virt phys flags s =
     (let di = pd_index virt; ti = pt_index virt;
          write_pte = (\<lambda>s. let pt = frame_of (read32 (ram s) (slot PAGE_DIR_ADDR di))
             in (0, s\<lparr>ram := write32 (ram s) (slot pt ti) ((phys AND 0xFFFFF000) OR (flags AND 0xFFF) OR VMM_PRESENT)\<rparr>)) in
      if \<not> present (read32 (ram s) (slot PAGE_DIR_ADDR di)) then
        if pt_next s \<ge> PAGE_TABLE_END then (VMM_ERR_NOMEM, s)
        else write_pte (s\<lparr>ram := write32 (zero_4kb (pt_next s) (ram s)) (slot PAGE_DIR_ADDR di) (pt_next s OR VMM_KERNEL),
               pt_next := pt_next s + 4096\<rparr>)
      else write_pte s)"

text \<open>\<open>invlpg\<close> has no counterpart: the model has no TLB.\<close>

definition vmm_map_page :: "u32 \<Rightarrow> u32 \<Rightarrow> u32 \<Rightarrow> vmm \<Rightarrow> int \<times> vmm" where
  "vmm_map_page virt phys flags s =
     (let (r, s) = map_page_early virt phys flags s in if r \<noteq> 0 then (r, s) else (0, s))"

definition vmm_unmap_page :: "u32 \<Rightarrow> vmm \<Rightarrow> vmm" where
  "vmm_unmap_page virt s =
     (let pde = read32 (ram s) (slot PAGE_DIR_ADDR (pd_index virt)) in
      if \<not> present pde then s
      else s\<lparr>ram := write32 (ram s) (slot (frame_of pde) (pt_index virt)) 0\<rparr>)"

section \<open>Translation\<close>

definition vmm_get_phys_from_dir :: "u32 \<Rightarrow> u32 \<Rightarrow> vmm \<Rightarrow> u32" where
  "vmm_get_phys_from_dir pd_phys virt s =
     (let pde = read32 (ram s) (slot pd_phys (pd_index virt)) in
      if \<not> present pde then 0
      else let pte = read32 (ram s) (slot (frame_of pde) (pt_index virt)) in
        if \<not> present pte then 0 else frame_of pte OR (virt AND 0xFFF))"

definition vmm_get_phys :: "u32 \<Rightarrow> vmm \<Rightarrow> u32" where
  "vmm_get_phys virt s =
     (let pde = read32 (ram s) (slot PAGE_DIR_ADDR (pd_index virt)) in
      if \<not> present pde then 0
      else let pte = read32 (ram s) (slot (frame_of pde) (pt_index virt)) in
        if \<not> present pte then 0 else frame_of pte OR (virt AND 0xFFF))"

definition vmm_get_user_phys_from_dir :: "u32 \<Rightarrow> u32 \<Rightarrow> vmm \<Rightarrow> u32" where
  "vmm_get_user_phys_from_dir pd_phys virt s =
     (let pde = read32 (ram s) (slot pd_phys (pd_index virt)) in
      if \<not> present pde \<or> \<not> user_accessible pde then 0
      else let pte = read32 (ram s) (slot (frame_of pde) (pt_index virt)) in
        if \<not> present pte \<or> \<not> user_accessible pte then 0 else frame_of pte OR (virt AND 0xFFF))"

definition vmm_get_kernel_directory :: u32 where
  "vmm_get_kernel_directory = PAGE_DIR_ADDR"

definition vmm_switch_directory :: "u32 \<Rightarrow> vmm \<Rightarrow> vmm" where
  "vmm_switch_directory dir s = s\<lparr>cr3 := dir\<rparr>"

section \<open>Directories\<close>

definition vmm_map_user_page :: "u32 \<Rightarrow> u32 \<Rightarrow> u32 \<Rightarrow> vmm \<Rightarrow> int \<times> vmm" where
  "vmm_map_user_page pd_phys virt phys s =
     (if virt < 0x800000 then (VMM_ERR_RANGE, s)
      else let di = pd_index virt; ti = pt_index virt; flags = VMM_PRESENT OR VMM_WRITABLE OR VMM_USER;
               write_pte = (\<lambda>s. let pt = frame_of (read32 (ram s) (slot pd_phys di))
                 in (0, s\<lparr>ram := write32 (ram s) (slot pt ti) ((phys AND 0xFFFFF000) OR flags)\<rparr>)) in
        if \<not> present (read32 (ram s) (slot pd_phys di)) then
          let (pt_phys, p) = pmm_alloc_page (frames_of s) in
          if pt_phys = 0 then (VMM_ERR_NOMEM, s\<lparr>frames_of := p\<rparr>)
          else if pt_phys \<ge> 0x800000 then (VMM_ERR_NOMEM, s\<lparr>frames_of := pmm_free_page pt_phys p\<rparr>)
          else write_pte (s\<lparr>frames_of := p, ram := write32 (zero_4kb pt_phys (ram s)) (slot pd_phys di) (pt_phys OR flags)\<rparr>)
        else write_pte s)"

definition vmm_create_directory :: "vmm \<Rightarrow> u32 \<times> vmm" where
  "vmm_create_directory s =
     (let (pd_phys, p) = pmm_alloc_page (frames_of s) in
      if pd_phys = 0 then (0, s\<lparr>frames_of := p\<rparr>)
      else if pd_phys \<ge> 0x800000 then (0, s\<lparr>frames_of := pmm_free_page pd_phys p\<rparr>)
      else let m = fill_words pd_phys (\<lambda>_. 0) [0 ..< 1024] (ram s);
               m = write32 m (slot pd_phys 0) (read32 m (slot PAGE_DIR_ADDR 0));
               m = write32 m (slot pd_phys 1) (read32 m (slot PAGE_DIR_ADDR 1))
           in (pd_phys, s\<lparr>frames_of := p, ram := m\<rparr>))"

definition vmm_init :: "vmm \<Rightarrow> vmm" where
  "vmm_init s =
     (let pd = PAGE_DIR_ADDR; pt0 = PAGE_TABLE_START; pt1 = PAGE_TABLE_START + 4096;
          m = fold (\<lambda>i m. write32 (write32 (write32 m (slot pd (of_nat i)) 0) (slot pt0 (of_nat i)) 0) (slot pt1 (of_nat i)) 0)
                [0 ..< 1024] (ram s);
          m = fill_words pt0 (\<lambda>i. i * 4096 OR VMM_KERNEL OR VMM_PRESENT) [0 ..< 1024] m;
          m = fill_words pt1 (\<lambda>i. (0x400000 + i * 4096) OR VMM_KERNEL OR VMM_PRESENT) [0 ..< 1024] m;
          m = write32 m (slot pd 0) (PAGE_TABLE_START OR VMM_KERNEL OR VMM_PRESENT);
          m = write32 m (slot pd 1) ((PAGE_TABLE_START + 4096) OR VMM_KERNEL OR VMM_PRESENT)
      in s\<lparr>ram := m, cr3 := PAGE_DIR_ADDR, cr0 := cr0 s OR 0x80000000, paging_active := True\<rparr>)"

section \<open>Arrays of 1024 words\<close>

abbreviation page_aligned :: "u32 \<Rightarrow> bool" where
  "page_aligned a \<equiv> a AND 0xFFF = 0"

definition page_of :: "u32 \<Rightarrow> u32" where
  "page_of a = a AND NOT 0xFFF"

lemma page_aligned_unat: "page_aligned a \<longleftrightarrow> unat a mod 4096 = 0"
  using aligned_and_mask_iff[of a 12] by (simp add: page_mask)

lemma unat_page_of: "unat (page_of a) = unat a div 4096 * 4096"
  using unat_and_not_mask[of a 12] by (simp add: page_of_def page_mask)

lemma page_aligned_page_of [simp]: "page_aligned (page_of a)"
  by (simp add: page_aligned_unat unat_page_of)

lemma page_of_aligned: "page_aligned a \<Longrightarrow> page_of a = a"
proof -
  assume "page_aligned a"
  then have "unat a mod 4096 = 0" by (simp only: page_aligned_unat)
  then have "unat a div 4096 * 4096 = unat a" by (simp add: mod_eq_0_iff_dvd)
  then show ?thesis by (simp add: word_unat_eq_iff unat_page_of)
qed

lemma page_room:
  assumes "page_aligned b" "k < 4096"
  shows "unat b + k < 2 ^ 32" "(unat b + k) div 4096 * 4096 = unat b"
proof -
  obtain q where q: "unat b = 4096 * q"
    using assms(1) by (auto simp: page_aligned_unat mod_eq_0_iff_dvd elim!: dvdE)
  then show "unat b + k < 2 ^ 32" using unat_u32[of b] assms(2) by simp
  show "(unat b + k) div 4096 * 4096 = unat b" using q assms(2) by simp
qed

lemma unat_in_page:
  assumes "page_aligned b" "unat k < 4096"
  shows "unat (b + k) = unat b + unat k" "page_of (b + k) = b"
proof -
  show u: "unat (b + k) = unat b + unat k" using page_room(1)[OF assms] by (simp add: unat_word_ariths)
  show "page_of (b + k) = b" using page_room(2)[OF assms] by (simp add: word_unat_eq_iff unat_page_of u)
qed

lemma slot_offset: "i < 1024 \<Longrightarrow> k < 4 \<Longrightarrow> unat (4 * i + k :: u32) = 4 * unat i + unat k"
  by (simp add: unat_word_ariths word_less_nat_alt)

lemma unat_slot:
  assumes "page_aligned b" "i < 1024"
  shows "unat (slot b i) = unat b + 4 * unat i"
  using unat_in_page(1)[OF assms(1), of "4 * i"] slot_offset[OF assms(2), of 0] assms(2) by (simp add: word_less_nat_alt)

lemma page_of_slot:
  assumes "page_aligned b" "i < 1024" "k < 4"
  shows "page_of (slot b i + k) = b"
  using unat_in_page(2)[OF assms(1), of "4 * i + k"] slot_offset[OF assms(2,3)] assms(2,3)
  by (simp add: word_less_nat_alt add.assoc)

lemma slot_eq:
  assumes "page_aligned b" "page_aligned c" "i < 1024" "j < 1024"
  shows "slot b i = slot c j \<longleftrightarrow> b = c \<and> i = j"
proof
  assume eq: "slot b i = slot c j"
  have "b = c" using page_of_slot[OF assms(1,3), of 0] page_of_slot[OF assms(2,4), of 0] eq by simp
  moreover have "unat i = unat j" using unat_slot[OF assms(1,3)] unat_slot[OF assms(2,4)] eq \<open>b = c\<close> by simp
  ultimately show "b = c \<and> i = j" by (simp add: word_unat_eq_iff)
qed simp

lemma page_aligned_word: "page_aligned b \<Longrightarrow> b AND 3 = 0"
proof -
  assume "page_aligned b"
  then have "unat b mod 4096 mod 4 = 0" by (simp add: page_aligned_unat)
  then have "unat b mod 4 = 0" by (simp add: mod_mod_cancel)
  then show ?thesis using aligned_and_mask_iff[of b 2] by (simp add: mask_eq_exp_minus_1)
qed

lemma read_slot_write:
  assumes "page_aligned b" "page_aligned c" "i < 1024" "j < 1024"
  shows "read32 (write32 m (slot b i) v) (slot c j) = (if b = c \<and> i = j then v else read32 m (slot c j))"
proof (cases "b = c \<and> i = j")
  case False
  then have "slot b i \<noteq> slot c j" using slot_eq[OF assms] by simp
  then have "sep32 (slot b i) (slot c j)"
    using assms(1,2) by (intro sep32_aligned aligned_index page_aligned_word)
  then show ?thesis using False by (auto simp: read32_write32_sep)
qed auto

lemma write_slot_byte:
  assumes "page_aligned b" "i < 1024" "page_of a \<noteq> b"
  shows "write32 m (slot b i) v a = m a"
proof (rule write32_other, rule ballI)
  fix k :: u32 assume "k \<in> {0, 1, 2, 3}"
  then have "k < 4" by auto
  then show "a \<noteq> slot b i + k" using page_of_slot[OF assms(1,2)] assms(3) by auto
qed

lemma read_fill_words:
  assumes "page_aligned b" "page_aligned c" "j < 1024" "n \<le> 1024"
  shows "read32 (fill_words b f [0 ..< n] m) (slot c j) = (if b = c \<and> unat j < n then f j else read32 m (slot c j))"
  using assms(4)
proof (induction n)
  case (Suc n)
  have n: "(of_nat n :: u32) < 1024" "unat (of_nat n :: u32) = n" using Suc.prems by (simp_all add: word_less_nat_alt unat_of_nat)
  have "fill_words b f [0 ..< Suc n] m = write32 (fill_words b f [0 ..< n] m) (slot b (of_nat n)) (f (of_nat n))"
    by (simp add: fill_words_def)
  moreover have "(of_nat n :: u32) = j \<longleftrightarrow> n = unat j" using n(2) by auto
  ultimately show ?case using read_slot_write[OF assms(1,2) n(1) assms(3)] Suc by (auto simp: less_Suc_eq)
qed (simp add: fill_words_def)

lemma fill_words_byte:
  assumes "page_aligned b" "page_of a \<noteq> b" "n \<le> 1024"
  shows "fill_words b f [0 ..< n] m a = m a"
  using assms(3)
proof (induction n)
  case (Suc n)
  have n: "(of_nat n :: u32) < 1024" using Suc.prems by (simp add: word_less_nat_alt unat_of_nat)
  then show ?case using write_slot_byte[OF assms(1) n assms(2)] Suc by (simp add: fill_words_def)
qed (simp add: fill_words_def)

lemma read_zero_4kb:
  "page_aligned b \<Longrightarrow> page_aligned c \<Longrightarrow> j < 1024 \<Longrightarrow> read32 (zero_4kb b m) (slot c j) = (if b = c then 0 else read32 m (slot c j))"
  using read_fill_words[of b c j 1024 "\<lambda>_. 0" m] by (simp add: zero_4kb_def word_less_nat_alt)

lemma zero_4kb_byte: "page_aligned b \<Longrightarrow> page_of a \<noteq> b \<Longrightarrow> zero_4kb b m a = m a"
  using fill_words_byte[of b a 1024] by (simp add: zero_4kb_def)

section \<open>Indices and entries\<close>

lemma pd_index_less: "pd_index v < 1024"
  using unat_u32[of v] by (simp add: pd_index_def word_less_nat_alt drop_bit_eq_div unat_div)

lemma pt_index_less: "pt_index v < 1024"
proof -
  have "pt_index v = drop_bit 12 v AND mask 10" by (simp add: pt_index_def mask_eq_exp_minus_1)
  then have "unat (pt_index v) < 1024" using unat_and_mask[of "drop_bit 12 v" 10] by simp
  then show ?thesis by (simp add: word_less_nat_alt)
qed

lemma unat_indices: "unat (pd_index v) = unat v div 4194304" "unat (pt_index v) = unat v div 4096 mod 1024"
proof -
  show "unat (pd_index v) = unat v div 4194304" by (simp add: pd_index_def drop_bit_eq_div unat_div)
  have "pt_index v = drop_bit 12 v AND mask 10" by (simp add: pt_index_def mask_eq_exp_minus_1)
  then show "unat (pt_index v) = unat v div 4096 mod 1024"
    using unat_and_mask[of "drop_bit 12 v" 10] by (simp add: drop_bit_eq_div unat_div)
qed

lemma indices_page: "pd_index v = pd_index w \<and> pt_index v = pt_index w \<longleftrightarrow> page_of v = page_of w"
proof -
  have "unat v div 4194304 = unat v div 4096 div 1024" for v :: u32 by (simp add: div_mult2_eq[symmetric])
  then have "(unat v div 4194304 = unat w div 4194304 \<and> unat v div 4096 mod 1024 = unat w div 4096 mod 1024)
      \<longleftrightarrow> unat v div 4096 = unat w div 4096" by (metis div_mult_mod_eq)
  then show ?thesis by (simp add: word_unat_eq_iff unat_indices unat_page_of)
qed

lemma kernel_indices: "v < 0x800000 \<longleftrightarrow> pd_index v < 2"
  by (simp add: word_less_nat_alt unat_indices div_less_iff_less_mult)

lemma frame_of_page: "frame_of e = page_of e"
  by (simp add: frame_of_def page_of_def page_mask)

lemma present_bit: "present e \<longleftrightarrow> bit e 0"
  using and_exp_eq_0_iff_not_bit[of e 0] by (simp add: present_def VMM_PRESENT_def)

lemma user_bit: "user_accessible e \<longleftrightarrow> bit e 2"
  using and_exp_eq_0_iff_not_bit[of e 2] by (simp add: user_accessible_def VMM_USER_def)

lemma entry_bits:
  assumes "page_aligned p"
  shows "frame_of (p OR (VMM_PRESENT OR VMM_WRITABLE OR VMM_USER)) = p"
    "present (p OR (VMM_PRESENT OR VMM_WRITABLE OR VMM_USER))"
    "user_accessible (p OR (VMM_PRESENT OR VMM_WRITABLE OR VMM_USER))"
proof -
  have f: "(VMM_PRESENT OR VMM_WRITABLE OR VMM_USER) = 7" by (simp add: VMM_PRESENT_def VMM_WRITABLE_def VMM_USER_def)
  have p: "p AND NOT 0xFFF = p"
    using page_of_aligned[OF assms] by (simp add: page_of_def)
  have "(p OR 7) AND NOT 0xFFF = (p AND NOT 0xFFF) OR (7 AND NOT 0xFFF)" by (rule bit.conj_disj_distrib2)
  then show "frame_of (p OR (VMM_PRESENT OR VMM_WRITABLE OR VMM_USER)) = p"
    using p by (simp add: frame_of_page page_of_def f)
  have "bit (7 :: u32) 0" "bit (7 :: u32) 2" by simp_all
  then show "present (p OR (VMM_PRESENT OR VMM_WRITABLE OR VMM_USER))"
    "user_accessible (p OR (VMM_PRESENT OR VMM_WRITABLE OR VMM_USER))"
    unfolding f by (simp_all only: present_bit user_bit bit_or_iff simp_thms)
qed

section \<open>Well-formed directories\<close>

abbreviation dentry :: "vmm \<Rightarrow> u32 \<Rightarrow> u32 \<Rightarrow> u32" where
  "dentry s pd i \<equiv> read32 (ram s) (slot pd i)"

definition dir_tables :: "vmm \<Rightarrow> u32 \<Rightarrow> u32 \<Rightarrow> u32 set" where
  "dir_tables s pd lo = {frame_of (dentry s pd i) | i. lo \<le> i \<and> i < 1024 \<and> present (dentry s pd i)}"

text \<open>The pages a directory consists of: itself and its tables, the shared kernel tables included.\<close>

definition dir_pages :: "vmm \<Rightarrow> u32 \<Rightarrow> u32 set" where
  "dir_pages s pd = insert pd (dir_tables s pd 0)"

definition dir_ok :: "vmm \<Rightarrow> u32 \<Rightarrow> bool" where
  "dir_ok s pd \<longleftrightarrow> pmm_ok (frames_of s) \<and> page_aligned pd \<and> pd \<notin> dir_tables s pd 0
     \<and> (\<forall>p \<in> dir_pages s pd. \<not> frame_free (frames_of s) p)
     \<and> (\<forall>i j. i < 1024 \<and> j < 1024 \<and> i \<noteq> j \<and> present (dentry s pd i) \<and> present (dentry s pd j) \<longrightarrow>
          frame_of (dentry s pd i) \<noteq> frame_of (dentry s pd j))
     \<and> (\<forall>i. i < 1024 \<and> present (dentry s pd i) \<longrightarrow> (user_accessible (dentry s pd i) \<longleftrightarrow> 2 \<le> i))"

lemma table_aligned [simp]: "page_aligned (frame_of e)"
  by (simp add: frame_of_page)

lemma dir_tables_mono: "dir_tables s pd lo \<subseteq> dir_tables s pd 0"
  by (auto simp: dir_tables_def)

text \<open>Translation reads nothing but the pages of the directory.\<close>

lemma user_phys_cong:
  assumes "page_aligned pd"
    "\<And>p i. p \<in> dir_pages s pd \<Longrightarrow> page_aligned p \<Longrightarrow> i < 1024 \<Longrightarrow> read32 (ram s') (slot p i) = read32 (ram s) (slot p i)"
  shows "vmm_get_user_phys_from_dir pd v s' = vmm_get_user_phys_from_dir pd v s"
    "vmm_get_phys_from_dir pd v s' = vmm_get_phys_from_dir pd v s"
proof -
  have d: "dentry s' pd i = dentry s pd i" if "i < 1024" for i using assms that by (simp add: dir_pages_def)
  have t: "read32 (ram s') (slot (frame_of (dentry s pd i)) j) = read32 (ram s) (slot (frame_of (dentry s pd i)) j)"
    if "i < 1024" "j < 1024" "present (dentry s pd i)" for i j
    using assms(2)[of "frame_of (dentry s pd i)" j] that by (auto simp: dir_pages_def dir_tables_def)
  show "vmm_get_user_phys_from_dir pd v s' = vmm_get_user_phys_from_dir pd v s"
    "vmm_get_phys_from_dir pd v s' = vmm_get_phys_from_dir pd v s"
    using d[OF pd_index_less, of v] t[OF pd_index_less pt_index_less, of v v]
    by (simp_all add: vmm_get_user_phys_from_dir_def vmm_get_phys_from_dir_def Let_def)
qed

text \<open>Filling in a free directory entry with a fresh, zeroed table changes no translation.\<close>

lemma fresh_table:
  assumes ok: "dir_ok s pd" and di: "2 \<le> di" "di < 1024" "\<not> present (dentry s pd di)"
    and al: "pmm_alloc_page (frames_of s) = (pt, p)" "pt \<noteq> 0"
  defines "s1 \<equiv> s\<lparr>frames_of := p, ram := write32 (zero_4kb pt (ram s)) (slot pd di) (pt OR (VMM_PRESENT OR VMM_WRITABLE OR VMM_USER))\<rparr>"
  shows "pt \<notin> dir_pages s pd" "page_aligned pt"
    "i < 1024 \<Longrightarrow> dentry s1 pd i = (if i = di then pt OR (VMM_PRESENT OR VMM_WRITABLE OR VMM_USER) else dentry s pd i)"
    "page_aligned q \<Longrightarrow> q \<noteq> pd \<Longrightarrow> j < 1024 \<Longrightarrow> read32 (ram s1) (slot q j) = (if q = pt then 0 else read32 (ram s) (slot q j))"
    "dir_ok s1 pd" "dir_tables s1 pd lo = (if lo \<le> di then insert pt (dir_tables s pd lo) else dir_tables s pd lo)"
proof -
  have pok: "pmm_ok (frames_of s)" and pd: "page_aligned pd" using ok by (simp_all add: dir_ok_def)
  note fr = frames.alloc_avail[OF pok al] frames.alloc_effect[OF pok al]
  show fresh: "pt \<notin> dir_pages s pd" using ok fr(1) by (auto simp: dir_ok_def)
  show pt: "page_aligned pt" using frames.alloc_range[OF pok al] by blast
  have ne: "pt \<noteq> pd" using fresh by (simp add: dir_pages_def)
  note eb = entry_bits[OF pt]
  show e: "dentry s1 pd i = (if i = di then pt OR (VMM_PRESENT OR VMM_WRITABLE OR VMM_USER) else dentry s pd i)" if "i < 1024" for i
    using read_slot_write[OF pd pd di(2) that] read_zero_4kb[OF pt pd that] ne by (simp add: s1_def)
  show "read32 (ram s1) (slot q j) = (if q = pt then 0 else read32 (ram s) (slot q j))"
    if "page_aligned q" "q \<noteq> pd" "j < 1024" for q j
    using read_slot_write[OF pd that(1) di(2) that(3)] read_zero_4kb[OF pt that(1,3)] that(2) by (auto simp: s1_def)
  show tabs: "dir_tables s1 pd lo = (if lo \<le> di then insert pt (dir_tables s pd lo) else dir_tables s pd lo)" for lo
    using e di eb unfolding dir_tables_def by (auto split: if_splits) metis+
  have f1: "frames_of s1 = p" by (simp add: s1_def)
  have "\<forall>q \<in> dir_pages s1 pd. \<not> frame_free p q"
    using ok fr(2) tabs[of 0] by (auto simp: dir_ok_def dir_pages_def)
  moreover have "frame_of (dentry s1 pd i) \<noteq> frame_of (dentry s1 pd j)"
    if "i < 1024" "j < 1024" "i \<noteq> j" "present (dentry s1 pd i)" "present (dentry s1 pd j)" for i j
  proof -
    have np: "frame_of (dentry s pd k) \<noteq> pt" if "k < 1024" "present (dentry s pd k)" for k
      using fresh that by (auto simp: dir_pages_def dir_tables_def)
    consider "i = di" | "j = di" | "i \<noteq> di" "j \<noteq> di" by blast
    then show ?thesis
      using that e[OF that(1)] e[OF that(2)] ok eb(1) np[OF that(1)] np[OF that(2)] by cases (auto simp: dir_ok_def)
  qed
  moreover have "user_accessible (dentry s1 pd i) \<longleftrightarrow> 2 \<le> i" if "i < 1024" "present (dentry s1 pd i)" for i
    using that e[OF that(1)] ok eb(3) di(1) by (auto simp: dir_ok_def)
  ultimately show "dir_ok s1 pd"
    unfolding dir_ok_def f1 using fr(1) pd ne ok tabs[of 0] by (auto simp: dir_ok_def)
qed

text \<open>Writing one entry of a table.\<close>

lemma set_pte:
  fixes e :: u32
  assumes ok: "dir_ok s pd" and di: "di < 1024" "present (dentry s pd di)" and ti: "ti < 1024"
  defines "s2 \<equiv> s\<lparr>ram := write32 (ram s) (slot (frame_of (dentry s pd di)) ti) e\<rparr>"
  shows "i < 1024 \<Longrightarrow> dentry s2 pd i = dentry s pd i"
    "page_aligned q \<Longrightarrow> j < 1024 \<Longrightarrow> read32 (ram s2) (slot q j) =
       (if q = frame_of (dentry s pd di) \<and> j = ti then e else read32 (ram s) (slot q j))"
    "dir_ok s2 pd" "dir_tables s2 pd lo = dir_tables s pd lo"
proof -
  have pd: "page_aligned pd" and ne: "frame_of (dentry s pd di) \<noteq> pd"
    using ok di by (auto simp: dir_ok_def dir_tables_def)
  show r: "read32 (ram s2) (slot q j) = (if q = frame_of (dentry s pd di) \<and> j = ti then e else read32 (ram s) (slot q j))"
    if "page_aligned q" "j < 1024" for q j
    using read_slot_write[OF table_aligned that(1) ti that(2)] by (auto simp: s2_def)
  show d: "dentry s2 pd i = dentry s pd i" if "i < 1024" for i using r[OF pd that] ne by auto
  have t: "dir_tables s2 pd lo = dir_tables s pd lo" for lo using d by (auto simp: dir_tables_def) metis+
  then show "dir_tables s2 pd lo = dir_tables s pd lo" .
  have "frames_of s2 = frames_of s" by (simp add: s2_def)
  then show "dir_ok s2 pd" using ok d t[of 0] by (auto simp: dir_ok_def dir_pages_def)
qed

lemma set_pte_phys:
  fixes e :: u32
  assumes ok: "dir_ok s pd" and present: "present (dentry s pd (pd_index v))"
  defines "s2 \<equiv> s\<lparr>ram := write32 (ram s) (slot (frame_of (dentry s pd (pd_index v))) (pt_index v)) e\<rparr>"
  shows "vmm_get_user_phys_from_dir pd w s2 =
     (if page_of w = page_of v then
        if \<not> user_accessible (dentry s pd (pd_index v)) \<or> \<not> present e \<or> \<not> user_accessible e then 0 else frame_of e OR (w AND 0xFFF)
      else vmm_get_user_phys_from_dir pd w s)"
proof -
  note sp = set_pte[OF ok pd_index_less present pt_index_less[of v], where e = e, folded s2_def]
  have d: "dentry s2 pd (pd_index w) = dentry s pd (pd_index w)" by (rule sp(1)[OF pd_index_less])
  have inj: "frame_of (dentry s pd (pd_index w)) = frame_of (dentry s pd (pd_index v)) \<longleftrightarrow> pd_index w = pd_index v"
    if "present (dentry s pd (pd_index w))"
    using ok present that pd_index_less[of v] pd_index_less[of w] unfolding dir_ok_def by metis
  show ?thesis
  proof (cases "page_of w = page_of v")
    case True
    then have "pd_index w = pd_index v" "pt_index w = pt_index v" using indices_page by blast+
    then show ?thesis using True d sp(2)[OF table_aligned pt_index_less] present
      by (simp add: vmm_get_user_phys_from_dir_def Let_def)
  next
    case False
    then have ne: "\<not> (pd_index w = pd_index v \<and> pt_index w = pt_index v)" using indices_page by blast
    then show ?thesis using False d sp(2)[OF table_aligned pt_index_less] inj
      by (auto simp: vmm_get_user_phys_from_dir_def Let_def)
  qed
qed

lemma fresh_table_phys:
  assumes ok: "dir_ok s pd" and di: "2 \<le> di" "di < 1024" "\<not> present (dentry s pd di)"
    and al: "pmm_alloc_page (frames_of s) = (pt, p)" "pt \<noteq> 0"
  defines "s1 \<equiv> s\<lparr>frames_of := p, ram := write32 (zero_4kb pt (ram s)) (slot pd di) (pt OR (VMM_PRESENT OR VMM_WRITABLE OR VMM_USER))\<rparr>"
  shows "vmm_get_user_phys_from_dir pd w s1 = vmm_get_user_phys_from_dir pd w s"
proof -
  note ft = fresh_table[OF assms(1-6), folded s1_def]
  show ?thesis
  proof (cases "pd_index w = di")
    case True
    have "pt \<noteq> pd" using ft(1) by (simp add: dir_pages_def)
    then have "read32 (ram s1) (slot pt (pt_index w)) = 0" using ft(4)[OF ft(2) _ pt_index_less] by simp
    then show ?thesis using True di(3) ft(3)[OF di(2)] entry_bits[OF ft(2)]
      by (simp add: vmm_get_user_phys_from_dir_def Let_def present_bit)
  next
    case False
    have "read32 (ram s1) (slot (frame_of (dentry s pd (pd_index w))) (pt_index w)) = read32 (ram s) (slot (frame_of (dentry s pd (pd_index w))) (pt_index w))"
      if "present (dentry s pd (pd_index w))"
    proof -
      have "frame_of (dentry s pd (pd_index w)) \<in> dir_tables s pd 0" using that pd_index_less by (auto simp: dir_tables_def)
      then have "frame_of (dentry s pd (pd_index w)) \<noteq> pd" "frame_of (dentry s pd (pd_index w)) \<noteq> pt"
        using ok ft(1) by (auto simp: dir_ok_def dir_pages_def)
      then show ?thesis using ft(4)[OF table_aligned _ pt_index_less] by simp
    qed
    then show ?thesis using False ft(3)[OF pd_index_less] by (simp add: vmm_get_user_phys_from_dir_def Let_def)
  qed
qed

text \<open>The three outcomes of \<open>vmm_map_user_page\<close>.\<close>

abbreviation user_entry :: "u32 \<Rightarrow> u32" where
  "user_entry p \<equiv> p OR (VMM_PRESENT OR VMM_WRITABLE OR VMM_USER)"

lemma map_user_page_cases:
  assumes ok: "dir_ok s pd" and run: "vmm_map_user_page pd virt phys s = (r, s')"
  obtains (range) "virt < 0x800000" "r = VMM_ERR_RANGE" "s' = s"
  | (nomem) "\<not> virt < 0x800000" "r = VMM_ERR_NOMEM" "s' = s" "\<forall>b. \<not> frame_free (frames_of s) b"
  | (mapped) s1 where "\<not> virt < 0x800000" "r = 0" "dir_ok s1 pd" "present (dentry s1 pd (pd_index virt))"
      "s' = s1\<lparr>ram := write32 (ram s1) (slot (frame_of (dentry s1 pd (pd_index virt))) (pt_index virt)) (user_entry (phys AND 0xFFFFF000))\<rparr>"
      "\<And>w. vmm_get_user_phys_from_dir pd w s1 = vmm_get_user_phys_from_dir pd w s"
      "\<And>q j. page_aligned q \<Longrightarrow> j < 1024 \<Longrightarrow> q \<noteq> pd \<Longrightarrow> \<not> frame_free (frames_of s) q \<Longrightarrow> read32 (ram s1) (slot q j) = read32 (ram s) (slot q j)"
      "\<And>a. page_of a \<noteq> pd \<Longrightarrow> \<not> frame_free (frames_of s) (page_of a) \<Longrightarrow> ram s1 a = ram s a"
      "\<And>q lo. q \<in> dir_tables s1 pd lo \<Longrightarrow> frame_free (frames_of s) q \<or> q \<in> dir_tables s pd lo"
      "\<And>b. frame_free (frames_of s1) b \<Longrightarrow> frame_free (frames_of s) b"
proof -
  have pok: "pmm_ok (frames_of s)" and pd: "page_aligned pd" using ok by (simp_all add: dir_ok_def)
  let ?di = "pd_index virt"
  have mask: "(phys AND 0xFFFFF000) OR VMM_PRESENT OR VMM_WRITABLE OR VMM_USER = user_entry (phys AND 0xFFFFF000)" by (simp add: or.assoc)
  consider "virt < 0x800000" | "\<not> virt < 0x800000" "present (dentry s pd ?di)" | "\<not> virt < 0x800000" "\<not> present (dentry s pd ?di)" by blast
  then show thesis
  proof cases
    case 1
    then show ?thesis using run range by (simp add: vmm_map_user_page_def)
  next
    case 2
    show ?thesis by (rule mapped[of s]) (use 2 run ok in \<open>auto simp: vmm_map_user_page_def\<close>)
  next
    case 3
    obtain pt p where al: "pmm_alloc_page (frames_of s) = (pt, p)" by fastforce
    have di: "2 \<le> ?di" using 3(1) kernel_indices[of virt] by simp
    show ?thesis
    proof (cases "pt = 0")
      case True
      then have "p = frames_of s" "\<forall>b. \<not> frame_free (frames_of s) b" using frames.alloc_none[OF pok] al by auto
      then show ?thesis using nomem 3 run al True by (simp add: vmm_map_user_page_def)
    next
      case False
      let ?s1 = "s\<lparr>frames_of := p, ram := write32 (zero_4kb pt (ram s)) (slot pd ?di) (user_entry pt)\<rparr>"
      note ft = fresh_table[OF ok di pd_index_less 3(2) al False]
      note av = frames.alloc_avail[OF pok al False] frames.alloc_range[OF pok al False] frames.alloc_effect[OF pok al False]
      have "vmm_map_user_page pd virt phys s = (0, ?s1\<lparr>ram := write32 (ram ?s1) (slot (frame_of (dentry ?s1 pd ?di)) (pt_index virt)) (user_entry (phys AND 0xFFFFF000))\<rparr>)"
        using 3 al False av(2) by (simp add: vmm_map_user_page_def Let_def not_le[symmetric])
      then have r: "r = 0" "s' = ?s1\<lparr>ram := write32 (ram ?s1) (slot (frame_of (dentry ?s1 pd ?di)) (pt_index virt)) (user_entry (phys AND 0xFFFFF000))\<rparr>"
        using run by simp_all
      show ?thesis
      proof (rule mapped[of ?s1, OF 3(1) r(1) ft(5) _ r(2)])
        show "present (dentry ?s1 pd ?di)" using ft(3)[OF pd_index_less] entry_bits(2)[OF ft(2)] by simp
        show "vmm_get_user_phys_from_dir pd w ?s1 = vmm_get_user_phys_from_dir pd w s" for w
          by (rule fresh_table_phys[OF ok di pd_index_less 3(2) al False])
        show "read32 (ram ?s1) (slot q j) = read32 (ram s) (slot q j)"
          if "page_aligned q" "j < 1024" "q \<noteq> pd" "\<not> frame_free (frames_of s) q" for q j
          using ft(4)[OF that(1,3,2)] that(4) av(1) by auto
        show "ram ?s1 a = ram s a" if "page_of a \<noteq> pd" "\<not> frame_free (frames_of s) (page_of a)" for a
          using write_slot_byte[OF pd pd_index_less that(1)] zero_4kb_byte[OF ft(2), of a] that(2) av(1) by auto
        show "frame_free (frames_of s) q \<or> q \<in> dir_tables s pd lo" if "q \<in> dir_tables ?s1 pd lo" for q lo
          using that ft(6)[of lo] av(1) by (auto split: if_splits)
        show "frame_free (frames_of s) b" if "frame_free (frames_of ?s1) b" for b
          using that av(3)[of b] by simp
      qed
    qed
  qed
qed

section \<open>Properties\<close>

text \<open>The kernel's 8 MB never resolve for the user.\<close>

lemma user_low: "dir_ok s pd \<Longrightarrow> w < 0x800000 \<Longrightarrow> vmm_get_user_phys_from_dir pd w s = 0"
  using kernel_indices[of w] pd_index_less[of w] by (auto simp: dir_ok_def vmm_get_user_phys_from_dir_def Let_def)

text \<open>A directory that shares no page with another one: only the kernel tables may be common.\<close>

definition unrelated_dir :: "vmm \<Rightarrow> u32 \<Rightarrow> u32 \<Rightarrow> bool" where
  "unrelated_dir s pd pd' \<longleftrightarrow> page_aligned pd' \<and> dir_pages s pd' \<inter> insert pd (dir_tables s pd 2) = {}
     \<and> (\<forall>p \<in> dir_pages s pd'. \<not> frame_free (frames_of s) p)"

lemma map_user_page_spec:
  assumes "dir_ok s pd" "vmm_map_user_page pd virt phys s = (r, s')"
  shows "dir_ok s' pd \<and> (r \<noteq> 0 \<longrightarrow> s' = s) \<and> (r = 0 \<longrightarrow> 0x800000 \<le> virt)
     \<and> (\<forall>w. vmm_get_user_phys_from_dir pd w s' =
          (if r = 0 \<and> page_of w = page_of virt then frame_of phys OR (w AND 0xFFF) else vmm_get_user_phys_from_dir pd w s))
     \<and> (\<forall>w. w < 0x800000 \<longrightarrow> vmm_get_user_phys_from_dir pd w s' = 0)
     \<and> (\<forall>a. page_of a \<notin> insert pd (dir_tables s' pd 2) \<and> \<not> frame_free (frames_of s) (page_of a) \<longrightarrow> ram s' a = ram s a)
     \<and> (\<forall>q lo. q \<in> dir_tables s' pd lo \<longrightarrow> frame_free (frames_of s) q \<or> q \<in> dir_tables s pd lo)
     \<and> (\<forall>b. frame_free (frames_of s') b \<longrightarrow> frame_free (frames_of s) b)
     \<and> (\<forall>pd' w. unrelated_dir s pd pd' \<longrightarrow> vmm_get_user_phys_from_dir pd' w s' = vmm_get_user_phys_from_dir pd' w s)"
proof -
  note low = user_low[of _ pd]
  show ?thesis
    using assms
  proof (cases rule: map_user_page_cases)
    case (mapped s1)
    let ?t = "frame_of (dentry s1 pd (pd_index virt))"
    note sp = set_pte[OF mapped(3) pd_index_less mapped(4) pt_index_less[of virt], where e = "user_entry (phys AND 0xFFFFF000)", folded mapped(5)]
    have al: "page_aligned (phys AND 0xFFFFF000)" using table_aligned[of phys] by (simp add: frame_of_def)
    have acc: "user_accessible (dentry s1 pd (pd_index virt))"
      using mapped(1,3,4) pd_index_less[of virt] kernel_indices[of virt] by (auto simp: dir_ok_def)
    have look: "vmm_get_user_phys_from_dir pd w s' =
        (if page_of w = page_of virt then frame_of phys OR (w AND 0xFFF) else vmm_get_user_phys_from_dir pd w s)" for w
      using set_pte_phys[OF mapped(3,4), of w "user_entry (phys AND 0xFFFFF000)", folded mapped(5)] acc entry_bits[OF al] mapped(6)
      by (simp add: frame_of_def)
    have t2: "?t \<in> dir_tables s1 pd 2"
      using mapped(1,4) pd_index_less[of virt] kernel_indices[of virt] by (auto simp: dir_tables_def not_less)
    have bytes: "ram s' a = ram s a"
      if "page_of a \<notin> insert pd (dir_tables s' pd 2)" "\<not> frame_free (frames_of s) (page_of a)" for a
    proof -
      have "page_of a \<noteq> ?t" using that(1) t2 sp(4)[of 2] by auto
      then show ?thesis using mapped(5,8) that write_slot_byte[OF table_aligned pt_index_less, of a "dentry s1 pd (pd_index virt)" "ram s1"]
        by simp
    qed
    have other: "vmm_get_user_phys_from_dir pd' w s' = vmm_get_user_phys_from_dir pd' w s" if u: "unrelated_dir s pd pd'" for pd' w
    proof (rule user_phys_cong(1))
      show "page_aligned pd'" using u by (simp add: unrelated_dir_def)
      fix p i :: u32 assume p: "p \<in> dir_pages s pd'" "page_aligned p" "i < 1024"
      then have "p \<noteq> pd" "\<not> frame_free (frames_of s) p" "p \<notin> dir_tables s pd 2" using u by (auto simp: unrelated_dir_def)
      moreover from this have "p \<noteq> ?t" using t2 mapped(9) by blast
      ultimately show "read32 (ram s') (slot p i) = read32 (ram s) (slot p i)"
        using sp(2)[OF p(2,3)] mapped(7)[OF p(2,3)] by simp
    qed
    have tabs: "frame_free (frames_of s) q \<or> q \<in> dir_tables s pd lo" if "q \<in> dir_tables s' pd lo" for q lo
      using that mapped(9) sp(4)[of lo] by blast
    have free: "frame_free (frames_of s) b" if "frame_free (frames_of s') b" for b
      using that mapped(5,10) by simp
    show ?thesis using sp(3) low[OF sp(3)] mapped(1,2) look bytes tabs free other by (auto simp: not_less)
  qed (use assms(1) low in \<open>auto simp: VMM_ERR_RANGE_def VMM_ERR_NOMEM_def\<close>)
qed

text \<open>
  C27. Mapping a user page refines the update of a map from virtual pages to frames. In a
  well-formed directory \<open>vmm_map_user_page\<close> either fails and changes nothing (below 8 MB, or when a
  table is needed and no frame is left), or makes exactly the page of \<open>virt\<close> resolve to the frame of
  \<open>phys\<close>, keeping every other translation. It keeps the directory well formed, never makes an address
  below 8 MB accessible, changes no memory outside the directory and its tables, and leaves the
  translations of every other process alone.
\<close>

theorem vmm_map_user_page_correct:
  assumes "dir_ok s pd" "vmm_map_user_page pd virt phys s = (r, s')"
  shows "dir_ok s' pd \<and> (r \<noteq> 0 \<longrightarrow> s' = s) \<and> (r = 0 \<longrightarrow> 0x800000 \<le> virt)
     \<and> (\<forall>w. vmm_get_user_phys_from_dir pd w s' =
          (if r = 0 \<and> page_of w = page_of virt then frame_of phys OR (w AND 0xFFF) else vmm_get_user_phys_from_dir pd w s))
     \<and> (\<forall>w. w < 0x800000 \<longrightarrow> vmm_get_user_phys_from_dir pd w s' = 0)
     \<and> (\<forall>a. page_of a \<notin> insert pd (dir_tables s' pd 2) \<and> \<not> frame_free (frames_of s) (page_of a) \<longrightarrow> ram s' a = ram s a)
     \<and> (\<forall>pd' w. unrelated_dir s pd pd' \<longrightarrow> vmm_get_user_phys_from_dir pd' w s' = vmm_get_user_phys_from_dir pd' w s)"
  using map_user_page_spec[OF assms] by blast

text \<open>An empty directory at 3 MB while all frames from 4 MB on are free.\<close>

definition empty_vmm :: vmm where
  "empty_vmm = \<lparr>ram = (\<lambda>_. 0), frames_of = pmm_init [], pt_next = PAGE_TABLE_START, paging_active = True, cr0 = 0, cr3 = 0\<rparr>"

lemma empty_vmm_ok: "dir_ok empty_vmm 0x300000"
proof -
  have z: "read32 (\<lambda>_. 0) a = 0" for a by (simp add: read32_def)
  have "\<not> frame_free (pmm_init []) 0x300000" using frame_free_range(1)[of "pmm_init []" "0x300000"] pmm_init_fallback(1) by auto
  then show ?thesis
    by (simp add: dir_ok_def empty_vmm_def z present_bit dir_tables_def dir_pages_def pmm_init_fallback(1))
qed

lemma empty_vmm_free: "frame_free (frames_of empty_vmm) 0x500000"
  using pmm_init_fallback(2) pmm_init_fallback(3)[of 1280]
  by (simp add: frame_free_def empty_vmm_def PAGE_SIZE_def PMM_MAX_PAGES_def unat_of_nat)

theorem vmm_map_user_page_correct_witness:
  "\<exists>s'. vmm_map_user_page 0x300000 0x800000 0x500000 empty_vmm = (0, s') \<and> dir_ok s' 0x300000
     \<and> vmm_get_user_phys_from_dir 0x300000 0x800123 s' = 0x500123 \<and> vmm_get_user_phys_from_dir 0x300000 0x400000 s' = 0"
proof -
  obtain r s' where run: "vmm_map_user_page 0x300000 0x800000 0x500000 empty_vmm = (r, s')" by fastforce
  have "r = 0" by (cases rule: map_user_page_cases[OF empty_vmm_ok run]) (use empty_vmm_free in auto)
  moreover have "page_of 0x800123 = page_of 0x800000" "frame_of 0x500000 OR (0x800123 AND 0xFFF) = 0x500123"
    by (simp_all add: page_of_def frame_of_def)
  moreover note c = vmm_map_user_page_correct[OF empty_vmm_ok run]
  have "\<forall>w < 0x800000. vmm_get_user_phys_from_dir 0x300000 w s' = 0" using c by blast
  from this[rule_format, of "0x400000"] have "vmm_get_user_phys_from_dir 0x300000 0x400000 s' = 0" by simp
  moreover have "vmm_get_user_phys_from_dir 0x300000 0x800123 s' = 0x500123" using c calculation by auto
  ultimately show ?thesis using c run by blast
qed

section \<open>The kernel's own mapping\<close>

lemma read_zero3:
  assumes "page_aligned a" "page_aligned b" "page_aligned c" "page_aligned q" "j < 1024" "n \<le> 1024"
  shows "read32 (fold (\<lambda>i m. write32 (write32 (write32 m (slot a (of_nat i)) 0) (slot b (of_nat i)) 0) (slot c (of_nat i)) 0) [0 ..< n] m) (slot q j)
     = (if q \<in> {a, b, c} \<and> unat j < n then 0 else read32 m (slot q j))"
  using assms(6)
proof (induction n)
  case (Suc n)
  have n: "(of_nat n :: u32) < 1024" "unat (of_nat n :: u32) = n" using Suc.prems by (simp_all add: word_less_nat_alt unat_of_nat)
  have "(of_nat n :: u32) = j \<longleftrightarrow> n = unat j" using n(2) by auto
  then show ?case
    using Suc read_slot_write[OF assms(1,4) n(1) assms(5)] read_slot_write[OF assms(2,4) n(1) assms(5)] read_slot_write[OF assms(3,4) n(1) assms(5)]
    by (auto simp: less_Suc_eq)
qed simp

lemma vmm_init_words:
  assumes "i < 1024"
  shows "read32 (ram (vmm_init s)) (slot PAGE_DIR_ADDR i) =
      (if i = 0 then PAGE_TABLE_START OR VMM_KERNEL else if i = 1 then (PAGE_TABLE_START + 4096) OR VMM_KERNEL else 0)"
    "read32 (ram (vmm_init s)) (slot PAGE_TABLE_START i) = i * 4096 OR VMM_KERNEL"
    "read32 (ram (vmm_init s)) (slot (PAGE_TABLE_START + 4096) i) = (0x400000 + i * 4096) OR VMM_KERNEL"
proof -
  have al: "page_aligned PAGE_DIR_ADDR" "page_aligned PAGE_TABLE_START" "page_aligned (PAGE_TABLE_START + 4096)"
    by (simp_all add: PAGE_DIR_ADDR_def PAGE_TABLE_START_def)
  have ne: "PAGE_DIR_ADDR \<noteq> PAGE_TABLE_START" "PAGE_DIR_ADDR \<noteq> PAGE_TABLE_START + 4096" "PAGE_TABLE_START \<noteq> PAGE_TABLE_START + 4096"
    by (simp_all add: PAGE_DIR_ADDR_def PAGE_TABLE_START_def)
  have k: "x OR VMM_KERNEL OR VMM_PRESENT = x OR VMM_KERNEL" for x
    unfolding VMM_KERNEL_def VMM_PRESENT_def VMM_WRITABLE_def by (simp add: or.assoc)
  have j: "unat i < 1024" using assms by (simp add: word_less_nat_alt)
  have lt: "(0 :: u32) < 1024" "(1 :: u32) < 1024" by simp_all
  note w = read_slot_write[OF al(1) _ lt(1) assms] read_slot_write[OF al(1) _ lt(2) assms]
    read_fill_words[OF al(2) _ assms] read_fill_words[OF al(3) _ assms] read_zero3[OF al(1-3) _ assms]
  show "read32 (ram (vmm_init s)) (slot PAGE_DIR_ADDR i) =
      (if i = 0 then PAGE_TABLE_START OR VMM_KERNEL else if i = 1 then (PAGE_TABLE_START + 4096) OR VMM_KERNEL else 0)"
    using ne j w[OF al(1)] by (auto simp: vmm_init_def Let_def k)
  show "read32 (ram (vmm_init s)) (slot PAGE_TABLE_START i) = i * 4096 OR VMM_KERNEL"
    using ne j w[OF al(2)] by (auto simp: vmm_init_def Let_def k)
  show "read32 (ram (vmm_init s)) (slot (PAGE_TABLE_START + 4096) i) = (0x400000 + i * 4096) OR VMM_KERNEL"
    using ne j w[OF al(3)] by (auto simp: vmm_init_def Let_def k)
qed

lemma kernel_entry_bits:
  assumes "page_aligned p"
  shows "frame_of (p OR VMM_KERNEL) = p" "present (p OR VMM_KERNEL)" "\<not> user_accessible (p OR VMM_KERNEL)"
proof -
  have k: "VMM_KERNEL = 3" by (simp add: VMM_KERNEL_def VMM_PRESENT_def VMM_WRITABLE_def)
  have p: "p AND NOT 0xFFF = p" using page_of_aligned[OF assms] by (simp add: page_of_def)
  then show "frame_of (p OR VMM_KERNEL) = p" unfolding frame_of_page page_of_def k by (simp add: bit.conj_disj_distrib2)
  have "bit (3 :: u32) 0" by simp
  then show "present (p OR VMM_KERNEL)" unfolding k by (simp only: present_bit bit_or_iff simp_thms)
  have "bit (0xFFF :: u32) 2" by simp
  then have "bit p 2 \<Longrightarrow> bit (p AND 0xFFF) 2" by (simp only: bit_and_iff simp_thms)
  then have "\<not> bit p 2" using assms by (metis bit_0_eq bot_apply bot_bool_def)
  moreover have "\<not> bit (3 :: u32) 2" by simp
  ultimately show "\<not> user_accessible (p OR VMM_KERNEL)" unfolding k by (simp only: user_bit bit_or_iff simp_thms)
qed

lemma page_times: "i < 1024 \<Longrightarrow> unat (i * 4096 :: u32) = unat i * 4096" "i < 1024 \<Longrightarrow> page_aligned (i * 4096)"
  "i < 1024 \<Longrightarrow> unat (0x400000 + i * 4096 :: u32) = 0x400000 + unat i * 4096" "i < 1024 \<Longrightarrow> page_aligned (0x400000 + i * 4096)"
proof -
  assume i: "i < 1024"
  show a: "unat (i * 4096) = unat i * 4096" using i by (simp add: unat_word_ariths word_less_nat_alt)
  show b: "unat (0x400000 + i * 4096) = 0x400000 + unat i * 4096" using i a by (simp add: unat_word_ariths word_less_nat_alt)
  show "page_aligned (i * 4096)" by (simp only: page_aligned_unat a) simp
  show "page_aligned (0x400000 + i * 4096)" by (simp only: page_aligned_unat b) simp
qed

lemma page_of_low:
  "pd_index v = 0 \<Longrightarrow> pt_index v * 4096 = page_of v" "pd_index v = 1 \<Longrightarrow> 0x400000 + pt_index v * 4096 = page_of v"
proof -
  have split: "unat v div 4096 = unat v div 4194304 * 1024 + unat v div 4096 mod 1024"
    using div_mult_mod_eq[of "unat v div 4096" 1024] by (simp add: div_mult2_eq[symmetric])
  note p = page_times[OF pt_index_less, of v]
  { assume "pd_index v = 0"
    then have "unat v div 4194304 = 0" using unat_indices(1)[of v] by simp
    then show "pt_index v * 4096 = page_of v" using split p(1) by (simp add: word_unat_eq_iff unat_page_of unat_indices) }
  { assume "pd_index v = 1"
    then have "unat v div 4194304 = 1" using unat_indices(1)[of v] by simp
    then show "0x400000 + pt_index v * 4096 = page_of v" using split p(3) by (simp add: word_unat_eq_iff unat_page_of unat_indices algebra_simps) }
qed

lemma page_split: "page_of a OR (a AND 0xFFF) = a"
  unfolding page_of_def by (rule bit_word_eqI) (auto simp: bit_simps)

text \<open>A directory whose first two entries are the kernel's, over the kernel's tables.\<close>

definition kernel_mapped :: "vmm \<Rightarrow> u32 \<Rightarrow> bool" where
  "kernel_mapped s pd \<longleftrightarrow> dentry s pd 0 = PAGE_TABLE_START OR VMM_KERNEL \<and> dentry s pd 1 = (PAGE_TABLE_START + 4096) OR VMM_KERNEL
     \<and> (\<forall>i < 1024. read32 (ram s) (slot PAGE_TABLE_START i) = i * 4096 OR VMM_KERNEL
          \<and> read32 (ram s) (slot (PAGE_TABLE_START + 4096) i) = (0x400000 + i * 4096) OR VMM_KERNEL)"

lemma kernel_mapped_identity:
  assumes "kernel_mapped s pd" "v < 0x800000"
  shows "vmm_get_phys_from_dir pd v s = v"
proof -
  have al: "page_aligned PAGE_TABLE_START" "page_aligned (PAGE_TABLE_START + 4096)" by (simp_all add: PAGE_TABLE_START_def)
  note e = kernel_entry_bits[OF al(1)] kernel_entry_bits[OF al(2)] kernel_entry_bits[OF page_aligned_page_of[of v]]
  have "unat (pd_index v) < 2" using assms(2) kernel_indices[of v] by (simp add: word_less_nat_alt)
  then have "unat (pd_index v) = 0 \<or> unat (pd_index v) = 1" by linarith
  then have "pd_index v = 0 \<or> pd_index v = 1" by (simp add: word_unat_eq_iff)
  then show ?thesis
    using assms(1) pt_index_less[of v] e page_of_low[of v] page_split[of v]
    by (auto simp: kernel_mapped_def vmm_get_phys_from_dir_def Let_def)
qed

lemma vmm_init_mapped: "kernel_mapped (vmm_init s) PAGE_DIR_ADDR"
  using vmm_init_words(1)[of 0 s] vmm_init_words(1)[of 1 s] vmm_init_words(2,3) by (simp add: kernel_mapped_def)

lemma create_directory_words:
  assumes al: "pmm_alloc_page (frames_of s) = (pd, p)" "pd \<noteq> 0" "pmm_ok (frames_of s)"
    and run: "vmm_create_directory s = (pd', s')"
  shows "pd' = pd" "frames_of s' = p"
    "i < 1024 \<Longrightarrow> dentry s' pd i = (if i < 2 then dentry s PAGE_DIR_ADDR i else 0)"
    "page_aligned q \<Longrightarrow> q \<noteq> pd \<Longrightarrow> j < 1024 \<Longrightarrow> read32 (ram s') (slot q j) = read32 (ram s) (slot q j)"
proof -
  note rg = frames.alloc_range[OF al(3,1,2)]
  let ?m0 = "fill_words pd (\<lambda>_. 0) [0 ..< 1024] (ram s)"
  let ?m1 = "write32 ?m0 (slot pd 0) (read32 ?m0 (slot PAGE_DIR_ADDR 0))"
  let ?m2 = "write32 ?m1 (slot pd 1) (read32 ?m1 (slot PAGE_DIR_ADDR 1))"
  have "vmm_create_directory s = (pd, s\<lparr>frames_of := p, ram := ?m2\<rparr>)"
    using al(1,2) rg by (simp add: vmm_create_directory_def Let_def not_le[symmetric])
  then have r: "pd' = pd" "s' = s\<lparr>frames_of := p, ram := ?m2\<rparr>" using run by simp_all
  then show "pd' = pd" "frames_of s' = p" by simp_all
  have pd: "page_aligned pd" "page_aligned PAGE_DIR_ADDR" using rg by (simp_all add: PAGE_DIR_ADDR_def)
  have lt: "(0 :: u32) < 1024" "(1 :: u32) < 1024" by simp_all
  have ne: "PAGE_DIR_ADDR \<noteq> pd" using rg by (auto simp: PAGE_DIR_ADDR_def word_le_nat_alt)
  have src: "read32 ?m0 (slot PAGE_DIR_ADDR j) = dentry s PAGE_DIR_ADDR j" "read32 ?m1 (slot PAGE_DIR_ADDR j) = dentry s PAGE_DIR_ADDR j"
    if "j < 1024" for j
    using read_fill_words[OF pd(1,2) that, of 1024] read_slot_write[OF pd(1,2) lt(1) that] ne by auto
  have i2: "i < 2 \<longleftrightarrow> i = 0 \<or> i = 1" for i :: u32
  proof -
    have "unat i < 2 \<longleftrightarrow> unat i = 0 \<or> unat i = 1" by linarith
    then show ?thesis by (simp add: word_less_nat_alt word_unat_eq_iff)
  qed
  show "dentry s' pd i = (if i < 2 then dentry s PAGE_DIR_ADDR i else 0)" if "i < 1024"
  proof -
    have "unat i < 1024" using that by (simp add: word_less_nat_alt)
    then have "read32 ?m0 (slot pd i) = 0" using read_fill_words[OF pd(1,1) that, of 1024] by simp
    then show ?thesis unfolding r(2) i2
      using src(1)[OF lt(1)] src(2)[OF lt(2)] read_slot_write[OF pd(1,1) lt(1) that] read_slot_write[OF pd(1,1) lt(2) that] by simp
  qed
  show "read32 (ram s') (slot q j) = read32 (ram s) (slot q j)" if "page_aligned q" "q \<noteq> pd" "j < 1024" for q j
    unfolding r(2) using read_fill_words[OF pd(1) that(1,3), of 1024] read_slot_write[OF pd(1) that(1) lt(1) that(3)]
      read_slot_write[OF pd(1) that(1) lt(2) that(3)] that(2) by simp
qed

lemma low_not_free: "pmm_ok p \<Longrightarrow> a < 0x400000 \<Longrightarrow> \<not> frame_free p a"
  using frame_free_range(1)[of p a] by (auto simp: not_le[symmetric])

lemma create_directory_ok:
  assumes km: "kernel_mapped s PAGE_DIR_ADDR" and pok: "pmm_ok (frames_of s)"
    and run: "vmm_create_directory s = (pd, s')" "pd \<noteq> 0"
  shows "dir_ok s' pd" "kernel_mapped s' pd" "kernel_mapped s' PAGE_DIR_ADDR" "dir_tables s' pd 2 = {}"
    "frame_free (frames_of s) pd" "\<And>b. frame_free (frames_of s') b \<longleftrightarrow> b \<noteq> pd \<and> frame_free (frames_of s) b"
    "\<And>v. 0x800000 \<le> v \<Longrightarrow> vmm_get_phys_from_dir pd v s' = 0"
proof -
  obtain pd0 p where al: "pmm_alloc_page (frames_of s) = (pd0, p)" by fastforce
  have ne0: "pd0 \<noteq> 0" using run al by (auto simp: vmm_create_directory_def)
  note w = create_directory_words[OF al ne0 pok run(1)]
  have al: "pmm_alloc_page (frames_of s) = (pd, p)" using al w(1) by simp
  have pd0: "pd0 = pd" using w(1) by simp
  note w = w[unfolded pd0]
  note av = frames.alloc_avail[OF pok al run(2)] frames.alloc_effect[OF pok al run(2)] frames.alloc_range[OF pok al run(2)]
  show "frame_free (frames_of s) pd" using av(1) by blast
  show fr: "frame_free (frames_of s') b \<longleftrightarrow> b \<noteq> pd \<and> frame_free (frames_of s) b" for b using av(2)[of b] w(2) by blast
  have pd: "page_aligned pd" using av(3) by blast
  have low: "PAGE_DIR_ADDR \<noteq> pd" "PAGE_TABLE_START \<noteq> pd" "PAGE_TABLE_START + 4096 \<noteq> pd"
    using av(3) by (auto simp: PAGE_DIR_ADDR_def PAGE_TABLE_START_def word_le_nat_alt)
  have al: "page_aligned PAGE_DIR_ADDR" "page_aligned PAGE_TABLE_START" "page_aligned (PAGE_TABLE_START + 4096)"
    by (simp_all add: PAGE_DIR_ADDR_def PAGE_TABLE_START_def)
  have d: "dentry s' pd i = (if i = 0 then PAGE_TABLE_START OR VMM_KERNEL else if i = 1 then (PAGE_TABLE_START + 4096) OR VMM_KERNEL else 0)"
    if "i < 1024" for i
  proof -
    have "i < 2 \<longleftrightarrow> i = 0 \<or> i = 1" by (simp add: word_less_nat_alt word_unat_eq_iff) linarith
    then show ?thesis using w(3)[OF that] km by (auto simp: kernel_mapped_def)
  qed
  show "kernel_mapped s' pd" "kernel_mapped s' PAGE_DIR_ADDR"
    using km w(4)[OF al(1) low(1), of 0] w(4)[OF al(1) low(1), of 1] w(4)[OF al(2) low(2)] w(4)[OF al(3) low(3)] d[of 0] d[of 1]
    by (simp_all add: kernel_mapped_def)
  note e = kernel_entry_bits[OF al(2)] kernel_entry_bits[OF al(3)]
  have z: "\<not> present 0" by (simp add: present_bit)
  have one: "\<not> (2 :: u32) \<le> 1" by (simp add: word_le_nat_alt)
  show t2: "dir_tables s' pd 2 = {}" using d z one by (auto simp: dir_tables_def split: if_splits)
  have tabs: "dir_tables s' pd 0 \<subseteq> {PAGE_TABLE_START, PAGE_TABLE_START + 4096}"
    using d e z by (auto simp: dir_tables_def split: if_splits)
  have "PAGE_TABLE_START < 0x400000" "PAGE_TABLE_START + 4096 < 0x400000" by (simp_all add: PAGE_TABLE_START_def)
  then have nf: "\<not> frame_free (frames_of s') PAGE_TABLE_START" "\<not> frame_free (frames_of s') (PAGE_TABLE_START + 4096)"
    using low_not_free[of "frames_of s'"] av(1) w(2) by simp_all
  have pages: "\<forall>q \<in> dir_pages s' pd. \<not> frame_free (frames_of s') q" using tabs nf fr by (auto simp: dir_pages_def)
  have inj: "frame_of (dentry s' pd i) \<noteq> frame_of (dentry s' pd j)"
    if "i < 1024" "j < 1024" "i \<noteq> j" "present (dentry s' pd i)" "present (dentry s' pd j)" for i j
    using that d[OF that(1)] d[OF that(2)] e z by (auto simp: PAGE_TABLE_START_def split: if_splits)
  have acc: "user_accessible (dentry s' pd i) \<longleftrightarrow> 2 \<le> i" if "i < 1024" "present (dentry s' pd i)" for i
    using that d[OF that(1)] e z one by (auto split: if_splits)
  show "dir_ok s' pd" unfolding dir_ok_def using av(1) w(2) pd tabs low pages inj acc by auto
  show "vmm_get_phys_from_dir pd v s' = 0" if "0x800000 \<le> v" for v
  proof -
    have "2 \<le> pd_index v" using that kernel_indices[of v] not_less by blast
    then have "pd_index v \<noteq> 0" "pd_index v \<noteq> 1" using one by auto
    then show ?thesis using d[OF pd_index_less[of v]] z by (simp add: vmm_get_phys_from_dir_def Let_def)
  qed
qed

text \<open>
  C29. The kernel's identity map and its clones. After \<open>vmm_init\<close>, a new page directory is
  well formed, owns a frame that was free, maps exactly the first 8 MB, to themselves, and makes
  nothing accessible to user mode; the kernel's own directory still maps the first 8 MB to
  themselves.
\<close>

theorem new_directory_correct:
  assumes "pmm_ok (frames_of s)" "vmm_create_directory (vmm_init s) = (pd, s')" "pd \<noteq> 0"
  shows "dir_ok s' pd \<and> frame_free (frames_of s) pd \<and> \<not> frame_free (frames_of s') pd
     \<and> (\<forall>v. vmm_get_phys_from_dir pd v s' = (if v < 0x800000 then v else 0))
     \<and> (\<forall>v. vmm_get_user_phys_from_dir pd v s' = 0) \<and> (\<forall>v < 0x800000. vmm_get_phys v s' = v)"
proof -
  have "frames_of (vmm_init s) = frames_of s" by (simp add: vmm_init_def Let_def)
  then have pok: "pmm_ok (frames_of (vmm_init s))" and fr: "frames_of (vmm_init s) = frames_of s" using assms(1) by simp_all
  note c = create_directory_ok[OF vmm_init_mapped pok assms(2,3)]
  have phys: "vmm_get_phys_from_dir pd v s' = (if v < 0x800000 then v else 0)" for v
    using kernel_mapped_identity[OF c(2), of v] c(7)[of v] by (simp add: not_less)
  have "vmm_get_user_phys_from_dir pd v s' = 0" for v
  proof (cases "v < 0x800000")
    case True
    then show ?thesis by (rule user_low[OF c(1)])
  next
    case False
    then have 2: "2 \<le> pd_index v" using kernel_indices[of v] by simp
    then have "\<not> present (dentry s' pd (pd_index v))" using c(4) pd_index_less[of v] by (auto simp: dir_tables_def)
    then show ?thesis by (simp add: vmm_get_user_phys_from_dir_def)
  qed
  moreover have "vmm_get_phys v s' = v" if "v < 0x800000" for v
    using kernel_mapped_identity[OF c(3) that] by (simp add: vmm_get_phys_def vmm_get_phys_from_dir_def)
  ultimately show ?thesis using c(1,5,6) phys fr by simp
qed

theorem new_directory_correct_witness:
  "\<exists>pd s'. pd \<noteq> 0 \<and> vmm_create_directory (vmm_init empty_vmm) = (pd, s') \<and> dir_ok s' pd \<and> vmm_get_phys_from_dir pd 0x123456 s' = 0x123456"
proof -
  obtain pd s' where run: "vmm_create_directory (vmm_init empty_vmm) = (pd, s')" by fastforce
  obtain a p where al: "pmm_alloc_page (frames_of empty_vmm) = (a, p)" by fastforce
  have pok: "pmm_ok (frames_of empty_vmm)" using empty_vmm_ok by (simp add: dir_ok_def)
  have fr: "frames_of (vmm_init empty_vmm) = frames_of empty_vmm" by (simp add: vmm_init_def Let_def)
  have "a \<noteq> 0" using frames.alloc_succeeds_iff[OF pok al] empty_vmm_free by blast
  then have "pd \<noteq> 0" using create_directory_words(1)[of "vmm_init empty_vmm" a p pd s'] al pok fr run by simp
  then show ?thesis using new_directory_correct[OF pok run] run by auto
qed


end
