(* ===== verification/Usermem.thy ===== *)
theory Usermem
  imports Vmm
begin

text \<open>
  The checked access to user memory of kernel/syscall.c: pointer validation, the copies in both
  directions, and the string copy. The theorem shows that a system call can be made to touch
  nothing but the frames its own process has mapped.
\<close>

section \<open>Operations\<close>

text \<open>
  \<open>user_kptr\<close> and the copies of kernel/syscall.c; \<open>dir\<close> is the page directory of the calling process.
  The loop of \<open>user_ptr_valid\<close> ends when the page number meets the last one; a call that did not
  return would count as a rejection here, and \<open>page_loop_returns\<close> shows there is none.
\<close>

definition user_kptr :: "u32 \<Rightarrow> u32 \<Rightarrow> vmm \<Rightarrow> u32" where
  "user_kptr dir uaddr s =
     (let phys = vmm_get_user_phys_from_dir dir uaddr s in
      if phys = 0 then 0 else (phys AND NOT 0xFFF) OR (uaddr AND 0xFFF))"

partial_function (option) page_loop :: "u32 \<Rightarrow> u32 \<Rightarrow> u32 \<Rightarrow> vmm \<Rightarrow> bool option" where
  "page_loop dir page last_page s =
     (if vmm_get_user_phys_from_dir dir page s = 0 then Some False
      else if page = last_page then Some True
      else page_loop dir (page + 0x1000) last_page s)"

definition user_ptr_valid :: "u32 \<Rightarrow> u32 \<Rightarrow> u32 \<Rightarrow> vmm \<Rightarrow> bool" where
  "user_ptr_valid dir uaddr len s \<longleftrightarrow>
     len \<noteq> 0 \<and> \<not> uaddr + len < uaddr
     \<and> page_loop dir (uaddr AND NOT 0xFFF) ((uaddr + len - 1) AND NOT 0xFFF) s = Some True"

fun read_user :: "u32 \<Rightarrow> u32 \<Rightarrow> nat list \<Rightarrow> vmm \<Rightarrow> u8 list option" where
  "read_user dir usrc [] s = Some []"
| "read_user dir usrc (i # is) s =
     (let kp = user_kptr dir (usrc + of_nat i) s in
      if kp = 0 then None
      else case read_user dir usrc is s of None \<Rightarrow> None | Some bs \<Rightarrow> Some (ram s kp # bs))"

definition copy_from_user :: "u32 \<Rightarrow> u32 \<Rightarrow> u32 \<Rightarrow> vmm \<Rightarrow> u8 list option" where
  "copy_from_user dir usrc len s =
     (if \<not> user_ptr_valid dir usrc len s then None else read_user dir usrc [0 ..< unat len] s)"

fun write_user :: "u32 \<Rightarrow> u32 \<Rightarrow> u8 list \<Rightarrow> vmm \<Rightarrow> int \<times> vmm" where
  "write_user dir udst [] s = (0, s)"
| "write_user dir udst (b # bs) s =
     (let kp = user_kptr dir udst s in
      if kp = 0 then (-1, s) else write_user dir (udst + 1) bs (s\<lparr>ram := (ram s)(kp := b)\<rparr>))"

definition copy_to_user :: "u32 \<Rightarrow> u32 \<Rightarrow> u8 list \<Rightarrow> vmm \<Rightarrow> int \<times> vmm" where
  "copy_to_user dir udst ksrc s =
     (if \<not> user_ptr_valid dir udst (of_nat (length ksrc)) s then (-1, s) else write_user dir udst ksrc s)"

text \<open>\<open>copy_user_str\<close> copies up to \<open>max - 1\<close> bytes; it returns the bytes before the NUL.\<close>

fun read_user_str :: "u32 \<Rightarrow> u32 \<Rightarrow> nat \<Rightarrow> vmm \<Rightarrow> u8 list option" where
  "read_user_str dir usrc 0 s = Some []"
| "read_user_str dir usrc (Suc n) s =
     (let kp = user_kptr dir usrc s in
      if kp = 0 then None
      else if ram s kp = 0 then Some []
      else case read_user_str dir (usrc + 1) n s of None \<Rightarrow> None | Some bs \<Rightarrow> Some (ram s kp # bs))"

definition copy_user_str :: "u32 \<Rightarrow> u32 \<Rightarrow> u32 \<Rightarrow> vmm \<Rightarrow> u8 list option" where
  "copy_user_str dir uaddr maxlen s = read_user_str dir uaddr (unat (maxlen - 1)) s"

section \<open>Validation\<close>

abbreviation user_phys :: "u32 \<Rightarrow> u32 \<Rightarrow> vmm \<Rightarrow> u32" where
  "user_phys \<equiv> vmm_get_user_phys_from_dir"

lemma page_or_offset:
  assumes "page_aligned t"
  shows "page_of (t OR (v AND 0xFFF)) = t" "(t OR (v AND 0xFFF)) AND 0xFFF = v AND 0xFFF"
proof -
  have t: "t AND NOT 0xFFF = t" using page_of_aligned[OF assms] by (simp add: page_of_def)
  have "(v AND 0xFFF) AND NOT 0xFFF = 0" by (simp add: and.assoc)
  then show "page_of (t OR (v AND 0xFFF)) = t" using t by (simp add: page_of_def bit.conj_disj_distrib2)
  show "(t OR (v AND 0xFFF)) AND 0xFFF = v AND 0xFFF" using assms by (simp add: bit.conj_disj_distrib2 and.assoc)
qed

lemma user_phys_offset: "user_phys dir v s \<noteq> 0 \<Longrightarrow> user_phys dir v s AND 0xFFF = v AND 0xFFF"
  by (auto simp: vmm_get_user_phys_from_dir_def Let_def page_or_offset(2) split: if_splits)

lemma user_phys_page:
  assumes "page_of v = page_of w" "page_of (user_phys dir w s) \<noteq> 0" "user_phys dir w s \<noteq> 0"
  shows "user_phys dir v s \<noteq> 0" "page_of (user_phys dir v s) = page_of (user_phys dir w s)"
proof -
  have i: "pd_index v = pd_index w" "pt_index v = pt_index w" using assms(1) indices_page by blast+
  show "page_of (user_phys dir v s) = page_of (user_phys dir w s)"
    using assms(3) i by (auto simp: vmm_get_user_phys_from_dir_def Let_def page_or_offset(1) split: if_splits)
  then show "user_phys dir v s \<noteq> 0" using assms(2) by (auto simp: page_of_def)
qed

lemma user_kptr_phys: "user_kptr dir v s = user_phys dir v s"
proof (cases "user_phys dir v s = 0")
  case False
  then show ?thesis using user_phys_offset[of dir v s] page_split[of "user_phys dir v s"]
    by (simp add: user_kptr_def page_of_def Let_def)
qed (simp add: user_kptr_def)

text \<open>The loop over the pages of a range ends and tells whether all of them are mapped.\<close>

lemma page_step:
  assumes "page_aligned p" "page_aligned q" "p < q"
  shows "unat (p + 0x1000) = unat p + 4096" "page_aligned (p + 0x1000)" "p + 0x1000 \<le> q"
proof -
  have m: "unat p mod 4096 = 0" "unat q mod 4096 = 0" using assms(1,2) by (simp_all only: page_aligned_unat)
  moreover have "unat p < unat q" using assms(3) by (simp add: word_less_nat_alt)
  ultimately have le: "unat p + 4096 \<le> unat q" by (auto simp: mod_eq_0_iff_dvd elim!: dvdE)
  then show u: "unat (p + 0x1000) = unat p + 4096" using unat_u32[of q] by (simp add: unat_word_ariths)
  show "page_aligned (p + 0x1000)" using m(1) by (simp only: page_aligned_unat u) simp
  show "p + 0x1000 \<le> q" using le by (simp add: word_le_nat_alt u)
qed

lemma page_loop_returns:
  assumes "page_aligned p" "page_aligned q" "p \<le> q"
  shows "page_loop dir p q s = Some (\<forall>a. page_aligned a \<and> p \<le> a \<and> a \<le> q \<longrightarrow> user_phys dir a s \<noteq> 0)"
  using assms
proof (induction "unat q - unat p" arbitrary: p rule: less_induct)
  case less
  show ?case
  proof (cases "user_phys dir p s = 0 \<or> p = q")
    case True
    then show ?thesis using less.prems by (subst page_loop.simps) (auto dest: antisym)
  next
    case False
    then have "p < q" using less.prems(3) by auto
    note st = page_step[OF less.prems(1,2) this]
    have "unat q - unat (p + 0x1000) < unat q - unat p" using st(1,3) \<open>p < q\<close> by (simp add: word_le_nat_alt word_less_nat_alt)
    note IH = less.hyps[OF this st(2) less.prems(2) st(3)]
    have split: "a = p \<or> p + 0x1000 \<le> a" if "page_aligned a" "p \<le> a" for a
      using page_step(3)[OF less.prems(1) that(1)] that(2) by (cases "p = a") auto
    have "p \<le> p + 0x1000" using st(1) by (simp add: word_le_nat_alt)
    then have "page_aligned a \<and> p \<le> a \<and> a \<le> q \<and> user_phys dir a s = 0 \<longleftrightarrow>
        page_aligned a \<and> p + 0x1000 \<le> a \<and> a \<le> q \<and> user_phys dir a s = 0" for a
      using split[of a] False order_trans[of p "p + 0x1000" a] by blast
    then have "(\<forall>a. page_aligned a \<and> p \<le> a \<and> a \<le> q \<longrightarrow> user_phys dir a s \<noteq> 0) \<longleftrightarrow>
        (\<forall>a. page_aligned a \<and> p + 0x1000 \<le> a \<and> a \<le> q \<longrightarrow> user_phys dir a s \<noteq> 0)"
      by blast
    then show ?thesis using False IH by (subst page_loop.simps) simp
  qed
qed

lemma page_of_mono: "v \<le> w \<Longrightarrow> page_of v \<le> page_of w"
  by (simp add: word_le_nat_alt unat_page_of div_le_mono)

lemma page_of_le: "page_of v \<le> v"
  by (simp add: word_le_nat_alt unat_page_of)

lemma page_between:
  assumes "page_aligned a" "page_of u \<le> a" "a \<le> u"
  shows "a = page_of u"
  using page_of_mono[OF assms(3)] page_of_aligned[OF assms(1)] assms(2) by (simp add: antisym)

definition in_range :: "u32 \<Rightarrow> nat \<Rightarrow> u32 \<Rightarrow> bool" where
  "in_range u n v \<longleftrightarrow> u \<le> v \<and> unat v < unat u + n"

lemma user_ptr_valid_iff:
  "user_ptr_valid dir u len s \<longleftrightarrow> len \<noteq> 0 \<and> unat u + unat len < 2 ^ 32
     \<and> (\<forall>v. in_range u (unat len) v \<longrightarrow> user_phys dir (page_of v) s \<noteq> 0)"
proof (cases "len \<noteq> 0 \<and> \<not> u + len < u")
  case True
  then have "u \<le> u + len" by (simp only: not_less simp_thms)
  then have sum: "unat (u + len) = unat u + unat len" using unat_plus_simple by blast
  then have room: "unat u + unat len < 2 ^ 32" using unat_u32[of "u + len"] by simp
  have pos: "0 < unat len" using True by (simp add: unat_gt_0)
  let ?l = "u + len - 1"
  have "1 \<le> u + len" using sum pos by (simp add: word_le_nat_alt)
  then have l: "unat ?l = unat u + unat len - 1" using sum by (simp add: unat_sub)
  have ul: "u \<le> ?l" using l pos by (simp add: word_le_nat_alt)
  have r: "in_range u (unat len) v \<longleftrightarrow> u \<le> v \<and> v \<le> ?l" for v
    using l pos by (auto simp: in_range_def word_le_nat_alt)
  have "(\<forall>a. page_aligned a \<and> page_of u \<le> a \<and> a \<le> page_of ?l \<longrightarrow> user_phys dir a s \<noteq> 0) \<longleftrightarrow>
      (\<forall>v. in_range u (unat len) v \<longrightarrow> user_phys dir (page_of v) s \<noteq> 0)"
  proof (intro iffI allI impI)
    fix v assume all: "\<forall>a. page_aligned a \<and> page_of u \<le> a \<and> a \<le> page_of ?l \<longrightarrow> user_phys dir a s \<noteq> 0"
      and v: "in_range u (unat len) v"
    then show "user_phys dir (page_of v) s \<noteq> 0" using page_of_mono[of u v] page_of_mono[of v ?l] r by simp
  next
    fix a assume all: "\<forall>v. in_range u (unat len) v \<longrightarrow> user_phys dir (page_of v) s \<noteq> 0"
      and a: "page_aligned a \<and> page_of u \<le> a \<and> a \<le> page_of ?l"
    show "user_phys dir a s \<noteq> 0"
    proof (cases "a \<le> u")
      case True
      then show ?thesis using all[rule_format, of u] page_between[of a u] a r ul by simp
    next
      case False
      then have "in_range u (unat len) a" using a page_of_le[of ?l] r by (meson le_cases order_trans)
      then show ?thesis using all page_of_aligned[of a] a by auto
    qed
  qed
  then show ?thesis
    using True room page_loop_returns[OF page_aligned_page_of page_aligned_page_of page_of_mono[OF ul], of dir s]
    by (simp add: user_ptr_valid_def page_of_def)
next
  case False
  then have "len = 0 \<or> \<not> unat u + unat len < 2 ^ 32"
    using unat_plus_simple[of u len] by (auto simp: unat_word_ariths)
  then show ?thesis using False by (auto simp: user_ptr_valid_def)
qed

section \<open>Private user frames\<close>

text \<open>The frames a process has mapped hold none of its tables, and no frame is mapped at two pages.\<close>

definition user_wf :: "vmm \<Rightarrow> u32 \<Rightarrow> bool" where
  "user_wf s dir \<longleftrightarrow> dir_ok s dir \<and> (\<forall>v. user_phys dir v s \<noteq> 0 \<longrightarrow>
      page_of (user_phys dir v s) \<noteq> 0 \<and> page_of (user_phys dir v s) \<notin> dir_pages s dir
      \<and> (\<forall>w. user_phys dir w s \<noteq> 0 \<and> page_of (user_phys dir w s) = page_of (user_phys dir v s) \<longrightarrow> page_of w = page_of v))"

lemma user_phys_inj:
  assumes "user_wf s dir" "user_phys dir v s = user_phys dir w s" "user_phys dir v s \<noteq> 0"
  shows "v = w"
proof -
  have "page_of v = page_of w" using assms unfolding user_wf_def by metis
  moreover have "v AND 0xFFF = w AND 0xFFF"
    using user_phys_offset[of dir v s] user_phys_offset[of dir w s] assms(2,3) by simp
  ultimately show ?thesis using page_split[of v] page_split[of w] by metis
qed

lemma dir_tables_cong:
  assumes "\<And>i. i < 1024 \<Longrightarrow> dentry s' dir i = dentry s dir i"
  shows "dir_tables s' dir lo = dir_tables s dir lo"
proof (intro set_eqI iffI)
  fix x assume "x \<in> dir_tables s' dir lo"
  then obtain i where "x = frame_of (dentry s' dir i)" "lo \<le> i" "i < 1024" "present (dentry s' dir i)"
    by (auto simp: dir_tables_def)
  then show "x \<in> dir_tables s dir lo" using assms[of i] by (auto simp: dir_tables_def)
next
  fix x assume "x \<in> dir_tables s dir lo"
  then obtain i where "x = frame_of (dentry s dir i)" "lo \<le> i" "i < 1024" "present (dentry s dir i)"
    by (auto simp: dir_tables_def)
  moreover from this have "dentry s' dir i = dentry s dir i" using assms by blast
  ultimately show "x \<in> dir_tables s' dir lo" unfolding dir_tables_def by (intro CollectI exI[of _ i]) simp
qed

lemma same_tables:
  assumes "dir_ok s dir" "frames_of s' = frames_of s"
    "\<And>p i. p \<in> dir_pages s dir \<Longrightarrow> page_aligned p \<Longrightarrow> i < 1024 \<Longrightarrow> read32 (ram s') (slot p i) = read32 (ram s) (slot p i)"
  shows "dir_ok s' dir" "dir_pages s' dir = dir_pages s dir" "dir_tables s' dir lo = dir_tables s dir lo"
proof -
  have d: "dentry s' dir i = dentry s dir i" if "i < 1024" for i
    using assms that by (simp add: dir_pages_def dir_ok_def)
  show t: "dir_tables s' dir lo = dir_tables s dir lo" for lo by (rule dir_tables_cong[OF d])
  show p: "dir_pages s' dir = dir_pages s dir" by (simp add: dir_pages_def t)
  show "dir_ok s' dir" using assms(1) d unfolding dir_ok_def t p assms(2) by (simp cong: conj_cong)
qed

lemma poke_user:
  fixes b :: u8
  assumes wf: "user_wf s dir" and kp: "page_of kp \<notin> dir_pages s dir"
  defines "s' \<equiv> s\<lparr>ram := (ram s)(kp := b)\<rparr>"
  shows "user_wf s' dir" "user_phys dir v s' = user_phys dir v s" "dir_pages s' dir = dir_pages s dir"
proof -
  have ok: "dir_ok s dir" using wf by (simp add: user_wf_def)
  have r: "read32 (ram s') (slot p i) = read32 (ram s) (slot p i)" if "p \<in> dir_pages s dir" "page_aligned p" "i < 1024" for p i
  proof (rule read32_cong)
    fix j :: u32 assume "j \<in> {0, 1, 2, 3}"
    then have "j < 4" by auto
    then have "slot p i + j \<noteq> kp" using page_of_slot[OF that(2,3)] that(1) kp by auto
    then show "ram s' (slot p i + j) = ram s (slot p i + j)" by (simp add: s'_def)
  qed
  have fr: "frames_of s' = frames_of s" by (simp add: s'_def)
  have ok': "dir_ok s' dir" and pages: "dir_pages s' dir = dir_pages s dir"
    using same_tables(1,2)[OF ok fr] r by blast+
  show u: "user_phys dir v s' = user_phys dir v s" for v
    using user_phys_cong(1)[of dir s s' v, OF _ r] ok by (simp add: dir_ok_def)
  show "dir_pages s' dir = dir_pages s dir" by (rule pages)
  have "user_wf s' dir = user_wf s dir" by (simp only: user_wf_def u pages ok ok')
  then show "user_wf s' dir" using wf by (simp only:)
qed

lemma write_user_spec:
  assumes "user_wf s dir" "\<forall>k < length bs. user_phys dir (u + of_nat k) s \<noteq> 0" "unat u + length bs < 2 ^ 32"
  shows "\<exists>m. write_user dir u bs s = (0, s\<lparr>ram := m\<rparr>) \<and> user_wf (s\<lparr>ram := m\<rparr>) dir
     \<and> (\<forall>v. user_phys dir v (s\<lparr>ram := m\<rparr>) = user_phys dir v s)
     \<and> (\<forall>k < length bs. m (user_phys dir (u + of_nat k) s) = bs ! k)
     \<and> (\<forall>a. (\<forall>k < length bs. a \<noteq> user_phys dir (u + of_nat k) s) \<longrightarrow> m a = ram s a)"
  using assms
proof (induction bs arbitrary: u s)
  case Nil
  then show ?case by (intro exI[of _ "ram s"]) simp
next
  case (Cons b bs)
  let ?kp = "user_phys dir u s"
  let ?s1 = "s\<lparr>ram := (ram s)(?kp := b)\<rparr>"
  have kp: "?kp \<noteq> 0" using Cons.prems(2)[rule_format, of 0] by simp
  then have "page_of ?kp \<notin> dir_pages s dir" using Cons.prems(1) unfolding user_wf_def by blast
  note pk = poke_user[OF Cons.prems(1) this, where b = b]
  have next_addr: "u + 1 + of_nat k = u + of_nat (Suc k)" for k by simp
  have "unat (u + 1) = Suc (unat u)" using Cons.prems(3) by (simp add: unat_word_ariths)
  then have room: "unat (u + 1) + length bs < 2 ^ 32" using Cons.prems(3) by simp
  have all: "\<forall>k < length bs. user_phys dir (u + 1 + of_nat k) ?s1 \<noteq> 0"
    unfolding pk(2) next_addr using Cons.prems(2) by auto
  obtain m where m: "write_user dir (u + 1) bs ?s1 = (0, ?s1\<lparr>ram := m\<rparr>)" "user_wf (?s1\<lparr>ram := m\<rparr>) dir"
    "\<And>v. user_phys dir v (?s1\<lparr>ram := m\<rparr>) = user_phys dir v s"
    "\<And>k. k < length bs \<Longrightarrow> m (user_phys dir (u + of_nat (Suc k)) s) = bs ! k"
    "\<And>a. \<forall>k < length bs. a \<noteq> user_phys dir (u + of_nat (Suc k)) s \<Longrightarrow> m a = ram ?s1 a"
    using Cons.IH[OF pk(1) all room] unfolding pk(2) next_addr by blast
  have sep: "?kp \<noteq> user_phys dir (u + of_nat (Suc k)) s" if "k < length bs" for k
  proof
    assume "?kp = user_phys dir (u + of_nat (Suc k)) s"
    then have "u = u + of_nat (Suc k)" using user_phys_inj[OF Cons.prems(1)] kp by blast
    then have "(of_nat (Suc k) :: u32) = 0" by (simp only: add_cancel_right_right)
    then have "unat (of_nat (Suc k) :: u32) = 0" by (simp only: unat_0)
    then have "Suc k mod 2 ^ 32 = 0" unfolding unat_of_nat by simp
    then show False using that Cons.prems(3) by simp
  qed
  have head: "m ?kp = b" using m(5)[of ?kp] sep by simp
  have "m (user_phys dir (u + of_nat k) s) = (b # bs) ! k" if "k < length (b # bs)" for k
    using that head m(4) by (cases k) auto
  moreover have "m a = ram s a" if "\<forall>k < length (b # bs). a \<noteq> user_phys dir (u + of_nat k) s" for a
  proof -
    have "a \<noteq> ?kp" using that[rule_format, of 0] by simp
    moreover have "\<forall>k < length bs. a \<noteq> user_phys dir (u + of_nat (Suc k)) s" using that by auto
    ultimately show ?thesis using m(5)[of a] by simp
  qed
  ultimately show ?case using m(1,2,3) kp by (intro exI[of _ m]) (simp add: user_kptr_phys)
qed

lemma read_user_spec:
  "\<forall>i \<in> set is. user_phys dir (u + of_nat i) s \<noteq> 0 \<Longrightarrow>
     read_user dir u is s = Some (map (\<lambda>i. ram s (user_phys dir (u + of_nat i) s)) is)"
  by (induction "is") (auto simp: user_kptr_phys)

text \<open>Being mapped is a matter of the page.\<close>

lemma user_phys_page_of:
  assumes "user_wf s dir"
  shows "user_phys dir (page_of v) s \<noteq> 0 \<longleftrightarrow> user_phys dir v s \<noteq> 0"
proof -
  have p: "page_of (page_of v) = page_of v" by (rule page_of_aligned[OF page_aligned_page_of])
  have "page_of (user_phys dir w s) \<noteq> 0" if "user_phys dir w s \<noteq> 0" for w
    using assms that unfolding user_wf_def by blast
  then show ?thesis using user_phys_page(1)[of v "page_of v" dir s] user_phys_page(1)[of "page_of v" v dir s] p by metis
qed

lemma range_offset:
  assumes "unat u + n < 2 ^ 32"
  shows "in_range u n v \<longleftrightarrow> (\<exists>k < n. v = u + of_nat k)"
proof
  assume v: "in_range u n v"
  then have "v = u + of_nat (unat v - unat u)" "unat v - unat u < n"
    by (auto simp: in_range_def word_le_nat_alt of_nat_diff)
  then show "\<exists>k < n. v = u + of_nat k" by blast
next
  assume "\<exists>k < n. v = u + of_nat k"
  then obtain k where "k < n" "v = u + of_nat k" by blast
  then show "in_range u n v" using assms by (simp add: in_range_def word_le_nat_alt unat_word_ariths unat_of_nat)
qed

lemma user_range:
  assumes "user_wf s dir" "n < 2 ^ 32"
  shows "user_ptr_valid dir u (of_nat n) s \<longleftrightarrow>
     n \<noteq> 0 \<and> unat u + n < 2 ^ 32 \<and> (\<forall>k < n. user_phys dir (u + of_nat k) s \<noteq> 0)"
proof -
  have n: "unat (of_nat n :: u32) = n" using assms(2) by (simp add: unat_of_nat)
  then have z: "(of_nat n :: u32) = 0 \<longleftrightarrow> n = 0" by (simp add: unat_eq_0[symmetric] del: unat_eq_0)
  show ?thesis
  proof (cases "unat u + n < 2 ^ 32")
    case True
    have "(\<forall>v. in_range u n v \<longrightarrow> user_phys dir v s \<noteq> 0) \<longleftrightarrow> (\<forall>k < n. user_phys dir (u + of_nat k) s \<noteq> 0)"
      unfolding range_offset[OF True] by blast
    then show ?thesis unfolding user_ptr_valid_iff user_phys_page_of[OF assms(1)] n z by blast
  next
    case False
    then show ?thesis unfolding user_ptr_valid_iff n by blast
  qed
qed

text \<open>
  C28. A system call that writes to its caller's memory reaches exactly that memory. For a process
  with private frames, \<open>copy_to_user\<close> succeeds exactly when the range is not empty, does not wrap and
  is mapped for the user throughout; otherwise nothing is written. When it succeeds the range lies
  above the kernel's 8 MB, only bytes of the frames mapped at the range change, every translation
  stays, and \<open>copy_from_user\<close> reads the same bytes back.
\<close>

theorem copy_to_user_correct:
  assumes "user_wf s dir" "length bs < 2 ^ 32" "copy_to_user dir u bs s = (r, s')"
  shows "(if bs \<noteq> [] \<and> unat u + length bs < 2 ^ 32 \<and> (\<forall>k < length bs. user_phys dir (u + of_nat k) s \<noteq> 0)
      then r = 0 \<and> 0x800000 \<le> u \<and> copy_from_user dir u (of_nat (length bs)) s' = Some bs else r = -1 \<and> s' = s)
     \<and> user_wf s' dir \<and> (\<forall>v. user_phys dir v s' = user_phys dir v s)
     \<and> (\<forall>a. ram s' a \<noteq> ram s a \<longrightarrow> (\<exists>k < length bs. a = user_phys dir (u + of_nat k) s))"
proof (cases "user_ptr_valid dir u (of_nat (length bs)) s")
  case False
  then have "r = -1" "s' = s" using assms(3) by (simp_all add: copy_to_user_def)
  then show ?thesis using False assms(1) user_range[OF assms(1,2), of u] by auto
next
  case True
  then have v: "bs \<noteq> []" "unat u + length bs < 2 ^ 32" "\<forall>k < length bs. user_phys dir (u + of_nat k) s \<noteq> 0"
    using user_range[OF assms(1,2), of u] by auto
  obtain m where m: "write_user dir u bs s = (0, s\<lparr>ram := m\<rparr>)" "user_wf (s\<lparr>ram := m\<rparr>) dir"
     "\<forall>v. user_phys dir v (s\<lparr>ram := m\<rparr>) = user_phys dir v s"
     "\<forall>k < length bs. m (user_phys dir (u + of_nat k) s) = bs ! k"
     "\<forall>a. (\<forall>k < length bs. a \<noteq> user_phys dir (u + of_nat k) s) \<longrightarrow> m a = ram s a"
    using write_user_spec[OF assms(1) v(3,2)] by blast
  have r: "r = 0" "s' = s\<lparr>ram := m\<rparr>" using assms(3) True m(1) by (simp_all add: copy_to_user_def)
  have "user_ptr_valid dir u (of_nat (length bs)) s'" using user_range[OF m(2) assms(2), of u] v m(3) r(2) by simp
  moreover have "read_user dir u [0 ..< length bs] s' = Some bs"
    using read_user_spec[of "[0 ..< length bs]" dir u s'] v(3) m(3,4) r(2) by (auto intro: nth_equalityI)
  moreover have "unat (of_nat (length bs) :: u32) = length bs" using assms(2) by (simp add: unat_of_nat)
  ultimately have same: "copy_from_user dir u (of_nat (length bs)) s' = Some bs" by (simp add: copy_from_user_def)
  have "user_phys dir u s \<noteq> 0" using v(3)[rule_format, of 0] v(1) by simp
  then have high: "0x800000 \<le> u" using user_low[of s dir u] assms(1) by (auto simp: user_wf_def not_less[symmetric])
  have "\<exists>k < length bs. a = user_phys dir (u + of_nat k) s" if "ram s' a \<noteq> ram s a" for a
    using that m(5) r(2) by auto
  then show ?thesis using v r(1) same high m(2,3) unfolding r(2) by simp
qed

text \<open>A process with one page, at 8 MB: directory at 0x300000, table at 0x301000, frame 0x500000.\<close>

definition one_page :: vmm where
  "one_page = empty_vmm\<lparr>ram := write32 (write32 (\<lambda>_. 0) (slot 0x300000 2) (user_entry 0x301000)) (slot 0x301000 0) (user_entry 0x500000)\<rparr>"

lemma one_page_words:
  assumes "page_aligned q" "j < 1024"
  shows "read32 (ram one_page) (slot q j) = (if q = 0x301000 \<and> j = 0 then user_entry 0x500000
     else if q = 0x300000 \<and> j = 2 then user_entry 0x301000 else 0)"
proof -
  have z: "read32 (\<lambda>_. 0) a = 0" for a by (simp add: read32_def)
  show ?thesis
    using read_slot_write[of "0x301000" q 0 j "write32 (\<lambda>_. 0) (slot 0x300000 2) (user_entry 0x301000)" "user_entry 0x500000"]
      read_slot_write[of "0x300000" q 2 j "\<lambda>_. 0" "user_entry 0x301000"] assms
    by (auto simp: one_page_def z)
qed

lemma one_page_phys:
  "user_phys 0x300000 v one_page = (if page_of v = 0x800000 then 0x500000 OR (v AND 0xFFF) else 0)"
proof -
  have i: "pd_index v = 2 \<and> pt_index v = 0 \<longleftrightarrow> page_of v = 0x800000"
    using indices_page[of v "0x800000"] by (simp add: pd_index_def pt_index_def page_of_def)
  have e: "frame_of (user_entry 0x301000) = 0x301000" "frame_of (user_entry 0x500000) = 0x500000"
    "present (user_entry 0x301000)" "user_accessible (user_entry 0x301000)"
    "present (user_entry 0x500000)" "user_accessible (user_entry 0x500000)"
    using entry_bits[of "0x301000"] entry_bits[of "0x500000"] by simp_all
  have z: "\<not> present 0" by (simp add: present_bit)
  show ?thesis
    unfolding vmm_get_user_phys_from_dir_def Let_def
    using one_page_words[of "0x300000" "pd_index v"] one_page_words[of "0x301000" "pt_index v"] pd_index_less[of v] pt_index_less[of v] e z i
    by auto
qed

lemma one_page_wf: "user_wf one_page 0x300000"
proof -
  let ?p = "pmm_init []"
  have fr: "frames_of one_page = ?p" by (simp add: one_page_def empty_vmm_def)
  have nf: "\<not> frame_free ?p a" if "a < 0x400000" for a
    using frame_free_range(1)[of ?p a] pmm_init_fallback(1) that by (auto simp: not_le[symmetric])
  have e: "frame_of (user_entry 0x301000) = 0x301000" "present (user_entry 0x301000)" "user_accessible (user_entry 0x301000)"
    using entry_bits[of "0x301000"] by simp_all
  have z: "\<not> present 0" by (simp add: present_bit)
  have d: "dentry one_page 0x300000 i = (if i = 2 then user_entry 0x301000 else 0)" if "i < 1024" for i
    using one_page_words[of "0x300000" i] that by simp
  have t: "dir_tables one_page 0x300000 0 = {0x301000}"
  proof (intro set_eqI iffI)
    fix x assume "x \<in> dir_tables one_page 0x300000 0"
    then show "x \<in> {0x301000}" using d e(1) z by (auto simp: dir_tables_def split: if_splits)
  next
    fix x :: u32 assume "x \<in> {0x301000}"
    then show "x \<in> dir_tables one_page 0x300000 0" unfolding dir_tables_def
      by (intro CollectI exI[of _ 2]) (use d[of 2] e in simp)
  qed
  have "dir_ok one_page 0x300000"
    unfolding dir_ok_def dir_pages_def t fr using d e z nf[of "0x300000"] nf[of "0x301000"] pmm_init_fallback(1) by auto
  moreover have "page_of (0x500000 OR (v AND 0xFFF)) = 0x500000" for v by (rule page_or_offset(1)) simp
  ultimately show ?thesis unfolding user_wf_def one_page_phys dir_pages_def t by auto
qed

theorem copy_to_user_correct_witness:
  "\<exists>s'. copy_to_user 0x300000 0x800010 [1, 2, 3] one_page = (0, s') \<and> copy_from_user 0x300000 0x800010 3 s' = Some [1, 2, 3]"
proof -
  obtain r s' where run: "copy_to_user 0x300000 0x800010 [1, 2, 3] one_page = (r, s')" by fastforce
  have "\<forall>k < 3. user_phys 0x300000 (0x800010 + of_nat k) one_page \<noteq> 0"
    by (simp add: one_page_phys numeral_3_eq_3 less_Suc_eq all_conj_distrib) (simp add: page_of_def)
  then show ?thesis using copy_to_user_correct[OF one_page_wf _ run] run by simp
qed

end
