(* ===== verification/Heap.thy ===== *)
theory Heap
  imports Vmm "HOL-Library.Monad_Syntax"
begin

text \<open>
  The kernel heap (kernel/memory/heap.c): a doubly linked list of blocks with headers in memory,
  first-fit allocation with splitting, release with merging, and growth page by page. Console
  output is left out. \<open>None\<close> is a call that does not return (a cyclic list).
\<close>

section \<open>State\<close>

definition HEAP_START :: u32 where "HEAP_START = 0x400000"
definition HEAP_MAX :: u32 where "HEAP_MAX = 0x800000"
definition MAGIC_FREE :: u32 where "MAGIC_FREE = 0xDEAD1234"
definition MAGIC_USED :: u32 where "MAGIC_USED = 0xBEEF5678"
definition HEADER_SIZE :: u32 where "HEADER_SIZE = 16"
definition HEAP_INITIAL_SIZE :: u32 where "HEAP_INITIAL_SIZE = 256 * 1024"

record heap =
  hvm :: vmm
  heap_start_ptr :: u32
  heap_end :: u32

text \<open>The fields of the header at address \<open>b\<close>, in the order of the struct.\<close>

definition word_at :: "heap \<Rightarrow> u32 \<Rightarrow> u32" where
  "word_at h a = read32 (ram (hvm h)) a"

definition poke :: "u32 \<Rightarrow> u32 \<Rightarrow> heap \<Rightarrow> heap" where
  "poke a v h = h\<lparr>hvm := (hvm h)\<lparr>ram := write32 (ram (hvm h)) a v\<rparr>\<rparr>"

abbreviation b_magic :: "heap \<Rightarrow> u32 \<Rightarrow> u32" where "b_magic h b \<equiv> word_at h b"
abbreviation b_size :: "heap \<Rightarrow> u32 \<Rightarrow> u32" where "b_size h b \<equiv> word_at h (b + 4)"
abbreviation b_next :: "heap \<Rightarrow> u32 \<Rightarrow> u32" where "b_next h b \<equiv> word_at h (b + 8)"
abbreviation b_prev :: "heap \<Rightarrow> u32 \<Rightarrow> u32" where "b_prev h b \<equiv> word_at h (b + 12)"
abbreviation set_magic :: "u32 \<Rightarrow> u32 \<Rightarrow> heap \<Rightarrow> heap" where "set_magic b v \<equiv> poke b v"
abbreviation set_size :: "u32 \<Rightarrow> u32 \<Rightarrow> heap \<Rightarrow> heap" where "set_size b v \<equiv> poke (b + 4) v"
abbreviation set_next :: "u32 \<Rightarrow> u32 \<Rightarrow> heap \<Rightarrow> heap" where "set_next b v \<equiv> poke (b + 8) v"
abbreviation set_prev :: "u32 \<Rightarrow> u32 \<Rightarrow> heap \<Rightarrow> heap" where "set_prev b v \<equiv> poke (b + 12) v"

section \<open>Growth\<close>

fun expand_pages :: "nat \<Rightarrow> heap \<Rightarrow> bool \<times> heap" where
  "expand_pages 0 h = (True, h)"
| "expand_pages (Suc n) h =
     (if heap_end h + 4096 > HEAP_MAX then (False, h)
      else let (phys, p) = pmm_alloc_page_at (heap_end h) (frames_of (hvm h)); vm = (hvm h)\<lparr>frames_of := p\<rparr> in
        if phys = 0 then (False, h\<lparr>hvm := vm\<rparr>)
        else let (r, vm) = vmm_map_page (heap_end h) phys VMM_KERNEL vm in
          if r \<noteq> 0 then (False, h\<lparr>hvm := vm\<lparr>frames_of := pmm_free_page phys (frames_of vm)\<rparr>\<rparr>)
          else expand_pages n (h\<lparr>hvm := vm, heap_end := heap_end h + 4096\<rparr>))"

definition heap_expand :: "u32 \<Rightarrow> heap \<Rightarrow> bool \<times> heap" where
  "heap_expand sz h = expand_pages (unat ((sz + 4096 - 1) div 4096)) h"

definition heap_init :: "heap \<Rightarrow> heap" where
  "heap_init h =
     (let (ok, h) = heap_expand HEAP_INITIAL_SIZE h in
      if \<not> ok then h
      else set_prev HEAP_START 0 (set_next HEAP_START 0
        (set_size HEAP_START (heap_end h - HEAP_START - HEADER_SIZE)
        (set_magic HEAP_START MAGIC_FREE (h\<lparr>heap_start_ptr := HEAP_START\<rparr>)))))"

section \<open>Allocation\<close>

datatype scan = Corrupt | Fit u32 | NoFit

partial_function (option) kmalloc_scan :: "u32 \<Rightarrow> u32 \<Rightarrow> heap \<Rightarrow> scan option" where
  "kmalloc_scan cur sz h =
     (if cur = 0 then Some NoFit
      else if b_magic h cur \<noteq> MAGIC_FREE \<and> b_magic h cur \<noteq> MAGIC_USED then Some Corrupt
      else if b_magic h cur = MAGIC_FREE \<and> b_size h cur \<ge> sz then Some (Fit cur)
      else kmalloc_scan (b_next h cur) sz h)"

definition split_block :: "u32 \<Rightarrow> u32 \<Rightarrow> heap \<Rightarrow> heap" where
  "split_block cur sz h =
     (if b_size h cur \<ge> sz + HEADER_SIZE + 4 then
        let nb = cur + HEADER_SIZE + sz;
            h = set_magic nb MAGIC_FREE h;
            h = set_size nb (b_size h cur - sz - HEADER_SIZE) h;
            h = set_next nb (b_next h cur) h;
            h = set_prev nb cur h;
            h = (if b_next h cur \<noteq> 0 then set_prev (b_next h cur) nb h else h);
            h = set_next cur nb h
        in set_size cur sz h
      else h)"

definition take_block :: "u32 \<Rightarrow> u32 \<Rightarrow> heap \<Rightarrow> u32 \<times> heap" where
  "take_block cur sz h = (cur + HEADER_SIZE, set_magic cur MAGIC_USED (split_block cur sz h))"

partial_function (option) find_tail :: "u32 \<Rightarrow> heap \<Rightarrow> u32 option" where
  "find_tail t h = (if t \<noteq> 0 \<and> b_next h t \<noteq> 0 then find_tail (b_next h t) h else Some t)"

definition append_block :: "u32 \<Rightarrow> heap \<Rightarrow> heap option" where
  "append_block old_end h = do {
     let h = set_prev old_end 0 (set_next old_end 0 (set_size old_end (heap_end h - old_end - HEADER_SIZE)
               (set_magic old_end MAGIC_FREE h)));
     t \<leftarrow> find_tail (heap_start_ptr h) h;
     Some (if t = 0 then h\<lparr>heap_start_ptr := old_end\<rparr>
           else let h = set_prev old_end t (set_next t old_end h) in
             if b_magic h t = MAGIC_FREE
             then set_next t 0 (set_size t (b_size h t + (HEADER_SIZE + b_size h old_end)) h) else h)
   }"

definition align4 :: "u32 \<Rightarrow> u32" where
  "align4 sz = (sz + 3) AND NOT 3"

partial_function (option) kmalloc :: "u32 \<Rightarrow> heap \<Rightarrow> (u32 \<times> heap) option" where
  "kmalloc sz h =
     (if sz = 0 then Some (0, h)
      else if sz > HEAP_MAX - HEAP_START then Some (0, h)
      else do {
        r \<leftarrow> kmalloc_scan (heap_start_ptr h) (align4 sz) h;
        (case r of
           Corrupt \<Rightarrow> Some (0, h)
         | Fit cur \<Rightarrow> Some (take_block cur (align4 sz) h)
         | NoFit \<Rightarrow>
             (if fst (heap_expand (align4 sz + HEADER_SIZE) h) then
                do {
                  h2 \<leftarrow> append_block (heap_end h) (snd (heap_expand (align4 sz + HEADER_SIZE) h));
                  kmalloc (align4 sz) h2
                }
              else Some (0, snd (heap_expand (align4 sz + HEADER_SIZE) h))))
      })"

section \<open>Release\<close>

definition merge_next :: "u32 \<Rightarrow> heap \<Rightarrow> heap" where
  "merge_next hdr h =
     (if b_next h hdr \<noteq> 0 \<and> b_magic h (b_next h hdr) = MAGIC_FREE then
        let h = set_size hdr (b_size h hdr + (HEADER_SIZE + b_size h (b_next h hdr))) h;
            h = set_next hdr (b_next h (b_next h hdr)) h
        in if b_next h hdr \<noteq> 0 then set_prev (b_next h hdr) hdr h else h
      else h)"

definition merge_prev :: "u32 \<Rightarrow> heap \<Rightarrow> heap" where
  "merge_prev hdr h =
     (if b_prev h hdr \<noteq> 0 \<and> b_magic h (b_prev h hdr) = MAGIC_FREE then
        let pr = b_prev h hdr;
            h = set_size pr (b_size h pr + (HEADER_SIZE + b_size h hdr)) h;
            h = set_next pr (b_next h hdr) h
        in if b_next h hdr \<noteq> 0 then set_prev (b_next h hdr) pr h else h
      else h)"

definition kfree :: "u32 \<Rightarrow> heap \<Rightarrow> heap" where
  "kfree ptr h =
     (if ptr = 0 then h
      else let hdr = ptr - HEADER_SIZE in
        if b_magic h hdr \<noteq> MAGIC_USED then h
        else merge_prev hdr (merge_next hdr (set_magic hdr MAGIC_FREE h)))"

partial_function (option) free_bytes :: "u32 \<Rightarrow> u32 \<Rightarrow> heap \<Rightarrow> u32 option" where
  "free_bytes cur acc h =
     (if cur = 0 then Some acc
      else free_bytes (b_next h cur) (if b_magic h cur = MAGIC_FREE then acc + b_size h cur else acc) h)"

definition heap_free_bytes :: "heap \<Rightarrow> u32 option" where
  "heap_free_bytes h = free_bytes (heap_start_ptr h) 0 h"

end
