(* ===== verification/Heap_List.thy ===== *)
theory Heap_List
  imports Heap
begin

text \<open>
  The heap as a list of blocks: the representation of the linked list of headers in memory, and
  the effect of splitting, merging and appending on that list.
\<close>

section \<open>Words of the heap\<close>

definition wd :: "heap \<Rightarrow> nat \<Rightarrow> u32" where
  "wd h x = word_at h (of_nat x)"

lemma fields:
  "word_at h (of_nat a) = wd h a" "word_at h (of_nat a + 4) = wd h (a + 4)"
  "word_at h (of_nat a + 8) = wd h (a + 8)" "word_at h (of_nat a + 12) = wd h (a + 12)"
  by (simp_all add: wd_def)

lemma pokes:
  "poke (of_nat a + 4) v h = poke (of_nat (a + 4)) v h" "poke (of_nat a + 8) v h = poke (of_nat (a + 8)) v h"
  "poke (of_nat a + 12) v h = poke (of_nat (a + 12)) v h"
  by simp_all

lemma word_aligned: "x mod 4 = 0 \<Longrightarrow> (of_nat x :: u32) AND 3 = 0"
proof -
  assume "x mod 4 = 0"
  then have "x mod 2 ^ 32 mod 4 = 0" by (simp add: mod_mod_cancel)
  then have "unat (of_nat x :: u32) mod 4 = 0" unfolding unat_of_nat by simp
  then show ?thesis using aligned_and_mask_iff[of "of_nat x :: u32" 2] by (simp add: mask_eq_exp_minus_1)
qed

lemma of_nat_inj: "x < 2 ^ 32 \<Longrightarrow> y < 2 ^ 32 \<Longrightarrow> (of_nat x :: u32) = of_nat y \<longleftrightarrow> x = y"
proof -
  assume "x < 2 ^ 32" "y < 2 ^ 32"
  then have "unat (of_nat x :: u32) = x" "unat (of_nat y :: u32) = y" unfolding unat_of_nat by simp_all
  then show ?thesis by metis
qed

lemma wd_poke:
  assumes "x mod 4 = 0" "y mod 4 = 0" "x < 2 ^ 32" "y < 2 ^ 32"
  shows "wd (poke (of_nat y) v h) x = (if x = y then v else wd h x)"
proof (cases "x = y")
  case False
  then have "(of_nat y :: u32) \<noteq> of_nat x" using of_nat_inj assms by blast
  then have "sep32 (of_nat y) (of_nat x)" using word_aligned assms by (intro sep32_aligned)
  then show ?thesis using False by (simp add: wd_def word_at_def poke_def read32_write32_sep)
qed (simp add: wd_def word_at_def poke_def)

definition byte :: "heap \<Rightarrow> nat \<Rightarrow> u8" where
  "byte h x = ram (hvm h) (of_nat x)"

lemma byte_poke:
  assumes "x < 2 ^ 32" "y + 3 < 2 ^ 32" "x < y \<or> y + 4 \<le> x"
  shows "byte (poke (of_nat y) v h) x = byte h x"
proof -
  have "(of_nat x :: u32) \<noteq> of_nat (y + k)" if "k < 4" for k using of_nat_inj[of x "y + k"] assms that by auto
  from this[of 0] this[of 1] this[of 2] this[of 3]
  show ?thesis by (simp add: byte_def poke_def write32_def add.commute)
qed

lemma poke_simps [simp]:
  "heap_end (poke a v h) = heap_end h" "heap_start_ptr (poke a v h) = heap_start_ptr h"
  "frames_of (hvm (poke a v h)) = frames_of (hvm h)"
  by (simp_all add: poke_def)

section \<open>Blocks\<close>

type_synonym block = "nat \<times> nat \<times> bool"

definition magic_of :: "bool \<Rightarrow> u32" where
  "magic_of u = (if u then MAGIC_USED else MAGIC_FREE)"

fun first :: "block list \<Rightarrow> nat \<Rightarrow> nat" where
  "first [] n = n"
| "first ((a, s, u) # bs) n = a"

text \<open>\<open>seg w p bs n\<close>: the headers of the blocks \<open>bs\<close> are linked, the first one's \<open>prev\<close> is \<open>p\<close>, the last
  one's \<open>next\<close> is \<open>n\<close>. \<open>fits lo bs hi\<close>: they lie in order between \<open>lo\<close> and \<open>hi\<close> without overlap.\<close>

fun seg :: "(nat \<Rightarrow> u32) \<Rightarrow> nat \<Rightarrow> block list \<Rightarrow> nat \<Rightarrow> bool" where
  "seg w p [] n \<longleftrightarrow> True"
| "seg w p ((a, s, u) # bs) n \<longleftrightarrow> w a = magic_of u \<and> w (a + 4) = of_nat s \<and> w (a + 8) = of_nat (first bs n)
     \<and> w (a + 12) = of_nat p \<and> seg w a bs n"

fun fits :: "nat \<Rightarrow> block list \<Rightarrow> nat \<Rightarrow> bool" where
  "fits lo [] hi \<longleftrightarrow> lo \<le> hi"
| "fits lo ((a, s, u) # bs) hi \<longleftrightarrow> lo \<le> a \<and> a mod 4 = 0 \<and> s mod 4 = 0 \<and> fits (a + 16 + s) bs hi"

fun last_addr :: "nat \<Rightarrow> block list \<Rightarrow> nat" where
  "last_addr p [] = p"
| "last_addr p ((a, s, u) # bs) = last_addr a bs"

fun end_of :: "nat \<Rightarrow> block list \<Rightarrow> nat" where
  "end_of lo [] = lo"
| "end_of lo ((a, s, u) # bs) = end_of (a + 16 + s) bs"

definition used :: "block list \<Rightarrow> (nat \<times> nat) set" where
  "used bs = {(a, s). (a, s, True) \<in> set bs}"

lemma first_append: "first (xs @ ys) n = first xs (first ys n)"
proof (cases xs)
  case (Cons b bs)
  then show ?thesis by (cases b) simp
qed simp

lemma seg_append: "seg w p (xs @ ys) n \<longleftrightarrow> seg w p xs (first ys n) \<and> seg w (last_addr p xs) ys n"
  by (induction xs arbitrary: p) (auto simp: first_append)

lemma fits_append: "fits lo (xs @ ys) hi \<longleftrightarrow> fits lo xs (end_of lo xs) \<and> fits (end_of lo xs) ys hi"
  by (induction xs arbitrary: lo) auto

lemma fits_le: "fits lo bs hi \<Longrightarrow> lo \<le> hi"
  by (induction lo bs hi rule: fits.induct) auto

lemma fits_mono: "fits lo bs hi \<Longrightarrow> lo' \<le> lo \<Longrightarrow> hi \<le> hi' \<Longrightarrow> fits lo' bs hi'"
  by (induction lo bs hi arbitrary: lo' rule: fits.induct) auto

lemma fits_in: "fits lo bs hi \<Longrightarrow> (a, s, u) \<in> set bs \<Longrightarrow> lo \<le> a \<and> a + 16 + s \<le> hi \<and> a mod 4 = 0 \<and> s mod 4 = 0"
proof (induction lo bs hi rule: fits.induct)
  case (2 lo b t v bs hi)
  then show ?case using fits_le[of "b + 16 + t" bs hi] by auto
qed simp

lemma fits_first: "fits lo bs hi \<Longrightarrow> bs \<noteq> [] \<Longrightarrow> lo \<le> first bs n \<and> first bs n + 16 \<le> hi \<and> first bs n mod 4 = 0"
  using fits_in by (cases bs) fastforce+

text \<open>Words outside the headers do not matter; the first \<open>prev\<close> can be redirected.\<close>

lemma seg_cong:
  "(\<And>a s u k. (a, s, u) \<in> set bs \<Longrightarrow> k \<in> {0, 4, 8, 12} \<Longrightarrow> w' (a + k) = w (a + k)) \<Longrightarrow> seg w' p bs n = seg w p bs n"
proof (induction w p bs n rule: seg.induct)
  case (2 w p a s u bs n)
  have e: "w' a = w a" "w' (a + 4) = w (a + 4)" "w' (a + 8) = w (a + 8)" "w' (a + 12) = w (a + 12)"
    using 2(2)[of a s u 0] 2(2)[of a s u 4] 2(2)[of a s u 8] 2(2)[of a s u 12] by simp_all
  moreover have "seg w' a bs n = seg w a bs n" using 2 by (metis list.set_intros(2))
  ultimately show ?case by simp
qed simp

lemma seg_reprev:
  assumes "seg w p bs n" "fits lo bs hi"
    "\<And>a s u k. (a, s, u) \<in> set bs \<Longrightarrow> k \<in> {0, 4, 8, 12} \<Longrightarrow> a + k \<noteq> first bs 0 + 12 \<Longrightarrow> w' (a + k) = w (a + k)"
    "bs \<noteq> [] \<Longrightarrow> w' (first bs 0 + 12) = of_nat q"
  shows "seg w' q bs n"
proof (cases bs)
  case (Cons b bs')
  obtain a s u where b: "b = (a, s, u)" by (cases b)
  have f: "fits (a + 16 + s) bs' hi" using assms(2) Cons b by simp
  have "seg w' a bs' n = seg w a bs' n"
  proof (rule seg_cong)
    fix a' s' u' and k :: nat assume *: "(a', s', u') \<in> set bs'" "k \<in> {0, 4, 8, 12}"
    then have "a + 16 + s \<le> a'" using fits_in[OF f] by blast
    then show "w' (a' + k) = w (a' + k)" using assms(3)[of a' s' u' k] * Cons b by auto
  qed
  moreover have "w' (a + k) = w (a + k)" if "k \<in> {0, 4, 8}" for k using assms(3)[of a s u k] that Cons b by auto
  from this[of 0] this[of 4] this[of 8] have "w' a = w a" "w' (a + 4) = w (a + 4)" "w' (a + 8) = w (a + 8)" by simp_all
  ultimately show ?thesis using assms(1,4) Cons b by simp
qed simp

text \<open>Replacing a middle part of the list.\<close>

lemma last_addr_nonempty: "bs \<noteq> [] \<Longrightarrow> last_addr p bs = last_addr q bs"
  by (cases bs) auto

lemma end_of_le: "fits lo bs hi \<Longrightarrow> end_of lo bs \<le> hi"
  by (induction lo bs hi rule: fits.induct) auto

lemma fits_before: "fits lo (pre @ rest) hi \<Longrightarrow> (a, s, u) \<in> set pre \<Longrightarrow> a + 16 + s \<le> end_of lo pre"
  using fits_in by (auto simp: fits_append)

lemma seg_replace:
  assumes "seg w p (pre @ mid @ post) 0" "mid \<noteq> []" "mid' \<noteq> []" "first mid' 0 = first mid 0"
    "fits lo pre (end_of lo pre)" "fits (end_of lo pre) mid' m" "fits m post hi" "seg w' (last_addr p pre) mid' (first post 0)"
    "\<And>a s u k. (a, s, u) \<in> set pre \<Longrightarrow> k \<in> {0, 4, 8, 12} \<Longrightarrow> w' (a + k) = w (a + k)"
    "\<And>a s u k. (a, s, u) \<in> set post \<Longrightarrow> k \<in> {0, 4, 8, 12} \<Longrightarrow> a + k \<noteq> first post 0 + 12 \<Longrightarrow> w' (a + k) = w (a + k)"
    "post \<noteq> [] \<Longrightarrow> w' (first post 0 + 12) = of_nat (last_addr 0 mid')"
  shows "seg w' p (pre @ mid' @ post) 0" "fits lo (pre @ mid' @ post) hi"
proof -
  have w: "seg w p pre (first (mid @ post) 0)" "seg w (last_addr (last_addr p pre) mid) post 0"
    using assms(1) by (simp_all add: seg_append)
  have "first (mid' @ post) 0 = first (mid @ post) 0" using assms(2-4) by (cases mid; cases mid') auto
  moreover have "seg w' p pre k = seg w p pre k" for k by (rule seg_cong) (use assms(9) in blast)
  ultimately have "seg w' p pre (first (mid' @ post) 0)" using w(1) by simp
  moreover have "seg w' (last_addr (last_addr p pre) mid') post 0"
  proof (rule seg_reprev[OF w(2) assms(7)])
    show "w' (first post 0 + 12) = of_nat (last_addr (last_addr p pre) mid')" if "post \<noteq> []"
      using assms(11)[OF that] last_addr_nonempty[OF assms(3), of 0 "last_addr p pre"] by simp
  qed (use assms(10) in blast)
  ultimately show "seg w' p (pre @ mid' @ post) 0" using assms(8) by (simp add: seg_append)
  have "fits (end_of (end_of lo pre) mid') post hi" using fits_mono[OF assms(7) end_of_le[OF assms(6)]] by simp
  moreover have "fits (end_of lo pre) mid' (end_of (end_of lo pre) mid')"
    using assms(6) fits_append[of "end_of lo pre" mid' "[]" m] by simp
  ultimately show "fits lo (pre @ mid' @ post) hi" using assms(5) by (simp add: fits_append)
qed

section \<open>Sequences of writes\<close>

text \<open>\<open>becomes h f h' T\<close>: the aligned words of \<open>h'\<close> are \<open>f\<close>, and only bytes in \<open>T\<close> changed.\<close>

definition becomes :: "heap \<Rightarrow> (nat \<Rightarrow> u32) \<Rightarrow> heap \<Rightarrow> nat set \<Rightarrow> bool" where
  "becomes h f h' T \<longleftrightarrow> (\<forall>x. x mod 4 = 0 \<and> x < 2 ^ 32 \<longrightarrow> wd h' x = f x) \<and> (\<forall>x. x < 2 ^ 32 \<and> x \<notin> T \<longrightarrow> byte h' x = byte h x)
     \<and> heap_end h' = heap_end h \<and> heap_start_ptr h' = heap_start_ptr h \<and> frames_of (hvm h') = frames_of (hvm h)"

lemma becomes_refl: "becomes h (wd h) h {}"
  by (simp add: becomes_def)

lemma becomes_poke:
  assumes "becomes h f h' T" "y mod 4 = 0" "y + 3 < 2 ^ 32"
  shows "becomes h (f(y := v)) (poke (of_nat y) v h') (T \<union> {y ..< y + 4})"
  using assms byte_poke[OF _ assms(3), of _ v h'] by (auto simp: becomes_def wd_poke)

lemma becomes_wd: "becomes h f h' T \<Longrightarrow> x mod 4 = 0 \<Longrightarrow> x < 2 ^ 32 \<Longrightarrow> wd h' x = f x"
  by (simp add: becomes_def)

lemma becomes_seg:
  assumes "becomes h f h' T" "fits lo bs hi" "hi \<le> 0x800000"
  shows "seg (wd h') p bs n = seg f p bs n"
proof (rule seg_cong)
  fix a s u and k :: nat assume *: "(a, s, u) \<in> set bs" "k \<in> {0, 4, 8, 12}"
  then have "a + 16 + s \<le> hi" "a mod 4 = 0" using fits_in[OF assms(2)] by blast+
  then show "wd h' (a + k) = f (a + k)" using * assms(3) by (intro becomes_wd[OF assms(1)]) (auto simp: mod_add_eq)
qed

end
