(* ===== verification/Heap_Ops.thy ===== *)
theory Heap_Ops
  imports Heap_List
begin

text \<open>
  The effect of the heap operations on the list of blocks: splitting and taking a block, merging
  with the neighbours, appending new space, and the first-fit search.
\<close>

section \<open>Taking a block\<close>

lemma word_le_of_nat: "x < 2 ^ 32 \<Longrightarrow> y < 2 ^ 32 \<Longrightarrow> (of_nat x :: u32) \<le> of_nat y \<longleftrightarrow> x \<le> y"
  unfolding word_le_nat_alt unat_of_nat by simp

lemma of_nat_sub: "y \<le> x \<Longrightarrow> (of_nat x :: u32) - of_nat y = of_nat (x - y)"
  by (simp add: of_nat_diff)

lemma aligned_fields: "a mod 4 = 0 \<Longrightarrow> (a + 4) mod 4 = 0 \<and> (a + 8) mod 4 = 0 \<and> (a + 12) mod 4 = (0 :: nat) \<and> (a + 16) mod 4 = 0"
  by presburger

lemma split_block_becomes:
  assumes w: "wd h (a + 4) = of_nat s" "wd h (a + 8) = of_nat nx" and al: "a mod 4 = 0" "n mod 4 = 0" "nx mod 4 = 0"
    and b: "a + 16 + s \<le> 0x800000" "n + 20 \<le> s" "nx \<noteq> 0 \<Longrightarrow> a + 16 + s \<le> nx" "nx + 16 \<le> 0x800000"
  defines "nb \<equiv> a + 16 + n"
  shows "\<exists>T. becomes h (((\<lambda>f. if nx \<noteq> 0 then f(nx + 12 := of_nat nb) else f)
        ((wd h)(nb := MAGIC_FREE, nb + 4 := of_nat (s - n - 16), nb + 8 := of_nat nx, nb + 12 := of_nat a)))
        (a + 8 := of_nat nb, a + 4 := of_nat n)) (split_block (of_nat a) (of_nat n) h) T
     \<and> T \<subseteq> {a ..< a + 16 + s} \<union> (if nx = 0 then {} else {nx + 12 ..< nx + 16})"
proof -
  have nb: "nb mod 4 = 0" using al(1,2) unfolding nb_def by presburger
  note m = aligned_fields[OF al(1)] aligned_fields[OF nb] aligned_fields[OF al(3)]
  define h1 where "h1 = poke (of_nat nb) MAGIC_FREE h"
  define h2 where "h2 = poke (of_nat (nb + 4)) (of_nat (s - n - 16)) h1"
  define h3 where "h3 = poke (of_nat (nb + 8)) (of_nat nx) h2"
  define h4 where "h4 = poke (of_nat (nb + 12)) (of_nat a) h3"
  define h5 where "h5 = (if nx \<noteq> 0 then poke (of_nat (nx + 12)) (of_nat nb) h4 else h4)"
  define h6 where "h6 = poke (of_nat (a + 8)) (of_nat nb) h5"
  define h7 where "h7 = poke (of_nat (a + 4)) (of_nat n) h6"
  have lim: "nb + 15 < 2 ^ 32" "a + 15 < 2 ^ 32" "nx + 15 < 2 ^ 32" using b unfolding nb_def by simp_all
  have b1: "becomes h ((wd h)(nb := MAGIC_FREE)) h1 ({} \<union> {nb ..< nb + 4})"
    unfolding h1_def by (rule becomes_poke[OF becomes_refl nb]) (use lim in simp)
  note b2 = becomes_poke[OF b1, of "nb + 4" "of_nat (s - n - 16)", folded h2_def]
  have b2: "becomes h ((wd h)(nb := MAGIC_FREE, nb + 4 := of_nat (s - n - 16))) h2 ({} \<union> {nb ..< nb + 4} \<union> {nb + 4 ..< nb + 4 + 4})"
    using b2 m lim by simp
  note b3 = becomes_poke[OF b2, of "nb + 8" "of_nat nx", folded h3_def]
  have b3: "becomes h ((wd h)(nb := MAGIC_FREE, nb + 4 := of_nat (s - n - 16), nb + 8 := of_nat nx)) h3
     ({} \<union> {nb ..< nb + 4} \<union> {nb + 4 ..< nb + 4 + 4} \<union> {nb + 8 ..< nb + 8 + 4})"
    using b3 m lim by simp
  note b4 = becomes_poke[OF b3, of "nb + 12" "of_nat a", folded h4_def]
  let ?f4 = "(wd h)(nb := MAGIC_FREE, nb + 4 := of_nat (s - n - 16), nb + 8 := of_nat nx, nb + 12 := of_nat a)"
  let ?T4 = "{} \<union> {nb ..< nb + 4} \<union> {nb + 4 ..< nb + 4 + 4} \<union> {nb + 8 ..< nb + 8 + 4} \<union> {nb + 12 ..< nb + 12 + 4}"
  have b4: "becomes h ?f4 h4 ?T4" using b4 m lim by simp
  let ?f5 = "if nx \<noteq> 0 then ?f4(nx + 12 := of_nat nb) else ?f4"
  let ?T5 = "if nx \<noteq> 0 then ?T4 \<union> {nx + 12 ..< nx + 12 + 4} else ?T4"
  have b5: "becomes h ?f5 h5 ?T5"
  proof (cases "nx = 0")
    case True
    then show ?thesis using b4 by (simp only: h5_def simp_thms if_False)
  next
    case False
    have "becomes h (?f4(nx + 12 := of_nat nb)) (poke (of_nat (nx + 12)) (of_nat nb) h4) (?T4 \<union> {nx + 12 ..< nx + 12 + 4})"
      by (rule becomes_poke[OF b4]) (use m lim in auto)
    then show ?thesis using False by (simp only: h5_def simp_thms if_True)
  qed
  note b6 = becomes_poke[OF b5, of "a + 8" "of_nat nb", folded h6_def]
  have b6: "becomes h (?f5(a + 8 := of_nat nb)) h6 (?T5 \<union> {a + 8 ..< a + 8 + 4})" using b6 m lim by simp
  note b7 = becomes_poke[OF b6, of "a + 4" "of_nat n", folded h7_def]
  have b7: "becomes h (?f5(a + 8 := of_nat nb, a + 4 := of_nat n)) h7 (?T5 \<union> {a + 8 ..< a + 8 + 4} \<union> {a + 4 ..< a + 4 + 4})"
    using b7 m lim by simp
  have ne: "a + 4 \<noteq> nb" "a + 8 \<noteq> nb" "a + 8 \<noteq> nb + 4" "a + 8 \<noteq> nb + 8" "a + 8 \<noteq> nb + 12" unfolding nb_def by simp_all
  have v1: "word_at h1 (of_nat a + 4) = of_nat s"
    using becomes_wd[OF b1, of "a + 4"] m lim w(1) ne by (simp add: fields)
  have v2: "word_at h2 (of_nat a + 8) = of_nat nx" "word_at h4 (of_nat a + 8) = of_nat nx"
    using becomes_wd[OF b2, of "a + 8"] becomes_wd[OF b4, of "a + 8"] m lim w(2) ne by (simp_all add: fields)
  have nx0: "(of_nat nx :: u32) = 0 \<longleftrightarrow> nx = 0" using of_nat_inj[of nx 0] lim by simp
  have addr: "of_nat a + 16 + of_nat n = (of_nat nb :: u32)" by (simp add: nb_def)
  have val: "(of_nat s :: u32) - of_nat n - 16 = of_nat (s - n - 16)" using b(2) by (simp add: of_nat_diff)
  have "(of_nat (n + 20) :: u32) \<le> of_nat s" using word_le_of_nat[of "n + 20" s] b by simp
  then have cond: "(of_nat n + 16 + 4 :: u32) \<le> word_at h (of_nat a + 4)" using w(1) by (simp add: fields ac_simps)
  have eq: "split_block (of_nat a) (of_nat n) h = h7"
    unfolding split_block_def HEADER_SIZE_def Let_def if_P[OF cond] addr
    by (simp only: h1_def[symmetric] v1 val pokes h2_def[symmetric] v2 h3_def[symmetric] h4_def[symmetric] nx0
        h5_def[symmetric] h6_def[symmetric] h7_def[symmetric])
  have sub: "?T5 \<union> {a + 8 ..< a + 8 + 4} \<union> {a + 4 ..< a + 4 + 4} \<subseteq> {a ..< a + 16 + s} \<union> (if nx = 0 then {} else {nx + 12 ..< nx + 16})"
    using b(2) by (auto simp: nb_def)
  show ?thesis unfolding eq by (intro exI conjI, rule b7, rule sub)
qed

text \<open>The block list after a first fit of \<open>n\<close> bytes in a free block of \<open>s\<close> bytes at \<open>a\<close>.\<close>

definition taken :: "nat \<Rightarrow> nat \<Rightarrow> nat \<Rightarrow> block list" where
  "taken a s n = (if n + 20 \<le> s then [(a, n, True), (a + 16 + n, s - n - 16, False)] else [(a, s, True)])"

lemma first_0: "fits lo bs hi \<Longrightarrow> 0 < lo \<Longrightarrow> first bs 0 = 0 \<longleftrightarrow> bs = []"
  using fits_first[of lo bs hi 0] by (cases bs) auto

lemma first_bounds: "fits lo bs hi \<Longrightarrow> hi \<le> 0x800000 \<Longrightarrow> first bs 0 mod 4 = 0 \<and> first bs 0 + 16 \<le> 0x800000"
  using fits_first[of lo bs hi 0] by (cases bs) auto

lemma take_block_spec:
  assumes sg: "seg (wd h) p (pre @ (a, s, False) # post) 0" and ft: "fits lo (pre @ (a, s, False) # post) hi"
    and b: "0 < lo" "hi \<le> 0x800000" "n \<le> s" "n mod 4 = 0"
  shows "\<exists>f h' T. take_block (of_nat a) (of_nat n) h = (of_nat (a + 16), h') \<and> becomes h f h' T
     \<and> T \<subseteq> {a ..< a + 16 + s} \<union> (if post = [] then {} else {first post 0 + 12 ..< first post 0 + 16})
     \<and> seg (wd h') p (pre @ taken a s n @ post) 0 \<and> fits lo (pre @ taken a s n @ post) hi"
proof -
  let ?nx = "first post 0" and ?nb = "a + 16 + n"
  have mid: "wd h a = magic_of False" "wd h (a + 4) = of_nat s" "wd h (a + 8) = of_nat ?nx" "wd h (a + 12) = of_nat (last_addr p pre)"
    using sg by (auto simp: seg_append)
  have f: "fits lo pre (end_of lo pre)" "end_of lo pre \<le> a" "a mod 4 = 0" "s mod 4 = 0" "fits (a + 16 + s) post hi"
    using ft by (auto simp: fits_append)
  have hi: "a + 16 + s \<le> 0x800000" using fits_le[OF f(5)] b(2) by simp
  note fb = first_bounds[OF f(5) b(2)]
  have nx0: "?nx = 0 \<longleftrightarrow> post = []" using first_0[OF f(5)] by simp
  have nxge: "?nx \<noteq> 0 \<Longrightarrow> a + 16 + s \<le> ?nx" using fits_first[OF f(5), of 0] nx0 by simp
  have "\<exists>f T. becomes h f (split_block (of_nat a) (of_nat n) h) T \<and> T \<subseteq> {a ..< a + 16 + s} \<union> (if post = [] then {} else {?nx + 12 ..< ?nx + 16})
     \<and> (\<forall>x. x < a \<or> a + 16 + s \<le> x \<and> (post \<noteq> [] \<longrightarrow> x \<noteq> ?nx + 12) \<longrightarrow> f x = wd h x)
     \<and> seg (f(a := MAGIC_USED)) (last_addr p pre) (taken a s n) ?nx
     \<and> (post \<noteq> [] \<longrightarrow> f (?nx + 12) = of_nat (last_addr 0 (taken a s n)))"
  proof (cases "n + 20 \<le> s")
    case True
    from split_block_becomes[OF mid(2,3) f(3) b(4) conjunct1[OF fb] hi True nxge conjunct2[OF fb]] obtain T where
      T: "becomes h (((\<lambda>f. if ?nx \<noteq> 0 then f(?nx + 12 := of_nat ?nb) else f)
        ((wd h)(?nb := MAGIC_FREE, ?nb + 4 := of_nat (s - n - 16), ?nb + 8 := of_nat ?nx, ?nb + 12 := of_nat a)))
        (a + 8 := of_nat ?nb, a + 4 := of_nat n)) (split_block (of_nat a) (of_nat n) h) T"
        "T \<subseteq> {a ..< a + 16 + s} \<union> (if ?nx = 0 then {} else {?nx + 12 ..< ?nx + 16})" by blast
    show ?thesis
      by (intro exI conjI, rule T(1))
        (use T(2) True mid nx0 nxge in \<open>auto simp: taken_def magic_of_def\<close>)
  next
    case False
    then have "\<not> of_nat (n + 20) \<le> (of_nat s :: u32)" using word_le_of_nat[of "n + 20" s] b hi by simp
    then have "split_block (of_nat a) (of_nat n) h = h"
      using mid(2) by (simp add: split_block_def HEADER_SIZE_def fields ac_simps)
    then show ?thesis
      using False mid sg by (intro exI[of _ "wd h"] exI[of _ "{}"]) (auto simp: becomes_refl taken_def magic_of_def seg_append elim: seg.elims)
  qed
  then obtain f T where *: "becomes h f (split_block (of_nat a) (of_nat n) h) T"
    "T \<subseteq> {a ..< a + 16 + s} \<union> (if post = [] then {} else {?nx + 12 ..< ?nx + 16})"
    "\<And>x. x < a \<or> a + 16 + s \<le> x \<and> (post \<noteq> [] \<longrightarrow> x \<noteq> ?nx + 12) \<Longrightarrow> f x = wd h x"
    "seg (f(a := MAGIC_USED)) (last_addr p pre) (taken a s n) ?nx" "post \<noteq> [] \<Longrightarrow> f (?nx + 12) = of_nat (last_addr 0 (taken a s n))"
    by blast
  let ?h' = "poke (of_nat a) MAGIC_USED (split_block (of_nat a) (of_nat n) h)"
  have bc: "becomes h (f(a := MAGIC_USED)) ?h' (T \<union> {a ..< a + 4})" by (rule becomes_poke[OF *(1) f(3)]) (use hi in simp)
  have t: "taken a s n \<noteq> []" "first (taken a s n) 0 = first [(a, s, False)] 0" "fits (end_of lo pre) (taken a s n) (a + 16 + s)"
    using f(2-4) b(3,4) by (auto simp: taken_def mod_add_eq)
  have pre: "(f(a := MAGIC_USED)) (x + k) = wd h (x + k)" if "(x, y, u) \<in> set pre" "k \<in> {0, 4, 8, 12}" for x y u and k :: nat
    using fits_before[OF ft that(1)] f(2) *(3)[of "x + k"] that(2) by auto
  have post: "(f(a := MAGIC_USED)) (x + k) = wd h (x + k)" if "(x, y, u) \<in> set post" "k \<in> {0, 4, 8, 12}" "x + k \<noteq> ?nx + 12" for x y u and k :: nat
    using fits_in[OF f(5) that(1)] *(3)[of "x + k"] that(3) by auto
  have prev: "(f(a := MAGIC_USED)) (?nx + 12) = of_nat (last_addr 0 (taken a s n))" if "post \<noteq> []"
    using *(5)[OF that] nxge nx0 that by auto
  have sg': "seg (wd h) p (pre @ [(a, s, False)] @ post) 0" using sg by simp
  have ne: "[(a, s, False)] \<noteq> []" by simp
  have fits': "fits lo (pre @ taken a s n @ post) hi" and sgf: "seg (f(a := MAGIC_USED)) p (pre @ taken a s n @ post) 0"
    using seg_replace[OF sg' ne t(1,2) f(1) t(3) f(5) *(4)] pre post prev by blast+
  moreover have "seg (wd ?h') p (pre @ taken a s n @ post) 0" using becomes_seg[OF bc fits' b(2)] sgf by blast
  moreover have "take_block (of_nat a) (of_nat n) h = (of_nat (a + 16), ?h')" by (simp add: take_block_def HEADER_SIZE_def)
  moreover have "T \<union> {a ..< a + 4} \<subseteq> {a ..< a + 16 + s} \<union> (if post = [] then {} else {?nx + 12 ..< ?nx + 16})" using *(2) by auto
  ultimately show ?thesis using bc by blast
qed

section \<open>The first fit\<close>

fun find_fit :: "nat \<Rightarrow> block list \<Rightarrow> (block list \<times> nat \<times> nat \<times> block list) option" where
  "find_fit n [] = None"
| "find_fit n ((a, s, u) # bs) =
     (if \<not> u \<and> n \<le> s then Some ([], a, s, bs)
      else case find_fit n bs of None \<Rightarrow> None | Some (pre, x) \<Rightarrow> Some ((a, s, u) # pre, x))"

lemma find_fit_Some: "find_fit n bs = Some (pre, a, s, post) \<Longrightarrow> bs = pre @ (a, s, False) # post \<and> n \<le> s"
  by (induction n bs arbitrary: pre rule: find_fit.induct) (auto split: if_splits option.splits)

lemma find_fit_None: "find_fit n bs = None \<longleftrightarrow> (\<forall>(a, s, u) \<in> set bs. u \<or> s < n)"
  by (induction n bs rule: find_fit.induct) (auto split: option.splits)

lemma magic_simps [simp]:
  "magic_of u = MAGIC_FREE \<longleftrightarrow> \<not> u" "magic_of u = MAGIC_USED \<longleftrightarrow> u"
  by (simp_all add: magic_of_def MAGIC_FREE_def MAGIC_USED_def)

lemma kmalloc_scan_spec:
  assumes "seg (wd h) p bs 0" "fits lo bs hi" "0 < lo" "hi \<le> 0x800000" "n < 2 ^ 32"
  shows "kmalloc_scan (of_nat (first bs 0)) (of_nat n) h =
     Some (case find_fit n bs of None \<Rightarrow> NoFit | Some (pre, a, s, post) \<Rightarrow> Fit (of_nat a))"
  using assms(1-3)
proof (induction bs arbitrary: p lo)
  case Nil
  then show ?case by (subst kmalloc_scan.simps) simp
next
  case (Cons b bs)
  obtain a s u where b: "b = (a, s, u)" by (cases b)
  have w: "wd h a = magic_of u" "wd h (a + 4) = of_nat s" "wd h (a + 8) = of_nat (first bs 0)" "seg (wd h) a bs 0"
    and f: "lo \<le> a" "fits (a + 16 + s) bs hi" using Cons.prems b by auto
  have "a + 16 + s \<le> 0x800000" using fits_le[OF f(2)] assms(4) by simp
  then have a: "(of_nat a :: u32) \<noteq> 0" "(of_nat n :: u32) \<le> of_nat s \<longleftrightarrow> n \<le> s"
    using of_nat_inj[of a 0] f(1) Cons.prems(3) word_le_of_nat[of n s] assms(5) by auto
  have "kmalloc_scan (of_nat (first bs 0)) (of_nat n) h =
     Some (case find_fit n bs of None \<Rightarrow> NoFit | Some (pre, a, s, post) \<Rightarrow> Fit (of_nat a))"
    by (rule Cons.IH[OF w(4) f(2)]) simp
  then show ?case using a w b by (subst kmalloc_scan.simps) (auto simp: fields split: option.splits)
qed

lemma find_tail_spec:
  assumes "seg (wd h) p bs 0" "fits lo bs hi" "0 < lo" "hi \<le> 0x800000"
  shows "find_tail (of_nat (first bs 0)) h = Some (of_nat (if bs = [] then 0 else last_addr 0 bs))"
  using assms(1-3)
proof (induction bs arbitrary: p lo)
  case Nil
  then show ?case by (subst find_tail.simps) simp
next
  case (Cons b bs)
  obtain a s u where b: "b = (a, s, u)" by (cases b)
  have w: "wd h (a + 8) = of_nat (first bs 0)" "seg (wd h) a bs 0" and f: "lo \<le> a" "fits (a + 16 + s) bs hi"
    using Cons.prems b by auto
  have "a + 16 + s \<le> 0x800000" using fits_le[OF f(2)] assms(4) by simp
  then have a: "(of_nat a :: u32) \<noteq> 0" using of_nat_inj[of a 0] f(1) Cons.prems(3) by auto
  have n: "(of_nat (first bs 0) :: u32) = 0 \<longleftrightarrow> bs = []"
    using of_nat_inj[of "first bs 0" 0] first_0[OF f(2)] first_bounds[OF f(2) assms(4)] by auto
  have IH: "find_tail (of_nat (first bs 0)) h = Some (of_nat (if bs = [] then 0 else last_addr 0 bs))"
    by (rule Cons.IH[OF w(2) f(2)]) simp
  show ?case
  proof (cases "bs = []")
    case True
    then show ?thesis using a w(1) b by (subst find_tail.simps) (simp add: fields)
  next
    case False
    then show ?thesis using a w(1) b n IH last_addr_nonempty[OF False, of a 0] by (subst find_tail.simps) (simp add: fields)
  qed
qed

section \<open>Merging\<close>

lemma merge_next_spec:
  assumes sg: "seg (wd h) p (pre @ (a, s, False) # (b, t, False) # post) 0" and ft: "fits lo (pre @ (a, s, False) # (b, t, False) # post) hi"
    and bd: "0 < lo" "hi \<le> 0x800000"
  shows "\<exists>f T. becomes h f (merge_next (of_nat a) h) T
     \<and> T \<subseteq> {a ..< a + 16} \<union> (if post = [] then {} else {first post 0 + 12 ..< first post 0 + 16})
     \<and> seg (wd (merge_next (of_nat a) h)) p (pre @ (a, s + 16 + t, False) # post) 0 \<and> fits lo (pre @ (a, s + 16 + t, False) # post) hi"
proof -
  let ?nx = "first post 0"
  have w: "wd h a = magic_of False" "wd h (a + 4) = of_nat s" "wd h (a + 8) = of_nat b" "wd h (a + 12) = of_nat (last_addr p pre)"
    "wd h b = magic_of False" "wd h (b + 4) = of_nat t" "wd h (b + 8) = of_nat ?nx"
    using sg by (auto simp: seg_append)
  have f: "fits lo pre (end_of lo pre)" "end_of lo pre \<le> a" "a mod 4 = 0" "s mod 4 = 0" "a + 16 + s \<le> b" "b mod 4 = 0" "t mod 4 = 0"
    "fits (b + 16 + t) post hi"
    using ft by (auto simp: fits_append)
  have hi: "b + 16 + t \<le> 0x800000" using fits_le[OF f(8)] bd(2) by simp
  note fb = first_bounds[OF f(8) bd(2)]
  have nx0: "?nx = 0 \<longleftrightarrow> post = []" using first_0[OF f(8)] by simp
  have nxge: "post \<noteq> [] \<Longrightarrow> b + 16 + t \<le> ?nx" using fits_first[OF f(8), of 0] by simp
  note m = aligned_fields[OF f(3)] aligned_fields[OF f(6)] aligned_fields[OF conjunct1[OF fb]]
  define h1 where "h1 = poke (of_nat (a + 4)) (of_nat (s + 16 + t)) h"
  define h2 where "h2 = poke (of_nat (a + 8)) (of_nat ?nx) h1"
  define h3 where "h3 = (if ?nx \<noteq> 0 then poke (of_nat (?nx + 12)) (of_nat a) h2 else h2)"
  let ?f2 = "(wd h)(a + 4 := of_nat (s + 16 + t), a + 8 := of_nat ?nx)"
  let ?f = "if ?nx \<noteq> 0 then ?f2(?nx + 12 := of_nat a) else ?f2"
  let ?T2 = "{} \<union> {a + 4 ..< a + 4 + 4} \<union> {a + 8 ..< a + 8 + 4}"
  let ?T = "if ?nx \<noteq> 0 then ?T2 \<union> {?nx + 12 ..< ?nx + 12 + 4} else ?T2"
  have b1: "becomes h ((wd h)(a + 4 := of_nat (s + 16 + t))) h1 ({} \<union> {a + 4 ..< a + 4 + 4})"
    unfolding h1_def by (rule becomes_poke[OF becomes_refl]) (use m hi f in auto)
  have b2: "becomes h ?f2 h2 ?T2" unfolding h2_def by (rule becomes_poke[OF b1]) (use m hi f in auto)
  have b3: "becomes h ?f h3 ?T"
  proof (cases "?nx = 0")
    case True
    then show ?thesis using b2 by (simp only: h3_def simp_thms if_False)
  next
    case False
    have "becomes h (?f2(?nx + 12 := of_nat a)) (poke (of_nat (?nx + 12)) (of_nat a) h2) (?T2 \<union> {?nx + 12 ..< ?nx + 12 + 4})"
      by (rule becomes_poke[OF b2]) (use m fb in auto)
    then show ?thesis using False by (simp only: h3_def simp_thms if_True)
  qed
  have z: "(of_nat b :: u32) \<noteq> 0" "(of_nat ?nx :: u32) = 0 \<longleftrightarrow> ?nx = 0"
    using of_nat_inj[of b 0] of_nat_inj[of ?nx 0] hi fb f(5) by auto
  have v0: "word_at h (of_nat a + 8) = of_nat b" "word_at h (of_nat a + 4) = of_nat s" "word_at h (of_nat b) = MAGIC_FREE"
    "word_at h (of_nat b + 4) = of_nat t" using w by (simp_all add: fields magic_of_def)
  have v1: "word_at h1 (of_nat a + 8) = of_nat b" "word_at h1 (of_nat b + 8) = of_nat ?nx"
    using becomes_wd[OF b1, of "a + 8"] becomes_wd[OF b1, of "b + 8"] m hi f(5) w(3,7) by (auto simp: fields)
  have v2: "word_at h2 (of_nat a + 8) = of_nat ?nx" using becomes_wd[OF b2, of "a + 8"] m hi f(5) by (auto simp: fields)
  have val: "(of_nat s :: u32) + (16 + of_nat t) = of_nat (s + 16 + t)" by simp
  have eq: "merge_next (of_nat a) h = h3"
    unfolding merge_next_def HEADER_SIZE_def v0 Let_def
    by (simp only: z simp_thms if_True val pokes h1_def[symmetric] v1 h2_def[symmetric] v2 h3_def[symmetric])
  have mid: "seg ?f (last_addr p pre) [(a, s + 16 + t, False)] ?nx" using w(1,4) nxge nx0 f(5) by auto
  have keep: "?f x = wd h x" if "x < a \<or> a + 16 \<le> x" "post \<noteq> [] \<Longrightarrow> x \<noteq> ?nx + 12" for x using that nx0 by auto
  have sg': "seg (wd h) p (pre @ [(a, s, False), (b, t, False)] @ post) 0" using sg by simp
  have fm: "fits (end_of lo pre) [(a, s + 16 + t, False)] (b + 16 + t)" using f by (auto simp: mod_add_eq)
  have ne: "[(a, s, False), (b, t, False)] \<noteq> []" "[(a, s + 16 + t, False)] \<noteq> []"
    "first [(a, s + 16 + t, False)] 0 = first [(a, s, False), (b, t, False)] 0" by simp_all
  note r = seg_replace[OF sg' ne f(1) fm f(8) mid]
  have pre: "?f (x + k) = wd h (x + k)" if "(x, y, u) \<in> set pre" "k \<in> {0, 4, 8, 12}" for x y u and k :: nat
    using fits_before[OF ft that(1)] f(2,5) that(2) nxge by (intro keep) auto
  have post: "?f (x + k) = wd h (x + k)" if "(x, y, u) \<in> set post" "k \<in> {0, 4, 8, 12}" "x + k \<noteq> ?nx + 12" for x y u and k :: nat
    using fits_in[OF f(8) that(1)] that(3) f(5) by (intro keep) auto
  have prev: "?f (?nx + 12) = of_nat (last_addr 0 [(a, s + 16 + t, False)])" if "post \<noteq> []" using that nx0 by simp
  have fit': "fits lo (pre @ [(a, s + 16 + t, False)] @ post) hi" and sg2: "seg ?f p (pre @ [(a, s + 16 + t, False)] @ post) 0"
    using r pre post prev by blast+
  have "seg (wd h3) p (pre @ [(a, s + 16 + t, False)] @ post) 0" using becomes_seg[OF b3 fit' bd(2)] sg2 by blast
  moreover have "?T \<subseteq> {a ..< a + 16} \<union> (if post = [] then {} else {?nx + 12 ..< ?nx + 16})" using nx0 by auto
  ultimately show ?thesis unfolding eq using b3 fit' by (intro exI[of _ ?f] exI[of _ ?T]) simp
qed

end
