(* ===== verification/Stdio.thy ===== *)
theory Stdio
  imports Bootcfg
begin

text \<open>
  The printf family of the user library (user/lib/nosstdio.c). The formatter reaches its output only
  through \<open>s->put\<close>, one character at a time, so it is modelled by the characters it puts; the two sinks
  consume them. The variable arguments are a list; \<open>None\<close> is a call whose arguments do not match the
  format, or a negated width that overflows, which C leaves undefined. Other widths, precisions and
  counts are mathematical integers.
\<close>

section \<open>Specifications\<close>

record spec =
  sp_left :: bool
  sp_zero :: bool
  sp_plus :: bool
  sp_space :: bool
  sp_width :: int
  sp_prec :: int

datatype arg = ArgInt u32 | ArgStr "u8 list option"

definition spec0 :: spec where
  "spec0 = \<lparr>sp_left = False, sp_zero = False, sp_plus = False, sp_space = False, sp_width = -1, sp_prec = -1\<rparr>"

definition pad :: "u8 \<Rightarrow> int \<Rightarrow> u8 list" where
  "pad c n = replicate (nat n) c"

definition digit_set :: "bool \<Rightarrow> u8 list" where
  "digit_set upper = bytes (if upper then ''0123456789ABCDEF'' else ''0123456789abcdef'')"

text \<open>\<open>digits\<close> holds the digits from the last one on.\<close>

function num_digits :: "u32 \<Rightarrow> u32 \<Rightarrow> bool \<Rightarrow> u8 list" where
  "num_digits v base upper =
     (if v \<noteq> 0 \<and> 1 < base then digit_set upper ! unat (v mod base) # num_digits (v div base) base upper else [])"
  by pat_completeness auto
termination
proof (relation "measure (\<lambda>(v, base, upper). unat v)", goal_cases)
  case (2 v base upper)
  then have "0 < unat v" "1 < unat base" by (simp_all add: unat_gt_0 word_less_nat_alt)
  then show ?case by (simp add: unat_div)
qed simp

declare num_digits.simps [simp del]

definition emit_number :: "spec \<Rightarrow> u32 \<Rightarrow> u32 \<Rightarrow> bool \<Rightarrow> u8 \<Rightarrow> u8 list \<Rightarrow> u8 list" where
  "emit_number sp v base upper sign prefix =
     (let digits = (if v = 0 then if sp_prec sp \<noteq> 0 then [48] else [] else num_digits v base upper);
          nd = int (length digits);
          zeros = (if sp_prec sp > nd then sp_prec sp - nd else 0);
          plen = int (length prefix);
          total_len = nd + zeros + plen + (if sign \<noteq> 0 then 1 else 0);
          fill = (if sp_width sp > total_len then sp_width sp - total_len else 0);
          zero_pad = (sp_zero sp \<and> \<not> sp_left sp \<and> sp_prec sp < 0)
      in (if \<not> sp_left sp \<and> \<not> zero_pad then pad 32 fill else [])
         @ (if sign \<noteq> 0 then [sign] else []) @ prefix
         @ (if zero_pad then pad 48 fill else []) @ pad 48 zeros @ rev digits
         @ (if sp_left sp then pad 32 fill else []))"

definition emit_string :: "spec \<Rightarrow> u8 list option \<Rightarrow> u8 list" where
  "emit_string sp str =
     (let str = (case str of None \<Rightarrow> bytes ''(null)'' | Some s \<Rightarrow> s);
          shown = (if sp_prec sp < 0 then str else take (nat (sp_prec sp)) str);
          n = int (length shown);
          fill = (if sp_width sp > n then sp_width sp - n else 0)
      in (if \<not> sp_left sp then pad 32 fill else []) @ shown @ (if sp_left sp then pad 32 fill else []))"

section \<open>Parsing a conversion\<close>

fun parse_flags :: "u8 list \<Rightarrow> spec \<Rightarrow> u8 list \<times> spec" where
  "parse_flags [] sp = ([], sp)"
| "parse_flags (c # fmt) sp =
     (if c = 45 then parse_flags fmt (sp\<lparr>sp_left := True\<rparr>)
      else if c = 48 then parse_flags fmt (sp\<lparr>sp_zero := True\<rparr>)
      else if c = 43 then parse_flags fmt (sp\<lparr>sp_plus := True\<rparr>)
      else if c = 32 then parse_flags fmt (sp\<lparr>sp_space := True\<rparr>)
      else (c # fmt, sp))"

definition is_digit :: "u8 \<Rightarrow> bool" where
  "is_digit c \<longleftrightarrow> 48 \<le> c \<and> c \<le> 57"

fun width_digits :: "u8 list \<Rightarrow> int \<Rightarrow> u8 list \<times> int" where
  "width_digits [] w = ([], w)"
| "width_digits (c # fmt) w =
     (if is_digit c then
        let w = (if w < 0 then 0 else w); w = (if w < 100000 then w * 10 + int (unat (c - 48)) else w)
        in width_digits fmt w
      else (c # fmt, w))"

fun prec_digits :: "u8 list \<Rightarrow> int \<Rightarrow> u8 list \<times> int" where
  "prec_digits [] p = ([], p)"
| "prec_digits (c # fmt) p =
     (if is_digit c then prec_digits fmt (if p < 100000 then p * 10 + int (unat (c - 48)) else p) else (c # fmt, p))"

fun va_int :: "arg list \<Rightarrow> (u32 \<times> arg list) option" where
  "va_int (ArgInt v # ap) = Some (v, ap)"
| "va_int ap = None"

fun va_str :: "arg list \<Rightarrow> (u8 list option \<times> arg list) option" where
  "va_str (ArgStr s # ap) = Some (s, ap)"
| "va_str ap = None"

definition parse_width :: "u8 list \<Rightarrow> spec \<Rightarrow> arg list \<Rightarrow> (u8 list \<times> spec \<times> arg list) option" where
  "parse_width fmt sp ap =
     (case fmt of
        [] \<Rightarrow> Some (fmt, sp, ap)
      | c # rest \<Rightarrow>
          if c = 42 then
            case va_int ap of None \<Rightarrow> None
            | Some (v, ap) \<Rightarrow>
                let w = sint v in
                if w = - (2 ^ 31) then None
                else Some (rest, if w < 0 then sp\<lparr>sp_left := True, sp_width := - w\<rparr> else sp\<lparr>sp_width := w\<rparr>, ap)
          else let (fmt, w) = width_digits fmt (sp_width sp) in Some (fmt, sp\<lparr>sp_width := w\<rparr>, ap))"

definition parse_prec :: "u8 list \<Rightarrow> spec \<Rightarrow> arg list \<Rightarrow> (u8 list \<times> spec \<times> arg list) option" where
  "parse_prec fmt sp ap =
     (case fmt of
        [] \<Rightarrow> Some (fmt, sp, ap)
      | c # rest \<Rightarrow>
          if c \<noteq> 46 then Some (fmt, sp, ap)
          else case rest of
              [] \<Rightarrow> Some ([], sp\<lparr>sp_prec := 0\<rparr>, ap)
            | d # rest' \<Rightarrow>
                if d = 42 then
                  case va_int ap of None \<Rightarrow> None
                  | Some (v, ap) \<Rightarrow> Some (rest', sp\<lparr>sp_prec := (if sint v < 0 then -1 else sint v)\<rparr>, ap)
                else let (fmt, p) = prec_digits rest 0 in Some (fmt, sp\<lparr>sp_prec := p\<rparr>, ap))"

datatype len_mod = LenNone | LenH | LenHH | LenL | LenLL

fun parse_length :: "u8 list \<Rightarrow> u8 list \<times> len_mod" where
  "parse_length (c # fmt) =
     (if c = 104 then case fmt of d # rest \<Rightarrow> if d = 104 then (rest, LenHH) else (fmt, LenH) | [] \<Rightarrow> ([], LenH)
      else if c = 108 then case fmt of d # rest \<Rightarrow> if d = 108 then (rest, LenLL) else (fmt, LenL) | [] \<Rightarrow> ([], LenL)
      else (c # fmt, LenNone))"
| "parse_length [] = ([], LenNone)"

section \<open>Conversions\<close>

definition narrow_signed :: "len_mod \<Rightarrow> u32 \<Rightarrow> int" where
  "narrow_signed lm v = (case lm of LenH \<Rightarrow> sint (ucast v :: u16) | LenHH \<Rightarrow> sint (ucast v :: u8) | _ \<Rightarrow> sint v)"

definition narrow_unsigned :: "len_mod \<Rightarrow> u32 \<Rightarrow> u32" where
  "narrow_unsigned lm v = (case lm of LenH \<Rightarrow> ucast (ucast v :: u16) | LenHH \<Rightarrow> ucast (ucast v :: u8) | _ \<Rightarrow> v)"

text \<open>The switch over the conversion character; \<open>literal\<close> is the text of the specification, from the
  percent sign to the conversion character.\<close>

definition convert :: "spec \<Rightarrow> len_mod \<Rightarrow> u8 \<Rightarrow> u8 list \<Rightarrow> arg list \<Rightarrow> (u8 list \<times> arg list) option" where
  "convert sp lm c literal ap =
     (let c = (if lm = LenLL \<and> c \<in> set (bytes ''diuxX'') then 63 else c) in
      if c = 100 \<or> c = 105 then
        case va_int ap of None \<Rightarrow> None
        | Some (v, ap) \<Rightarrow>
            let n = narrow_signed lm v; mag = (if n < 0 then 0 - word_of_int n else word_of_int n);
                sign = (if n < 0 then 45 else if sp_plus sp then 43 else if sp_space sp then 32 else 0)
            in Some (emit_number sp mag 10 False sign [], ap)
      else if c = 117 \<or> c = 120 \<or> c = 88 then
        case va_int ap of None \<Rightarrow> None
        | Some (v, ap) \<Rightarrow>
            Some (emit_number sp (narrow_unsigned lm v) (if c = 117 then 10 else 16) (c = 88) 0 [], ap)
      else if c = 112 then
        case va_int ap of None \<Rightarrow> None
        | Some (v, ap) \<Rightarrow> Some (emit_number (sp\<lparr>sp_prec := -1\<rparr>) v 16 False 0 (bytes ''0x''), ap)
      else if c = 99 then
        case va_int ap of None \<Rightarrow> None
        | Some (v, ap) \<Rightarrow>
            let fill = (if sp_width sp > 1 then sp_width sp - 1 else 0)
            in Some ((if \<not> sp_left sp then pad 32 fill else []) @ [ucast v] @ (if sp_left sp then pad 32 fill else []), ap)
      else if c = 115 then
        case va_str ap of None \<Rightarrow> None | Some (s, ap) \<Rightarrow> Some (emit_string sp s, ap)
      else if c = 37 then Some ([37], ap)
      else Some (literal, ap))"

definition parse_spec :: "u8 list \<Rightarrow> arg list \<Rightarrow> (u8 list \<times> spec \<times> len_mod \<times> arg list) option" where
  "parse_spec fmt ap =
     (let (fmt, sp) = parse_flags fmt spec0 in
      case parse_width fmt sp ap of None \<Rightarrow> None
      | Some (fmt, sp, ap) \<Rightarrow>
          case parse_prec fmt sp ap of None \<Rightarrow> None
          | Some (fmt, sp, ap) \<Rightarrow> let (fmt, lm) = parse_length fmt in Some (fmt, sp, lm, ap))"

lemma parse_lengths:
  "length (fst (parse_flags fmt sp)) \<le> length fmt" "length (fst (width_digits fmt w)) \<le> length fmt"
  "length (fst (prec_digits fmt w)) \<le> length fmt" "length (fst (parse_length fmt)) \<le> length fmt"
proof -
  show "length (fst (parse_flags fmt sp)) \<le> length fmt" by (induction fmt sp rule: parse_flags.induct) (auto simp: le_SucI)
  show "length (fst (width_digits fmt w)) \<le> length fmt" by (induction fmt w rule: width_digits.induct) (auto simp: Let_def le_SucI)
  show "length (fst (prec_digits fmt w)) \<le> length fmt" by (induction fmt w rule: prec_digits.induct) (auto simp: le_SucI)
  show "length (fst (parse_length fmt)) \<le> length fmt" by (cases fmt rule: parse_length.cases) (auto split: list.splits)
qed

lemma parse_width_length: "parse_width fmt sp ap = Some (rest, sp', ap') \<Longrightarrow> length rest \<le> length fmt"
  using parse_lengths(2)[of fmt "sp_width sp"]
  by (auto simp: parse_width_def Let_def split: list.splits if_splits option.splits prod.splits)

lemma parse_prec_length: "parse_prec fmt sp ap = Some (rest, sp', ap') \<Longrightarrow> length rest \<le> length fmt"
  using parse_lengths(3)[of "tl fmt" 0]
  by (auto simp: parse_prec_def Let_def split: list.splits if_splits option.splits prod.splits)

lemma parse_spec_length:
  assumes "parse_spec fmt ap = Some (rest, sp, lm, ap')"
  shows "length rest \<le> length fmt"
proof -
  obtain f1 s1 where 1: "parse_flags fmt spec0 = (f1, s1)" by fastforce
  obtain f2 s2 a2 where 2: "parse_width f1 s1 ap = Some (f2, s2, a2)" using assms 1 by (auto simp: parse_spec_def split: option.splits)
  obtain f3 s3 a3 where 3: "parse_prec f2 s2 a2 = Some (f3, s3, a3)" using assms 1 2 by (auto simp: parse_spec_def split: option.splits)
  have "rest = fst (parse_length f3)" using assms 1 2 3 by (auto simp: parse_spec_def split: prod.splits)
  then show ?thesis
    using parse_lengths(1)[of fmt spec0] parse_lengths(4)[of f3] parse_width_length[OF 2] parse_prec_length[OF 3] 1 by simp
qed

text \<open>The characters \<open>format\<close> puts.\<close>

function format :: "u8 list \<Rightarrow> arg list \<Rightarrow> u8 list option" where
  "format [] ap = Some []"
| "format (c # fmt) ap =
     (if c \<noteq> 37 then map_option (\<lambda>out. c # out) (format fmt ap)
      else case parse_spec fmt ap of None \<Rightarrow> None
        | Some ([], sp, lm, ap) \<Rightarrow> Some (c # fmt)
        | Some (d # rest, sp, lm, ap) \<Rightarrow>
            (case convert sp lm d (c # take (length fmt - length rest) fmt) ap of None \<Rightarrow> None
             | Some (out, ap) \<Rightarrow> map_option (\<lambda>more. out @ more) (format rest ap)))"
  by pat_completeness auto
termination
  by (relation "measure (\<lambda>(fmt, ap). length fmt)") (auto dest!: parse_spec_length)

section \<open>Sinks\<close>

text \<open>\<open>put_mem\<close>: the memory behind \<open>buf\<close>, one byte for every index, and the count; \<open>put_out\<close>: the staging
  buffer, the count, and the buffers written to descriptor 1 so far.\<close>

definition put_mem :: "nat \<Rightarrow> u8 \<Rightarrow> (nat \<Rightarrow> u8) \<times> nat \<Rightarrow> (nat \<Rightarrow> u8) \<times> nat" where
  "put_mem cap c s = (let (buf, len) = s in (if cap \<noteq> 0 \<and> len + 1 < cap then buf(len := c) else buf, len + 1))"

definition vsnprintf :: "(nat \<Rightarrow> u8) \<Rightarrow> nat \<Rightarrow> u8 list \<Rightarrow> arg list \<Rightarrow> (nat \<times> (nat \<Rightarrow> u8)) option" where
  "vsnprintf buf sz fmt ap =
     (case format fmt ap of None \<Rightarrow> None
      | Some out \<Rightarrow>
          let (buf, len) = fold (put_mem sz) out (buf, 0)
          in Some (len, if sz \<noteq> 0 then buf(if len < sz then len else sz - 1 := 0) else buf))"

definition sprintf :: "(nat \<Rightarrow> u8) \<Rightarrow> u8 list \<Rightarrow> arg list \<Rightarrow> (nat \<times> (nat \<Rightarrow> u8)) option" where
  "sprintf buf fmt ap = vsnprintf buf 0x7FFFFFFF fmt ap"

definition put_out :: "nat \<Rightarrow> u8 \<Rightarrow> u8 list \<times> nat \<times> u8 list list \<Rightarrow> u8 list \<times> nat \<times> u8 list list" where
  "put_out cap c s =
     (let (buf, len, written) = s; buf = buf[len mod cap := c]; len = len + 1
      in (buf, len, if len mod cap = 0 then written @ [take cap buf] else written))"

definition flush_out :: "nat \<Rightarrow> u8 list \<times> nat \<times> u8 list list \<Rightarrow> u8 list list" where
  "flush_out cap s =
     (let (buf, len, written) = s; staged = len mod cap in if staged \<noteq> 0 then written @ [take staged buf] else written)"

definition vprintf :: "u8 list \<Rightarrow> u8 list \<Rightarrow> arg list \<Rightarrow> (nat \<times> u8 list list) option" where
  "vprintf stage fmt ap =
     (case format fmt ap of None \<Rightarrow> None
      | Some out \<Rightarrow> let s = fold (put_out 128) out (stage, 0, []) in Some (fst (snd s), flush_out 128 s))"


section \<open>What the sinks deliver\<close>

lemma put_mem_fold:
  "fold (put_mem cap) out (buf, len) =
     ((\<lambda>i. if len \<le> i \<and> i < len + length out \<and> i + 1 < cap then out ! (i - len) else buf i), len + length out)"
proof (induction out arbitrary: buf len)
  case Nil
  then show ?case by (auto simp: fun_eq_iff)
next
  case (Cons c out)
  let ?b = "if cap \<noteq> 0 \<and> len + 1 < cap then buf(len := c) else buf"
  have pm: "put_mem cap c (buf, len) = (?b, Suc len)" by (simp add: put_mem_def)
  have "(if Suc len \<le> i \<and> i < Suc len + length out \<and> i + 1 < cap then out ! (i - Suc len) else ?b i)
      = (if len \<le> i \<and> i < len + length (c # out) \<and> i + 1 < cap then (c # out) ! (i - len) else buf i)" for i
    by (cases "i = len") (auto simp: nth_Cons')
  then show ?case unfolding fold_simps pm Cons.IH by simp
qed


lemma put_out_fold:
  assumes "length buf = cap" "0 < cap"
  shows "\<exists>buf' written'. fold (put_out cap) out (buf, len, written) = (buf', len + length out, written') \<and> length buf' = cap
           \<and> concat written' @ take ((len + length out) mod cap) buf' = concat written @ take (len mod cap) buf @ out"
  using assms
proof (induction out arbitrary: buf len written)
  case (Cons c out)
  let ?i = "len mod cap" and ?b = "buf[len mod cap := c]"
  let ?w = "if (len + 1) mod cap = 0 then written @ [take cap ?b] else written"
  have i: "?i < cap" using Cons.prems by simp
  then have t: "take (Suc ?i) ?b = take ?i buf @ [c]" using Cons.prems by (simp add: take_Suc_conv_app_nth)
  have step: "concat ?w @ take ((len + 1) mod cap) ?b = concat written @ take ?i buf @ [c]"
  proof (cases "Suc ?i = cap")
    case True
    then have "(len + 1) mod cap = 0" by (simp add: mod_Suc)
    then show ?thesis using t True by simp
  next
    case False
    then have "(len + 1) mod cap = Suc ?i" by (simp add: mod_Suc)
    then show ?thesis using t by simp
  qed
  have pm: "put_out cap c (buf, len, written) = (?b, len + 1, ?w)" by (simp add: put_out_def Let_def)
  obtain buf' w' where ih: "fold (put_out cap) out (?b, len + 1, ?w) = (buf', len + 1 + length out, w')" "length buf' = cap"
      "concat w' @ take ((len + 1 + length out) mod cap) buf' = concat ?w @ take ((len + 1) mod cap) ?b @ out"
    using Cons.IH[of ?b "len + 1" ?w] Cons.prems by auto
  have n: "len + 1 + length out = len + length (c # out)" by simp
  have "concat w' @ take ((len + length (c # out)) mod cap) buf' = (concat ?w @ take ((len + 1) mod cap) ?b) @ out"
    using ih(3) unfolding n by simp
  then have "concat w' @ take ((len + length (c # out)) mod cap) buf' = concat written @ take ?i buf @ c # out"
    unfolding step by simp
  then show ?case using ih(1,2) unfolding fold_simps pm n by blast
qed auto



end
