(* ===== verification/Console.thy ===== *)
theory Console
  imports Bootcfg
begin

text \<open>
  The text console (kernel/drivers/vga.c) with its mirror on the serial line (kernel/serial.c).
  The frame buffer is the memory behind \<open>VGA_BUFFER\<close>, one cell for every index the code can form, so
  a write past the screen is visible. The hardware cursor is the position last sent to the
  controller; waiting for the serial transmitter has no effect on the state.
\<close>

section \<open>State\<close>

definition VGA_COLS :: nat where "VGA_COLS = 80"
definition VGA_ROWS :: nat where "VGA_ROWS = 25"

record vga =
  vga_buffer :: "nat \<Rightarrow> u16"
  term_col :: u8
  term_row :: u8
  term_color :: u8
  hw_cursor :: u16
  serial_out :: "u8 list"

definition VGA_BLACK :: u8 where "VGA_BLACK = 0"
definition VGA_LIGHT_GREY :: u8 where "VGA_LIGHT_GREY = 7"

definition vga_make_attr :: "u8 \<Rightarrow> u8 \<Rightarrow> u8" where
  "vga_make_attr fg bg = push_bit 4 bg OR (fg AND 0x0F)"

definition vga_make_entry :: "u8 \<Rightarrow> u8 \<Rightarrow> u16" where
  "vga_make_entry c attr = push_bit 8 (ucast attr) OR ucast c"

definition cell :: "vga \<Rightarrow> nat" where
  "cell s = unat (term_row s) * VGA_COLS + unat (term_col s)"

definition put_cell :: "u8 \<Rightarrow> vga \<Rightarrow> vga" where
  "put_cell c s = s\<lparr>vga_buffer := (vga_buffer s)(cell s := vga_make_entry c (term_color s))\<rparr>"

definition vga_update_cursor :: "vga \<Rightarrow> vga" where
  "vga_update_cursor s = s\<lparr>hw_cursor := of_nat (cell s)\<rparr>"

section \<open>Output\<close>

definition serial_putchar :: "u8 \<Rightarrow> vga \<Rightarrow> vga" where
  "serial_putchar c s = s\<lparr>serial_out := serial_out s @ (if c = 10 then [13] else []) @ [c]\<rparr>"

definition scroll_row :: "nat \<Rightarrow> (nat \<Rightarrow> u16) \<Rightarrow> nat \<Rightarrow> u16" where
  "scroll_row row buf = fold (\<lambda>col b. b((row - 1) * VGA_COLS + col := b (row * VGA_COLS + col))) [0 ..< VGA_COLS] buf"

definition vga_scroll :: "vga \<Rightarrow> vga" where
  "vga_scroll s =
     (let buf = fold scroll_row [1 ..< VGA_ROWS] (vga_buffer s);
          blank = vga_make_entry 32 (term_color s);
          buf = fold (\<lambda>col b. b((VGA_ROWS - 1) * VGA_COLS + col := blank)) [0 ..< VGA_COLS] buf
      in s\<lparr>vga_buffer := buf, term_row := of_nat (VGA_ROWS - 1)\<rparr>)"

definition vga_clear :: "vga \<Rightarrow> vga" where
  "vga_clear s =
     (let blank = vga_make_entry 32 (term_color s);
          buf = fold (\<lambda>i b. b(i := blank)) [0 ..< VGA_ROWS * VGA_COLS] (vga_buffer s)
      in vga_update_cursor (s\<lparr>vga_buffer := buf, term_col := 0, term_row := 0\<rparr>))"

definition vga_init :: "vga \<Rightarrow> vga" where
  "vga_init s = vga_clear (s\<lparr>term_color := vga_make_attr VGA_LIGHT_GREY VGA_BLACK, term_col := 0, term_row := 0\<rparr>)"

definition vga_set_color :: "u8 \<Rightarrow> u8 \<Rightarrow> vga \<Rightarrow> vga" where
  "vga_set_color fg bg s = s\<lparr>term_color := vga_make_attr fg bg\<rparr>"

definition vga_set_cursor :: "u8 \<Rightarrow> u8 \<Rightarrow> vga \<Rightarrow> vga" where
  "vga_set_cursor col row s =
     (if unat col < VGA_COLS \<and> unat row < VGA_ROWS
      then vga_update_cursor (s\<lparr>term_col := col, term_row := row\<rparr>) else s)"

text \<open>The cursor movement of a character that has been stored or of a tab: wrap at the last column.\<close>

definition wrap_line :: "vga \<Rightarrow> vga" where
  "wrap_line s = (if unat (term_col s) \<ge> VGA_COLS then s\<lparr>term_col := 0, term_row := term_row s + 1\<rparr> else s)"

definition move_cursor :: "u8 \<Rightarrow> vga \<Rightarrow> vga" where
  "move_cursor c s =
     (if c = 10 then s\<lparr>term_col := 0, term_row := term_row s + 1\<rparr>
      else if c = 13 then s\<lparr>term_col := 0\<rparr>
      else if c = 9 then wrap_line (s\<lparr>term_col := (term_col s + 4) AND NOT 3\<rparr>)
      else if c = 8 then
        if term_col s > 0 then put_cell 32 (s\<lparr>term_col := term_col s - 1\<rparr>) else s
      else let s = put_cell c s in wrap_line (s\<lparr>term_col := term_col s + 1\<rparr>))"

definition vga_putchar :: "u8 \<Rightarrow> vga \<Rightarrow> vga" where
  "vga_putchar c s =
     (let erased = (c = 8 \<and> term_col s > 0);
          s = move_cursor c s;
          s = (if unat (term_row s) \<ge> VGA_ROWS then vga_scroll s else s);
          s = (if c = 8 then if erased then serial_putchar 8 (serial_putchar 32 (serial_putchar 8 s)) else s
               else serial_putchar c s)
      in vga_update_cursor s)"

definition vga_puts :: "u8 list \<Rightarrow> vga \<Rightarrow> vga" where
  "vga_puts str s = fold vga_putchar str s"

definition hex_digit :: "u32 \<Rightarrow> u8" where
  "hex_digit d = bytes ''0123456789ABCDEF'' ! unat d"

definition vga_puthex :: "u32 \<Rightarrow> vga \<Rightarrow> vga" where
  "vga_puthex v s =
     fold (\<lambda>i. vga_putchar (hex_digit (drop_bit i v AND 0xF))) [28, 24, 20, 16, 12, 8, 4, 0] (vga_puts (bytes ''0x'') s)"

text \<open>The digit loop of \<open>vga_putdec\<close> collects the digits from the last one on; they are printed in reverse.\<close>

function dec_digits :: "u32 \<Rightarrow> u8 list \<Rightarrow> u8 list" where
  "dec_digits v buf = (if v > 0 then dec_digits (v div 10) (buf @ [48 + ucast (v mod 10)]) else buf)"
  by pat_completeness auto
termination
proof (relation "measure (\<lambda>(v, buf). unat v)", goal_cases)
  case (2 v buf)
  then show ?case by (simp add: word_less_nat_alt unat_div)
qed simp

declare dec_digits.simps [simp del]

definition vga_putdec :: "u32 \<Rightarrow> vga \<Rightarrow> vga" where
  "vga_putdec v s = (if v = 0 then vga_putchar 48 s else fold vga_putchar (rev (dec_digits v [])) s)"

section \<open>Scrolling\<close>

lemma shift_prefix:
  "n \<le> 80 \<Longrightarrow> fold (\<lambda>col b. b(k + col := b (k + 80 + col))) [0 ..< n] buf i =
     (if k \<le> i \<and> i < k + n then buf (i + 80) else buf (i :: nat))"
proof (induction n arbitrary: i)
  case (Suc n)
  then show ?case by (auto simp: less_Suc_eq ac_simps)
qed auto

lemma scroll_row_closed:
  assumes "0 < row"
  shows "scroll_row row buf i = (if (row - 1) * 80 \<le> i \<and> i < row * 80 then buf (i + 80) else buf i)"
proof -
  obtain r where "row = Suc r" using assms by (cases row) auto
  then show ?thesis using shift_prefix[of 80 "r * 80" buf i] by (simp add: scroll_row_def VGA_COLS_def ac_simps)
qed

lemma scroll_rows_closed:
  "fold scroll_row [1 ..< n] buf i = (if i < (n - 1) * 80 then buf (i + 80) else buf i)"
proof (induction n arbitrary: i)
  case (Suc n)
  show ?case
  proof (cases "n = 0")
    case False
    then have "fold scroll_row [1 ..< Suc n] buf = scroll_row n (fold scroll_row [1 ..< n] buf)" by simp
    moreover have "(n - 1) * 80 + 80 = n * 80" using False by (cases n) auto
    ultimately show ?thesis using False Suc by (auto simp: scroll_row_closed)
  qed simp
qed simp

lemma fill_closed: "fold (\<lambda>i b. b(k + i := v)) [0 ..< n] buf j = (if k \<le> j \<and> j < k + n then v else buf j)"
  by (induction n) auto

lemma vga_scroll_buffer:
  "vga_buffer (vga_scroll s) i = (if i < 1920 then vga_buffer s (i + 80)
     else if i < 2000 then vga_make_entry 32 (term_color s) else vga_buffer s i)"
  using scroll_rows_closed[of 25 "vga_buffer s"] fill_closed[of 1920 "vga_make_entry 32 (term_color s)" 80]
  by (simp add: vga_scroll_def Let_def VGA_ROWS_def VGA_COLS_def)

section \<open>The cursor stays on the screen\<close>

definition on_screen :: "vga \<Rightarrow> bool" where
  "on_screen s \<longleftrightarrow> unat (term_col s) < VGA_COLS \<and> unat (term_row s) < VGA_ROWS"

lemma u8_inc: "unat (x :: u8) < 255 \<Longrightarrow> unat (x + 1) = Suc (unat x)"
  by (simp add: unat_word_ariths)

lemma tab_bound: "unat (x :: u8) < 80 \<Longrightarrow> unat ((x + 4) AND NOT 3) \<le> 80"
proof -
  assume x: "unat x < 80"
  have "unat ((x + 4) AND NOT (mask 2)) = unat (x + 4) div 4 * 4" using unat_and_not_mask[of "x + 4" 2] by simp
  moreover have "unat (x + 4) = unat x + 4" using x by (simp add: unat_word_ariths)
  ultimately show ?thesis using x by (simp add: mask_eq_exp_minus_1)
qed

lemma scroll_simps:
  "term_col (vga_scroll s) = term_col s" "term_row (vga_scroll s) = 24" "hw_cursor (vga_scroll s) = hw_cursor s"
  by (simp_all add: vga_scroll_def Let_def VGA_ROWS_def)

text \<open>Moving the cursor leaves it on the screen or just below it, and writes on the screen.\<close>

lemma move_cursor_bounds:
  assumes "on_screen s"
  shows "unat (term_col (move_cursor c s)) < 80" "unat (term_row (move_cursor c s)) \<le> 25"
    "2000 \<le> i \<Longrightarrow> vga_buffer (move_cursor c s) i = vga_buffer s i"
proof -
  have b: "unat (term_col s) < 80" "unat (term_row s) < 25" using assms by (simp_all add: on_screen_def VGA_COLS_def VGA_ROWS_def)
  then have inc: "unat (term_col s + 1) = Suc (unat (term_col s))" "unat (term_row s + 1) = Suc (unat (term_row s))"
    by (simp_all add: u8_inc)
  have dec: "0 < term_col s \<Longrightarrow> unat (term_col s - 1) < 80" using b(1) by (simp add: unat_minus_one word_gt_0)
  have low: "unat (term_row s) * 80 + x < 2000" if "x < 80" for x using b(2) that by simp
  note d = move_cursor_def wrap_line_def put_cell_def cell_def VGA_COLS_def Let_def
  show "unat (term_col (move_cursor c s)) < 80" using b inc dec by (auto simp: d not_le)
  show "unat (term_row (move_cursor c s)) \<le> 25" using b inc by (auto simp: d)
  show "vga_buffer (move_cursor c s) i = vga_buffer s i" if "2000 \<le> i"
    using low[OF b(1)] low[OF dec] that by (auto simp: d)
qed

lemma vga_putchar_bounds:
  assumes "on_screen s"
  shows "on_screen (vga_putchar c s) \<and> hw_cursor (vga_putchar c s) = of_nat (cell (vga_putchar c s))
    \<and> (\<forall>i \<ge> 2000. vga_buffer (vga_putchar c s) i = vga_buffer s i)"
proof -
  let ?s1 = "move_cursor c s"
  let ?s2 = "if unat (term_row ?s1) \<ge> VGA_ROWS then vga_scroll ?s1 else ?s1"
  note mb = move_cursor_bounds[OF assms]
  have s2: "on_screen ?s2" "\<And>i. 2000 \<le> i \<Longrightarrow> vga_buffer ?s2 i = vga_buffer s i"
    using mb by (auto simp: on_screen_def VGA_COLS_def VGA_ROWS_def scroll_simps vga_scroll_buffer)
  have sp: "on_screen (serial_putchar x t) = on_screen t" "vga_buffer (serial_putchar x t) = vga_buffer t" for x t
    by (simp_all add: serial_putchar_def on_screen_def)
  have up: "on_screen (vga_update_cursor t) = on_screen t" "vga_buffer (vga_update_cursor t) = vga_buffer t"
    "hw_cursor (vga_update_cursor t) = of_nat (cell (vga_update_cursor t))" for t
    by (simp_all add: vga_update_cursor_def on_screen_def cell_def)
  show ?thesis unfolding vga_putchar_def Let_def using s2 by (cases "c = 8") (auto simp: sp up)
qed

text \<open>
  C31. The console stays on the screen: for every text, starting from a cursor inside the 80 x 25
  screen, \<open>vga_puts\<close> leaves the cursor inside it, touches no memory behind the screen's 2000 cells,
  and the hardware cursor shows the position of the software cursor.
\<close>

theorem vga_puts_bounds:
  assumes "on_screen s" "str \<noteq> []"
  shows "on_screen (vga_puts str s) \<and> hw_cursor (vga_puts str s) = of_nat (cell (vga_puts str s))
    \<and> (\<forall>i \<ge> 2000. vga_buffer (vga_puts str s) i = vga_buffer s i)"
  using assms
proof (induction str arbitrary: s)
  case (Cons c str)
  note pb = vga_putchar_bounds[OF Cons.prems(1), of c]
  have eq: "vga_puts (c # str) s = vga_puts str (vga_putchar c s)" by (simp add: vga_puts_def)
  show ?case
  proof (cases "str = []")
    case True
    then show ?thesis using pb by (simp add: vga_puts_def)
  next
    case False
    then show ?thesis using Cons.IH[of "vga_putchar c s"] pb by (simp add: eq)
  qed
qed simp

text \<open>A screen of zeros with the cursor in its last cell.\<close>

definition last_cell :: vga where
  "last_cell = \<lparr>vga_buffer = (\<lambda>_. 0), term_col = 79, term_row = 24, term_color = 7, hw_cursor = 0, serial_out = []\<rparr>"

theorem vga_puts_bounds_witness:
  "on_screen (vga_puts [65, 66] last_cell) \<and> vga_buffer (vga_puts [65, 66] last_cell) 2000 = 0"
  using vga_puts_bounds[of last_cell "[65, 66]"] by (simp add: last_cell_def on_screen_def VGA_COLS_def VGA_ROWS_def)

end
