(* ===== verification/Userlib.thy ===== *)
theory Userlib
  imports Stdio Console
begin

text \<open>
  The memory, string and number routines of the user library (user/lib/nullos.c), and the agreement of
  the decimal printers of the kernel console, the configuration writer and the user library. Memory is a
  byte for every 32-bit address; a C string is the list of its bytes before the terminator.
\<close>

section \<open>Memory routines\<close>

text \<open>\<open>rep movsb\<close> and \<open>rep stosb\<close>; the step is 1, or -1 after \<open>std\<close>.\<close>

primrec rep_movsb :: "nat \<Rightarrow> u32 \<Rightarrow> u32 \<Rightarrow> u32 \<Rightarrow> mem \<Rightarrow> mem" where
  "rep_movsb 0 d s step m = m"
| "rep_movsb (Suc n) d s step m = rep_movsb n (d + step) (s + step) step (m(d := m s))"

primrec rep_stosb :: "nat \<Rightarrow> u32 \<Rightarrow> u8 \<Rightarrow> mem \<Rightarrow> mem" where
  "rep_stosb 0 d c m = m"
| "rep_stosb (Suc n) d c m = rep_stosb n (d + 1) c (m(d := c))"

definition memcpy :: "u32 \<Rightarrow> u32 \<Rightarrow> u32 \<Rightarrow> mem \<Rightarrow> mem" where
  "memcpy dst src n m = rep_movsb (unat n) dst src 1 m"

definition memset :: "u32 \<Rightarrow> u32 \<Rightarrow> u32 \<Rightarrow> mem \<Rightarrow> mem" where
  "memset dst c n m = rep_stosb (unat n) dst (ucast c) m"

definition memmove :: "u32 \<Rightarrow> u32 \<Rightarrow> u32 \<Rightarrow> mem \<Rightarrow> mem" where
  "memmove dst src n m =
     (if dst = src \<or> n = 0 then m
      else if dst < src \<or> dst \<ge> src + n then memcpy dst src n m
      else rep_movsb (unat n) (dst + (n - 1)) (src + (n - 1)) (- 1) m)"

primrec memcmp_from :: "nat \<Rightarrow> u32 \<Rightarrow> u32 \<Rightarrow> mem \<Rightarrow> int" where
  "memcmp_from 0 a b m = 0"
| "memcmp_from (Suc n) a b m =
     (if m a \<noteq> m b then int (unat (m a)) - int (unat (m b)) else memcmp_from n (a + 1) (b + 1) m)"

definition memcmp :: "u32 \<Rightarrow> u32 \<Rightarrow> u32 \<Rightarrow> mem \<Rightarrow> int" where
  "memcmp a b n m = memcmp_from (unat n) a b m"

section \<open>String routines\<close>

definition cur :: "u8 list \<Rightarrow> u8" where
  "cur s = (case s of [] \<Rightarrow> 0 | c # _ \<Rightarrow> c)"

fun strcmp :: "u8 list \<Rightarrow> u8 list \<Rightarrow> int" where
  "strcmp (x # a) b =
     (if x \<noteq> 0 \<and> x = cur b then strcmp a (tl b) else int (unat x) - int (unat (cur b)))"
| "strcmp [] b = 0 - int (unat (cur b))"

fun strncmp :: "u8 list \<Rightarrow> u8 list \<Rightarrow> nat \<Rightarrow> int" where
  "strncmp a b 0 = 0"
| "strncmp (x # a) b (Suc n) =
     (if x \<noteq> 0 \<and> x = cur b then strncmp a (tl b) n else int (unat x) - int (unat (cur b)))"
| "strncmp [] b (Suc n) = 0 - int (unat (cur b))"

section \<open>Numbers\<close>

text \<open>\<open>nos_uitoa\<close> fills the buffer from its end; the result is the index of the first character and the
  buffer.\<close>

function uitoa_loop :: "u32 \<Rightarrow> u32 \<Rightarrow> (u32 \<Rightarrow> u8) \<Rightarrow> u32 \<times> (u32 \<Rightarrow> u8)" where
  "uitoa_loop v bufsz buf =
     (if v \<noteq> 0 \<and> bufsz > 0
      then uitoa_loop (v div 10) (bufsz - 1) (buf(bufsz - 1 := ucast (48 + v mod 10)))
      else (bufsz, buf))"
  by pat_completeness auto
termination
proof (relation "measure (\<lambda>(v, bufsz, buf). unat v)", goal_cases)
  case (2 v bufsz buf)
  then have "0 < unat v" by (simp add: unat_gt_0)
  then show ?case by (simp add: unat_div)
qed simp

declare uitoa_loop.simps [simp del]

definition nos_uitoa :: "u32 \<Rightarrow> (u32 \<Rightarrow> u8) \<Rightarrow> u32 \<Rightarrow> u32 \<times> (u32 \<Rightarrow> u8)" where
  "nos_uitoa v buf bufsz =
     (let bufsz = bufsz - 1; buf = buf(bufsz := 0) in
      if v = 0 then let bufsz = bufsz - 1 in (bufsz, buf(bufsz := 48))
      else uitoa_loop v bufsz buf)"

section \<open>Copying\<close>

lemma of_nat_u32_inj:
  assumes "a < 4294967296" "b < 4294967296"
  shows "(of_nat a = (of_nat b :: u32)) \<longleftrightarrow> a = b"
proof (intro iffI)
  assume h: "of_nat a = (of_nat b :: u32)"
  then have "unat (of_nat a :: u32) = unat (of_nat b :: u32)" by simp
  then show "a = b" using assms by (simp add: unat_of_nat take_bit_eq_mod)
qed simp

lemma unat_of_nat_u32: "n < 0x100000000 \<Longrightarrow> unat (of_nat n :: u32) = n"
  by (simp add: unat_of_nat take_bit_eq_mod)

lemma movsb_up:
  assumes "d + n \<le> 4294967296" "s + n \<le> 4294967296" "a < 4294967296" "d < s \<or> s + n \<le> d"
  shows "rep_movsb n (of_nat d) (of_nat s) 1 m (of_nat a) = (if d \<le> a \<and> a < d + n then m (of_nat (s + (a - d))) else m (of_nat a))"
  using assms
proof (induction n arbitrary: d s m)
  case (Suc n)
  let ?m = "m(of_nat d := m (of_nat s))"
  have ih: "rep_movsb n (of_nat (Suc d)) (of_nat (Suc s)) 1 ?m (of_nat a)
      = (if Suc d \<le> a \<and> a < Suc d + n then ?m (of_nat (Suc s + (a - Suc d))) else ?m (of_nat a))"
    using Suc.prems by (intro Suc.IH) auto
  have inj: "(of_nat a = (of_nat d :: u32)) \<longleftrightarrow> a = d" using Suc.prems by (intro of_nat_u32_inj) auto
  have src: "?m (of_nat (Suc s + (a - Suc d))) = m (of_nat (Suc s + (a - Suc d)))" if "Suc d \<le> a" "a < Suc d + n"
    using of_nat_u32_inj[of "Suc s + (a - Suc d)" d] Suc.prems that by auto
  have step: "rep_movsb (Suc n) (of_nat d) (of_nat s) 1 m = rep_movsb n (of_nat (Suc d)) (of_nat (Suc s)) 1 ?m"
    by (simp add: ac_simps)
  show ?case
  proof (cases "Suc d \<le> a \<and> a < Suc d + n")
    case True
    then have "Suc s + (a - Suc d) = s + (a - d)" by arith
    then show ?thesis unfolding step ih using True src by simp
  next
    case False
    then show ?thesis unfolding step ih using inj by auto
  qed
qed auto

lemma movsb_down:
  assumes "d + n \<le> 4294967296" "s + n \<le> 4294967296" "a < 4294967296" "s < d"
  shows "rep_movsb n (of_nat (d + n) - 1) (of_nat (s + n) - 1) (- 1) m (of_nat a)
    = (if d \<le> a \<and> a < d + n then m (of_nat (s + (a - d))) else m (of_nat a))"
  using assms
proof (induction n arbitrary: m)
  case (Suc n)
  let ?m = "m(of_nat (d + n) := m (of_nat (s + n)))"
  have ih: "rep_movsb n (of_nat (d + n) - 1) (of_nat (s + n) - 1) (- 1) ?m (of_nat a)
      = (if d \<le> a \<and> a < d + n then ?m (of_nat (s + (a - d))) else ?m (of_nat a))"
    using Suc.prems by (intro Suc.IH) auto
  have inj: "(of_nat a = (of_nat (d + n) :: u32)) \<longleftrightarrow> a = d + n" using Suc.prems by (intro of_nat_u32_inj) auto
  have src: "?m (of_nat (s + (a - d))) = m (of_nat (s + (a - d)))" if "d \<le> a" "a < d + n"
    using of_nat_u32_inj[of "s + (a - d)" "d + n"] Suc.prems that by (auto simp del: of_nat_add)
  have d: "of_nat (d + Suc n) - 1 = (of_nat (d + n) :: u32)" and s: "of_nat (s + Suc n) - 1 = (of_nat (s + n) :: u32)" by simp_all
  have step: "rep_movsb (Suc n) (of_nat (d + Suc n) - 1) (of_nat (s + Suc n) - 1) (- 1) m
      = rep_movsb n (of_nat (d + n) - 1) (of_nat (s + n) - 1) (- 1) ?m"
    unfolding d s rep_movsb.simps by (simp only: diff_conv_add_uminus)
  show ?case
  proof (cases "d \<le> a \<and> a < d + n")
    case True
    then show ?thesis unfolding step ih using src by (simp del: of_nat_add)
  next
    case False
    then show ?thesis unfolding step ih using inj by (cases "a = d + n") (auto simp del: of_nat_add)
  qed
qed auto

text \<open>
  C34. \<open>memmove\<close> is a copy that tolerates overlap: after it every byte of the destination range holds what
  the source range held before, whichever way the two ranges overlap, and no other byte changes. The
  ranges must not reach the end of the address space.
\<close>

theorem memmove_copies:
  assumes "unat dst + unat n < 2 ^ 32" "unat src + unat n < 2 ^ 32"
  shows "memmove dst src n m =
    (\<lambda>a. if unat dst \<le> unat a \<and> unat a < unat dst + unat n then m (src + (a - dst)) else m a)"
proof
  fix a :: u32
  have b: "unat dst + unat n < 4294967296" "unat src + unat n < 4294967296" using assms by simp_all
  have a: "unat a < 4294967296" using unat_u32[of a] by simp
  have off: "src + (a - dst) = of_nat (unat src + (unat a - unat dst))" if "unat dst \<le> unat a"
    using that by (simp add: of_nat_diff)
  have sn: "unat (src + n) = unat src + unat n" using b by (simp add: unat_word_ariths)
  show "memmove dst src n m a = (if unat dst \<le> unat a \<and> unat a < unat dst + unat n then m (src + (a - dst)) else m a)"
  proof (cases "dst = src \<or> n = 0")
    case True
    then show ?thesis by (auto simp: memmove_def)
  next
    case ne: False
    show ?thesis
    proof (cases "dst < src \<or> dst \<ge> src + n")
      case True
      then have "unat dst < unat src \<or> unat src + unat n \<le> unat dst" by (auto simp: word_less_nat_alt word_le_nat_alt sn)
      then show ?thesis using movsb_up[of "unat dst" "unat n" "unat src" "unat a" m] b a off True ne
        by (auto simp: memmove_def memcpy_def algebra_simps)
    next
      case False
      then have "unat src < unat dst" using ne by (auto simp: word_less_nat_alt not_less le_less word_unat_eq_iff)
      moreover have "dst + (n - 1) = of_nat (unat dst + unat n) - 1" "src + (n - 1) = of_nat (unat src + unat n) - 1" by simp_all
      ultimately show ?thesis using movsb_down[of "unat dst" "unat n" "unat src" "unat a" m] b a off False ne
        by (simp add: memmove_def add_diff_eq del: of_nat_add)
    qed
  qed
qed

theorem memmove_copies_witness:
  "(4 :: u32) < 100 \<and> memmove 6 4 4 (\<lambda>a. ucast a) 9 = (7 :: u8) \<and> memmove 4 6 4 (\<lambda>a. ucast a) 4 = (6 :: u8)"
  using memmove_copies[of 6 4 4 "\<lambda>a. ucast a"] memmove_copies[of 4 4 6 "\<lambda>a. ucast a"] by simp

section \<open>Decimal output\<close>

lemma fmt_digits_acc: "fmt_digits v False acc = fmt_digits v False [] @ acc"
proof (induction "unat v" arbitrary: v acc rule: less_induct)
  case less
  show ?case
  proof (cases "v = 0")
    case False
    then have "unat (v div 10) < unat v" using unat_gt_0[of v] by (simp add: unat_div)
    note ih = less[OF this]
    have "fmt_digits v False acc = fmt_digits (v div 10) False (digit_char (v mod 10) # acc)" for acc
      using fmt_step[OF False, of False acc] by (simp add: fmt_base_def)
    then show ?thesis using ih[of "[digit_char (v mod 10)]"] ih[of "digit_char (v mod 10) # acc"] by simp
  qed simp
qed

lemma fmt_digits_snoc: "v \<noteq> 0 \<Longrightarrow> fmt_digits v False [] = fmt_digits (v div 10) False [] @ [digit_char (v mod 10)]"
  using fmt_step[of v False "[]"] fmt_digits_acc[of "v div 10" "[digit_char (v mod 10)]"] by (simp add: fmt_base_def)

lemma mod_10_less: "v mod 10 < (10 :: u32)"
  by (simp add: word_less_nat_alt unat_mod)

lemma dec_chars_nat: "\<forall>n \<in> set [0 ..< 10]. digit_set False ! n = digit_char (of_nat n) \<and> 48 + ucast (of_nat n :: u32) = digit_char (of_nat n)
    \<and> ucast (48 + of_nat n :: u32) = digit_char (of_nat n)"
  by (simp add: upt_rec digit_char_def digit_set_def bytes_def)

lemma dec_chars:
  "d < 10 \<Longrightarrow> digit_set False ! unat d = digit_char d" "d < 10 \<Longrightarrow> 48 + ucast d = digit_char d" "d < 10 \<Longrightarrow> ucast (48 + d) = digit_char d"
  using dec_chars_nat[THEN bspec, of "unat d"] by (simp_all add: word_less_nat_alt)

lemma num_digits_dec: "num_digits v 10 False = rev (fmt_digits v False [])"
proof (induction "unat v" arbitrary: v rule: less_induct)
  case less
  show ?case
  proof (cases "v = 0")
    case True
    then show ?thesis by (simp add: num_digits.simps[of 0])
  next
    case False
    then have "unat (v div 10) < unat v" using unat_gt_0[of v] by (simp add: unat_div)
    then show ?thesis
      using less False dec_chars(1)[OF mod_10_less, of v] by (simp add: num_digits.simps[of v] fmt_digits_snoc)
  qed
qed

lemma dec_digits_dec: "dec_digits v buf = buf @ rev (fmt_digits v False [])"
proof (induction "unat v" arbitrary: v buf rule: less_induct)
  case less
  show ?case
  proof (cases "v = 0")
    case True
    then show ?thesis by (simp add: dec_digits.simps[of 0])
  next
    case False
    then have "unat (v div 10) < unat v" using unat_gt_0[of v] by (simp add: unat_div)
    then show ?thesis
      using less False dec_chars(2)[OF mod_10_less, of v]
      by (simp add: dec_digits.simps[of v] fmt_digits_snoc word_neq_0_conv)
  qed
qed

lemma uitoa_loop_dec:
  assumes "length (fmt_digits v False []) \<le> unat k"
  shows "uitoa_loop v k buf = (k - of_nat (length (fmt_digits v False [])),
           \<lambda>i. if k - of_nat (length (fmt_digits v False [])) \<le> i \<and> i < k
                then fmt_digits v False [] ! unat (i - (k - of_nat (length (fmt_digits v False [])))) else buf i)"
  using assms
proof (induction "unat v" arbitrary: v k buf rule: less_induct)
  case less
  show ?case
  proof (cases "v = 0")
    case True
    then show ?thesis by (auto simp: uitoa_loop.simps[of 0] fun_eq_iff)
  next
    case False
    let ?D = "fmt_digits (v div 10) False []" and ?c = "digit_char (v mod 10)"
    let ?p = "k - of_nat (length ?D + 1)"
    have D: "fmt_digits v False [] = ?D @ [?c]" using False by (rule fmt_digits_snoc)
    then have len: "length ?D + 1 \<le> unat k" using less.prems by simp
    then have k: "0 < k" by (metis Suc_eq_plus1 not_less_eq_eq unat_0 word_neq_0_conv zero_le)
    have k1: "unat (k - 1) = unat k - 1" using k by (simp add: unat_minus_one word_neq_0_conv)
    have less_v: "unat (v div 10) < unat v" using False unat_gt_0[of v] by (simp add: unat_div)
    have p: "k - 1 - of_nat (length ?D) = ?p" by simp
    have ih: "uitoa_loop (v div 10) (k - 1) (buf(k - 1 := ?c)) =
        (?p, \<lambda>i. if ?p \<le> i \<and> i < k - 1 then ?D ! unat (i - ?p) else (buf(k - 1 := ?c)) i)"
      using less.hyps[OF less_v, of "k - 1" "buf(k - 1 := ?c)"] len unfolding p k1 by simp
    have step: "uitoa_loop v k buf = uitoa_loop (v div 10) (k - 1) (buf(k - 1 := ?c))"
      using False k dec_chars(3)[OF mod_10_less, of v] by (simp add: uitoa_loop.simps[of v])
    have up: "unat ?p = unat k - (length ?D + 1)"
    proof -
      have "unat (of_nat (length ?D + 1) :: u32) = length ?D + 1" using len unat_u32[of k] by (intro unat_of_nat_u32) simp
      then show ?thesis using len unat_sub[of "of_nat (length ?D + 1)" k] by (simp add: word_le_nat_alt)
    qed
    have "(if ?p \<le> i \<and> i < k - 1 then ?D ! unat (i - ?p) else (buf(k - 1 := ?c)) i)
        = (if ?p \<le> i \<and> i < k then (?D @ [?c]) ! unat (i - ?p) else buf i)" for i
    proof -
      have le: "?p \<le> i \<longleftrightarrow> unat k - (length ?D + 1) \<le> unat i" by (simp only: word_le_nat_alt up)
      have lt: "i < k \<longleftrightarrow> unat i < unat k" "i < k - 1 \<longleftrightarrow> unat i < unat k - 1" "i = k - 1 \<longleftrightarrow> unat i = unat k - 1"
        by (simp_all only: word_less_nat_alt word_unat_eq_iff k1)
      have sub: "?p \<le> i \<Longrightarrow> unat (i - ?p) = unat i - (unat k - (length ?D + 1))" by (simp only: unat_sub up)
      consider "unat i < unat k - (length ?D + 1)" | "unat k - (length ?D + 1) \<le> unat i" "unat i < unat k - 1"
        | "unat i = unat k - 1" | "unat k \<le> unat i" by linarith
      then show ?thesis
      proof cases
        case 1
        then have "\<not> ?p \<le> i" "i \<noteq> k - 1" using le lt len by linarith+
        then show ?thesis by (simp only: fun_upd_apply simp_thms if_False)
      next
        case 2
        then have c: "?p \<le> i" "i < k" "i < k - 1" using le lt by linarith+
        then have "unat (i - ?p) < length ?D" using sub 2 len by linarith
        then show ?thesis using c by (simp only: nth_append simp_thms if_True)
      next
        case 3
        then have c: "?p \<le> i" "i < k" "\<not> i < k - 1" "i = k - 1" using le lt len by linarith+
        then have "unat (i - ?p) = length ?D" using sub 3 len by linarith
        then show ?thesis using c by (simp only: nth_append_length fun_upd_same simp_thms if_True if_False)
      next
        case 4
        then have "\<not> i < k" "\<not> i < k - 1" "i \<noteq> k - 1" using lt len by linarith+
        then show ?thesis by (simp only: fun_upd_apply simp_thms if_False)
      qed
    qed
    moreover have "length (?D @ [?c]) = length ?D + 1" by simp
    ultimately show ?thesis unfolding step ih D by presburger
  qed
qed

text \<open>
  C35. The decimal printers agree. For every 32-bit number, the user library's \<open>%u\<close> conversion, the console's
  \<open>vga_putdec\<close> and \<open>nos_uitoa\<close> (given a buffer of at least 11 bytes) all produce the digits that the
  configuration writer's \<open>fmt_u32\<close> produces; \<open>nos_uitoa\<close> leaves them before its terminator at the end of the
  buffer and writes outside the buffer nowhere.
\<close>

theorem decimal_printers_agree:
  assumes "11 \<le> bufsz" "nos_uitoa v buf bufsz = (p, buf')"
  shows "format (bytes ''%u'') [ArgInt v] = Some (fmt_u32 v False)
    \<and> vga_putdec v s = vga_puts (fmt_u32 v False) s
    \<and> map (\<lambda>i. buf' (p + of_nat i)) [0 ..< length (fmt_u32 v False)] = fmt_u32 v False
    \<and> p + of_nat (length (fmt_u32 v False)) = bufsz - 1 \<and> buf' (bufsz - 1) = 0
    \<and> (\<forall>i \<ge> bufsz. buf' i = buf i)"
proof (intro conjI)
  let ?t = "fmt_u32 v False" and ?k = "bufsz - 1"
  let ?p = "?k - of_nat (length ?t)"
  have k: "unat ?k = unat bufsz - 1" "11 \<le> unat bufsz"
  proof -
    show b: "11 \<le> unat bufsz" using assms(1) by (simp add: word_le_nat_alt)
    then have "bufsz \<noteq> 0" by auto
    then show "unat ?k = unat bufsz - 1" by (rule unat_minus_one)
  qed
  have len: "0 < length ?t" "length ?t \<le> 10" using fmt_u32_props(1,2)[of v False] by auto
  have lw: "unat (of_nat (length ?t) :: u32) = length ?t" using len by (intro unat_of_nat_u32) simp
  then have up: "unat ?p = unat ?k - length ?t"
    using unat_sub[of "of_nat (length ?t)" ?k] k len by (simp add: word_le_nat_alt)
  have res: "p = ?p" "buf' = (\<lambda>i. if ?p \<le> i \<and> i < ?k then ?t ! unat (i - ?p) else (buf(?k := 0)) i)"
  proof -
    have "nos_uitoa v buf bufsz = (?p, \<lambda>i. if ?p \<le> i \<and> i < ?k then ?t ! unat (i - ?p) else (buf(?k := 0)) i)"
    proof (cases "v = 0")
      case True
      have "(?k - 1 \<le> i \<and> i < ?k) \<longleftrightarrow> i = ?k - 1" for i
        using up k unfolding True by (auto simp: fmt_u32_def word_le_nat_alt word_less_nat_alt word_unat_eq_iff)
      then show ?thesis using True by (auto simp: nos_uitoa_def fmt_u32_def Let_def fun_eq_iff)
    next
      case False
      then have t: "?t = fmt_digits v False []" by (simp add: fmt_u32_def)
      have "length (fmt_digits v False []) \<le> unat ?k" using len k unfolding t by simp
      from uitoa_loop_dec[OF this] show ?thesis using False unfolding t by (simp add: nos_uitoa_def Let_def)
    qed
    then show "p = ?p" "buf' = (\<lambda>i. if ?p \<le> i \<and> i < ?k then ?t ! unat (i - ?p) else (buf(?k := 0)) i)"
      using assms(2) by simp_all
  qed
  show "format (bytes ''%u'') [ArgInt v] = Some ?t"
    using num_digits_dec[of v]
    by (simp add: bytes_def parse_spec_def parse_width_def parse_prec_def convert_def emit_number_def spec0_def
        is_digit_def narrow_unsigned_def pad_def fmt_u32_def Let_def)
  show "vga_putdec v s = vga_puts ?t s"
    by (simp add: vga_putdec_def vga_puts_def fmt_u32_def dec_digits_dec)
  have "buf' (p + of_nat i) = ?t ! i" if "i < length ?t" for i
  proof -
    have "unat (of_nat i :: u32) = i" using that len by (intro unat_of_nat_u32) simp
    then have "unat (?p + of_nat i) = unat ?p + i"
      using up k len that unat_u32[of ?k] by (subst unat_add_lem[THEN iffD1]) simp_all
    then have "?p \<le> ?p + of_nat i" "?p + of_nat i < ?k" "unat (?p + of_nat i - ?p) = i"
      using up k len that \<open>unat (of_nat i) = i\<close> by (auto simp: word_le_nat_alt word_less_nat_alt)
    then show ?thesis unfolding res by simp
  qed
  then show "map (\<lambda>i. buf' (p + of_nat i)) [0 ..< length ?t] = ?t" by (intro nth_equalityI) simp_all
  show "p + of_nat (length ?t) = ?k" using res(1) by simp
  show "buf' ?k = 0" unfolding res by simp
  have "\<not> i < ?k \<and> i \<noteq> ?k" if "bufsz \<le> i" for i
    using that k by (auto simp: word_le_nat_alt word_less_nat_alt)
  then show "\<forall>i \<ge> bufsz. buf' i = buf i" unfolding res by auto
qed

theorem decimal_printers_agree_witness:
  "(11 :: u32) \<le> 12 \<and> format (bytes ''%u'') [ArgInt 4096] = Some (bytes ''4096'')"
proof -
  obtain p b where "nos_uitoa 4096 (\<lambda>_. 1) 12 = (p, b)" by fastforce
  then have "format (bytes ''%u'') [ArgInt 4096] = Some (fmt_u32 4096 False)"
    by (intro decimal_printers_agree[THEN conjunct1]) simp_all
  moreover have "fmt_u32 4096 False = bytes ''4096''" by code_simp
  ultimately show ?thesis by simp
qed

end
