(* ===== verification/Keyboard.thy ===== *)
theory Keyboard
  imports Fifo Bootcfg
begin

text \<open>
  The keyboard driver (kernel/keyboard.c): the interrupt handler that decodes scancodes and feeds the
  ASCII and the raw ring, and the functions that empty them. The two rings have the same shape, so they
  share one record. The scancode the controller delivers is an argument of the handler; a blocking read
  of an empty ring is \<open>None\<close>.
\<close>

section \<open>Queues that drop what does not fit\<close>

locale dropping_fifo = bounded_fifo +
  assumes put_full: "inv s \<Longrightarrow> length (content s) = cap \<Longrightarrow> put x s = s"
begin

lemma fold_put_drops:
  "inv s \<Longrightarrow> inv (fold put xs s) \<and> content (fold put xs s) = take cap (content s @ xs)"
proof (induction xs arbitrary: s)
  case Nil
  then show ?case using content_cap by simp
next
  case (Cons x xs)
  show ?case
  proof (cases "length (content s) < cap")
    case True
    then have "cap - length (content s) = Suc (cap - Suc (length (content s)))" by simp
    then show ?thesis using Cons put_effect[of s x] True by simp
  next
    case False
    then have "length (content s) = cap" using content_cap[OF Cons.prems] by simp
    then show ?thesis using Cons put_full[OF Cons.prems] by simp
  qed
qed

lemma drops_then_drains:
  assumes "inv s"
  shows "fst (drain nonempty get n (fold put xs s)) = take n (take cap (content s @ xs))"
  using fold_put_drops[OF assms, of xs] drain_effect[of "fold put xs s" n]
  by (metis prod.collapse)

end

section \<open>State\<close>

definition KB_BUFFER_SIZE :: nat where "KB_BUFFER_SIZE = 256"

record 'e kring =
  kr_buf :: "'e list"
  kr_head :: u8
  kr_tail :: u8

record keyboard =
  kb_ascii :: "u8 kring"
  kb_raw :: "u16 kring"
  ctrl_pressed :: bool
  shift_pressed :: bool

definition scancode_map :: "u8 list" where
  "scancode_map =
     [0, 27] @ bytes ''1234567890-='' @ [8, 9] @ bytes ''qwertyuiop[]'' @ [10, 0] @ bytes ''asdfghjkl;'' @ [39, 96]
     @ [0, 92] @ bytes ''zxcvbnm,./'' @ [0, 42] @ [0, 32] @ replicate 70 0"

definition scancode_map_shift :: "u8 list" where
  "scancode_map_shift =
     [0, 27] @ bytes ''!@#$%^&*()_+'' @ [8, 9] @ bytes ''QWERTYUIOP{}'' @ [10, 0] @ bytes ''ASDFGHJKL:'' @ [34, 126]
     @ [0, 124] @ bytes ''ZXCVBNM<>?'' @ [0, 42] @ [0, 32] @ replicate 70 0"

section \<open>Operations\<close>

text \<open>The index arithmetic \<open>(head + 1) % 256\<close> is the wrap-around of the 8-bit index.\<close>

definition kr_put :: "'e \<Rightarrow> 'e kring \<Rightarrow> 'e kring" where
  "kr_put x r =
     (let nxt = kr_head r + 1 in
      if nxt \<noteq> kr_tail r then r\<lparr>kr_buf := (kr_buf r)[unat (kr_head r) := x], kr_head := nxt\<rparr> else r)"

definition kr_get :: "'e kring \<Rightarrow> 'e \<times> 'e kring" where
  "kr_get r = (kr_buf r ! unat (kr_tail r), r\<lparr>kr_tail := kr_tail r + 1\<rparr>)"

definition kr_nonempty :: "'e kring \<Rightarrow> bool" where
  "kr_nonempty r \<longleftrightarrow> kr_head r \<noteq> kr_tail r"

definition keyboard_flush :: "keyboard \<Rightarrow> keyboard" where
  "keyboard_flush k = k\<lparr>kb_ascii := (kb_ascii k)\<lparr>kr_head := 0, kr_tail := 0\<rparr>, kb_raw := (kb_raw k)\<lparr>kr_head := 0, kr_tail := 0\<rparr>\<rparr>"

definition keyboard_callback :: "u8 \<Rightarrow> keyboard \<Rightarrow> keyboard" where
  "keyboard_callback scancode k =
     (if scancode = 0x1D then k\<lparr>ctrl_pressed := True\<rparr>
      else if scancode = 0x9D then k\<lparr>ctrl_pressed := False\<rparr>
      else if scancode = 0x2A \<or> scancode = 0x36 then k\<lparr>shift_pressed := True\<rparr>
      else if scancode = 0xAA \<or> scancode = 0xB6 then k\<lparr>shift_pressed := False\<rparr>
      else if scancode AND 0x80 \<noteq> 0 then k
      else
        let c = (if ctrl_pressed k \<and> scancode = 0x2E then 3
                 else if shift_pressed k then scancode_map_shift ! unat (scancode AND 0x7F)
                 else scancode_map ! unat (scancode AND 0x7F));
            raw = ucast scancode OR (if ctrl_pressed k then 0x100 else 0) OR (if shift_pressed k then 0x200 else 0);
            k = k\<lparr>kb_raw := kr_put raw (kb_raw k)\<rparr>
        in if c \<noteq> 0 then k\<lparr>kb_ascii := kr_put c (kb_ascii k)\<rparr> else k)"

definition keyboard_getchar :: "keyboard \<Rightarrow> (u8 \<times> keyboard) option" where
  "keyboard_getchar k =
     (if \<not> kr_nonempty (kb_ascii k) then None
      else let (c, r) = kr_get (kb_ascii k) in Some (c, k\<lparr>kb_ascii := r\<rparr>))"

definition keyboard_getchar_nowait :: "keyboard \<Rightarrow> int \<times> keyboard" where
  "keyboard_getchar_nowait k =
     (if \<not> kr_nonempty (kb_ascii k) then (-1, k)
      else let (c, r) = kr_get (kb_ascii k) in (int (unat c), k\<lparr>kb_ascii := r\<rparr>))"

definition keyboard_haschar :: "keyboard \<Rightarrow> bool" where
  "keyboard_haschar k \<longleftrightarrow> kr_nonempty (kb_ascii k)"

definition keyboard_raw_nowait :: "keyboard \<Rightarrow> int \<times> keyboard" where
  "keyboard_raw_nowait k =
     (if \<not> kr_nonempty (kb_raw k) then (-1, k)
      else let (c, r) = kr_get (kb_raw k) in (int (unat c), k\<lparr>kb_raw := r\<rparr>))"

section \<open>The rings are bounded queues\<close>

definition kr_wf :: "'e kring \<Rightarrow> bool" where
  "kr_wf r \<longleftrightarrow> length (kr_buf r) = KB_BUFFER_SIZE"

definition kr_content :: "'e kring \<Rightarrow> 'e list" where
  "kr_content r = ring (kr_buf r) (unat (kr_tail r)) (unat (kr_head r - kr_tail r))"

lemma u8_diff_add: "(unat t + unat (h - t)) mod 256 = unat (h :: u8)"
proof -
  have "unat h = unat (t + (h - t))" by simp
  also have "\<dots> = (unat t + unat (h - t)) mod 256" by (simp only: unat_word_ariths) simp
  finally show ?thesis by simp
qed

lemma u8_succ: "unat (t + 1 :: u8) = (unat t + 1) mod 256"
  by (simp add: unat_word_ariths)

lemma u8_succ_less: "(x :: u8) + 1 \<noteq> 0 \<Longrightarrow> unat (x + 1) = unat x + 1"
  using unatSuc[of x] by (simp add: add.commute)

lemma unat_max: "unat (- 1 :: u8) = 255"
  by (simp add: unsigned_minus_1_eq_mask mask_eq_exp_minus_1)

lemma kr_put_effect:
  assumes "kr_wf r" "length (kr_content r) < 255"
  shows "kr_wf (kr_put x r) \<and> kr_content (kr_put x r) = kr_content r @ [x]"
proof -
  let ?n = "kr_head r - kr_tail r"
  have n: "unat ?n < 255" using assms(2) by (simp add: kr_content_def)
  have ne: "?n + 1 \<noteq> 0"
  proof
    assume "?n + 1 = 0"
    then have "?n = - 1" by (metis add_eq_0_iff2)
    then show False using n unat_max by simp
  qed
  then have nf: "kr_head r + 1 \<noteq> kr_tail r" by (metis add.commute add_diff_eq right_minus_eq)
  have grow: "unat (kr_head r + 1 - kr_tail r) = Suc (unat ?n)"
    using u8_succ_less[OF ne] by (simp add: algebra_simps)
  have len: "length (kr_buf r) = 256" using assms(1) by (simp add: kr_wf_def KB_BUFFER_SIZE_def)
  have "kr_content (kr_put x r) = ring ((kr_buf r)[unat (kr_head r) := x]) (unat (kr_tail r)) (Suc (unat ?n))"
    using nf grow by (simp add: kr_put_def Let_def kr_content_def)
  also have "\<dots> = kr_content r @ [x]"
    using ring_put[of "unat ?n" "kr_buf r" "unat (kr_tail r)" x] n u8_diff_add[of "kr_tail r" "kr_head r"]
    by (simp add: len kr_content_def)
  finally show ?thesis using nf len by (simp add: kr_wf_def kr_put_def Let_def KB_BUFFER_SIZE_def)
qed

lemma kr_get_effect:
  assumes "kr_wf r" "kr_head r \<noteq> kr_tail r"
  shows "kr_wf (snd (kr_get r)) \<and> kr_content r = fst (kr_get r) # kr_content (snd (kr_get r))"
proof -
  let ?n = "kr_head r - kr_tail r"
  have "?n \<noteq> 0" using assms(2) by simp
  then have n: "unat ?n = Suc (unat (kr_head r - (kr_tail r + 1)))"
    using unat_minus_one[of ?n] unat_gt_0[of ?n] by (simp add: diff_diff_eq)
  have len: "length (kr_buf r) = 256" using assms(1) by (simp add: kr_wf_def KB_BUFFER_SIZE_def)
  show ?thesis
    using ring_get[of "unat (kr_tail r)" "kr_buf r" "unat (kr_head r - (kr_tail r + 1))"] unat_u8[of "kr_tail r"]
    by (simp add: kr_content_def kr_get_def n len u8_succ kr_wf_def KB_BUFFER_SIZE_def)
qed

lemma kr_nonempty_content: "kr_nonempty r \<longleftrightarrow> kr_content r \<noteq> []"
proof -
  have "kr_content r = [] \<longleftrightarrow> length (kr_content r) = 0" by simp
  also have "\<dots> \<longleftrightarrow> kr_head r = kr_tail r" by (simp add: kr_content_def unat_eq_zero)
  finally show ?thesis by (simp add: kr_nonempty_def)
qed

lemma kr_put_full: "length (kr_content r) = 255 \<Longrightarrow> kr_put x r = r"
proof -
  assume "length (kr_content r) = 255"
  then have "unat (kr_head r - kr_tail r) = unat (- 1 :: u8)" using unat_max by (simp add: kr_content_def)
  then have "kr_head r - kr_tail r = - 1" by (simp only: word_unat_eq_iff)
  then have "kr_head r + 1 = kr_tail r" by (simp add: diff_eq_eq)
  then show ?thesis by (simp add: kr_put_def)
qed

interpretation kring: dropping_fifo kr_wf kr_content 255 kr_put kr_get kr_nonempty
proof unfold_locales
  show "length (kr_content r) \<le> 255" if "kr_wf r" for r :: "'a kring"
    using unat_u8[of "kr_head r - kr_tail r"] by (simp add: kr_content_def)
  show "kr_wf (kr_put x r) \<and> kr_content (kr_put x r) = kr_content r @ [x]"
    if "kr_wf r" "length (kr_content r) < 255" for r :: "'a kring" and x
    using that by (rule kr_put_effect)
  show "kr_wf (snd (kr_get r)) \<and> kr_content r = fst (kr_get r) # kr_content (snd (kr_get r))"
    if "kr_wf r" "kr_content r \<noteq> []" for r :: "'a kring"
    using that(1) by (rule kr_get_effect) (use that(2) kr_nonempty_content[of r] kr_nonempty_def[of r] in blast)
  show "kr_nonempty r \<longleftrightarrow> kr_content r \<noteq> []" if "kr_wf r" for r :: "'a kring"
    by (rule kr_nonempty_content)
  show "kr_put x r = r" if "kr_wf r" "length (kr_content r) = 255" for r :: "'a kring" and x
    using that(2) by (rule kr_put_full)
qed

section \<open>Decoding\<close>

text \<open>What a sequence of scancodes means, without the rings: the characters and the raw codes of its
  key presses, given the modifiers held at its start.\<close>

fun typed :: "bool \<Rightarrow> bool \<Rightarrow> u8 list \<Rightarrow> u8 list \<times> u16 list" where
  "typed ctrl shift [] = ([], [])"
| "typed ctrl shift (code # codes) =
     (if code = 0x1D \<or> code = 0x9D then typed (code = 0x1D) shift codes
      else if code \<in> {0x2A, 0x36, 0xAA, 0xB6} then typed ctrl (code = 0x2A \<or> code = 0x36) codes
      else if code \<ge> 0x80 then typed ctrl shift codes
      else
        let (chars, raws) = typed ctrl shift codes;
            c = (if ctrl \<and> code = 0x2E then 3 else (if shift then scancode_map_shift else scancode_map) ! unat code);
            raw = of_nat (unat code + (if ctrl then 0x100 else 0) + (if shift then 0x200 else 0))
        in (if c = 0 then chars else c # chars, raw # raws))"

lemma code_bits_all:
  "list_all (\<lambda>n. (of_nat n AND 0x80 \<noteq> (0 :: u8)) = (of_nat n \<ge> (0x80 :: u8))
      \<and> (n < 128 \<longrightarrow> of_nat n AND 0x7F = (of_nat n :: u8)
        \<and> ucast (of_nat n :: u8) OR 0x100 = (of_nat (n + 0x100) :: u16) \<and> ucast (of_nat n :: u8) OR 0x200 = (of_nat (n + 0x200) :: u16)
        \<and> ucast (of_nat n :: u8) OR 0x300 = (of_nat (n + 0x300) :: u16))) [0 ..< 256]"
  by code_simp

lemma code_bits:
  fixes code :: u8
  shows "(code AND 0x80 \<noteq> 0) = (code \<ge> 0x80)"
    and "code < 0x80 \<Longrightarrow> code AND 0x7F = code"
    and "code < 0x80 \<Longrightarrow> ucast code OR (if c then 0x100 else 0) OR (if sh then 0x200 else 0)
      = (of_nat (unat code + (if c then 0x100 else 0) + (if sh then 0x200 else 0)) :: u16)"
proof -
  have "unat code \<in> set [0 ..< 256]" using unat_u8[of code] by simp
  note all = code_bits_all[unfolded list_all_iff, THEN bspec, OF this]
  show "(code AND 0x80 \<noteq> 0) = (code \<ge> 0x80)" using all by simp
  assume "code < 0x80"
  then have lt: "unat code < 128" by (simp add: word_less_nat_alt)
  show "code AND 0x7F = code" using all lt by simp
  show "ucast code OR (if c then 0x100 else 0) OR (if sh then 0x200 else 0)
      = (of_nat (unat code + (if c then 0x100 else 0) + (if sh then 0x200 else 0)) :: u16)"
    using all lt by (cases c; cases sh) (simp_all add: add.commute)
qed

lemma callbacks_feed:
  "kb_ascii (fold keyboard_callback codes k) = fold kr_put (fst (typed (ctrl_pressed k) (shift_pressed k) codes)) (kb_ascii k)
   \<and> kb_raw (fold keyboard_callback codes k) = fold kr_put (snd (typed (ctrl_pressed k) (shift_pressed k) codes)) (kb_raw k)"
proof (induction codes arbitrary: k)
  case (Cons code codes)
  show ?case
  proof (cases "code \<in> {0x1D, 0x9D, 0x2A, 0x36, 0xAA, 0xB6}")
    case True
    then show ?thesis using Cons[of "keyboard_callback code k"] by (auto simp: keyboard_callback_def)
  next
    case False
    show ?thesis
    proof (cases "code \<ge> 0x80")
      case True
      then show ?thesis using Cons[of "keyboard_callback code k"] False code_bits(1)[of code]
        by (simp add: keyboard_callback_def)
    next
      case lt: False
      let ?c = "if ctrl_pressed k \<and> code = 0x2E then 3
        else (if shift_pressed k then scancode_map_shift else scancode_map) ! unat code"
      let ?raw = "of_nat (unat code + (if ctrl_pressed k then 0x100 else 0) + (if shift_pressed k then 0x200 else 0)) :: u16"
      let ?k = "k\<lparr>kb_raw := kr_put ?raw (kb_raw k)\<rparr>" and ?t = "typed (ctrl_pressed k) (shift_pressed k) codes"
      have code: "\<not> code AND 0x80 \<noteq> 0" "code AND 0x7F = code"
        "ucast code OR (if ctrl_pressed k then 0x100 else 0) OR (if shift_pressed k then 0x200 else 0) = ?raw"
        using lt by (simp_all only: code_bits not_le)
      have cb: "keyboard_callback code k = (if ?c = 0 then ?k else ?k\<lparr>kb_ascii := kr_put ?c (kb_ascii k)\<rparr>)"
        using False code by (auto simp: keyboard_callback_def Let_def)
      have ty: "typed (ctrl_pressed k) (shift_pressed k) (code # codes) = (if ?c = 0 then fst ?t else ?c # fst ?t, ?raw # snd ?t)"
        using False lt by (simp add: Let_def split_beta)
      show ?thesis
        using Cons[of "if ?c = 0 then ?k else ?k\<lparr>kb_ascii := kr_put ?c (kb_ascii k)\<rparr>"]
        unfolding fold_simps cb ty by (cases "?c = 0") simp_all
    qed
  qed
qed simp

lemma drain_ascii:
  "drain keyboard_haschar keyboard_getchar_nowait n k =
     (map (\<lambda>c. int (unat c)) (fst (drain kr_nonempty kr_get n (kb_ascii k))), k\<lparr>kb_ascii := snd (drain kr_nonempty kr_get n (kb_ascii k))\<rparr>)"
  by (induction n arbitrary: k) (auto simp: keyboard_haschar_def keyboard_getchar_nowait_def split_beta Let_def)

lemma drain_raw:
  "fst (drain (\<lambda>k. kr_nonempty (kb_raw k)) keyboard_raw_nowait n k) =
     map (\<lambda>c. int (unat c)) (fst (drain kr_nonempty kr_get n (kb_raw k)))"
  by (induction n arbitrary: k) (auto simp: keyboard_raw_nowait_def split_beta Let_def)

text \<open>
  C36. What is typed is what is read. Whatever sequence of scancodes the controller delivers after a flush,
  reading the keyboard returns the characters of its key presses in order, with the modifiers that were
  held; only presses beyond the 255 a ring holds are dropped, and always the latest ones. The same holds
  of the raw scancodes with their modifier bits.
\<close>

theorem keyboard_refines_typing:
  assumes "kr_wf (kb_ascii k)" "kr_wf (kb_raw k)"
  shows "fst (drain keyboard_haschar keyboard_getchar_nowait n (fold keyboard_callback codes (keyboard_flush k)))
      = map (\<lambda>c. int (unat c)) (take n (take 255 (fst (typed (ctrl_pressed k) (shift_pressed k) codes))))
    \<and> fst (drain (\<lambda>k. kr_nonempty (kb_raw k)) keyboard_raw_nowait n (fold keyboard_callback codes (keyboard_flush k)))
      = map (\<lambda>c. int (unat c)) (take n (take 255 (snd (typed (ctrl_pressed k) (shift_pressed k) codes))))"
proof -
  have wf: "kr_wf (kb_ascii (keyboard_flush k))" "kr_content (kb_ascii (keyboard_flush k)) = []"
    "kr_wf (kb_raw (keyboard_flush k))" "kr_content (kb_raw (keyboard_flush k)) = []"
    "ctrl_pressed (keyboard_flush k) = ctrl_pressed k" "shift_pressed (keyboard_flush k) = shift_pressed k"
    using assms by (simp_all add: keyboard_flush_def kr_wf_def kr_content_def)
  show ?thesis
    unfolding drain_ascii drain_raw using callbacks_feed[of codes "keyboard_flush k"]
      kring.drops_then_drains[OF wf(1)] kring.drops_then_drains[OF wf(3)] wf by simp
qed

theorem keyboard_refines_typing_witness:
  "fst (drain keyboard_haschar keyboard_getchar_nowait 9 (fold keyboard_callback [0x2A, 0x23, 0xAA, 0x17, 0x1D, 0x2E, 0x9D, 0x2E]
       (keyboard_flush \<lparr>kb_ascii = \<lparr>kr_buf = replicate 256 0, kr_head = 250, kr_tail = 3\<rparr>,
                        kb_raw = \<lparr>kr_buf = replicate 256 0, kr_head = 9, kr_tail = 9\<rparr>,
                        ctrl_pressed = False, shift_pressed = False\<rparr>))) = [72, 105, 3, 99]"
proof -
  let ?k = "\<lparr>kb_ascii = \<lparr>kr_buf = replicate 256 0, kr_head = 250, kr_tail = 3\<rparr>,
    kb_raw = \<lparr>kr_buf = replicate 256 0, kr_head = 9, kr_tail = 9\<rparr>, ctrl_pressed = False, shift_pressed = False\<rparr> :: keyboard"
  let ?codes = "[0x2A, 0x23, 0xAA, 0x17, 0x1D, 0x2E, 0x9D, 0x2E] :: u8 list"
  have "kr_wf (kb_ascii ?k)" "kr_wf (kb_raw ?k)" by (simp_all add: kr_wf_def KB_BUFFER_SIZE_def)
  from keyboard_refines_typing[OF this, of 9 ?codes, THEN conjunct1]
  show ?thesis
    by (rule trans) code_simp
qed

end
