(* ===== verification/Ramfs.thy ===== *)
theory Ramfs
  imports Prelude
begin

text \<open>
  The read-only RAM file system: the image builder (tools/make_ramfs.py) and the kernel's lookup in the image
  (kernel/ramfs.c). The image is the memory from \<open>ramfs_base\<close> on, addressed by 32-bit offsets, so that a lookup
  reading past the image reads whatever memory holds there.
\<close>

section \<open>The image builder\<close>

definition ENTRY_NAME_LEN :: nat where "ENTRY_NAME_LEN = 32"
definition HEADER_SIZE_RAMFS :: nat where "HEADER_SIZE_RAMFS = 4"
definition ENTRY_SIZE :: nat where "ENTRY_SIZE = ENTRY_NAME_LEN + 4 + 4"

definition pack_u32 :: "nat \<Rightarrow> u8 list option" where
  "pack_u32 n =
     (if n < 2 ^ 32 then let v = (of_nat n :: u32) in Some [ucast v, ucast (drop_bit 8 v), ucast (drop_bit 16 v), ucast (drop_bit 24 v)]
      else None)"

definition pack_name :: "u8 list \<Rightarrow> u8 list option" where
  "pack_name name =
     (if \<not> list_all (\<lambda>c. c < 128) name \<or> length name \<ge> ENTRY_NAME_LEN then None
      else Some (name @ replicate (ENTRY_NAME_LEN - length name) 0))"

text \<open>The entries with their offsets.\<close>

fun layout :: "nat \<Rightarrow> (u8 list \<times> u8 list) list \<Rightarrow> (u8 list \<times> nat \<times> u8 list) list" where
  "layout offset [] = []"
| "layout offset ((name, data) # files) = (name, offset, data) # layout (offset + length data) files"

fun pack_entries :: "(u8 list \<times> nat \<times> u8 list) list \<Rightarrow> u8 list option" where
  "pack_entries [] = Some []"
| "pack_entries ((name, offset, data) # es) =
     (case (pack_name name, pack_u32 offset, pack_u32 (length data), pack_entries es) of
        (Some n, Some off, Some sz, Some rest) \<Rightarrow> Some (n @ off @ sz @ rest)
      | _ \<Rightarrow> None)"

definition make_ramfs :: "(u8 list \<times> u8 list) list \<Rightarrow> u8 list option" where
  "make_ramfs files =
     (if files = [] then None
      else let data_start = HEADER_SIZE_RAMFS + length files * ENTRY_SIZE; entries = layout data_start files in
        case (pack_u32 (length files), pack_entries entries) of
          (Some header, Some es) \<Rightarrow> Some (header @ es @ concat (map snd files))
        | _ \<Rightarrow> None)"

section \<open>The lookup\<close>

record ramfs =
  ramfs_mounted :: bool
  ramfs_mem :: mem
  ramfs_size :: u32
  ramfs_nfiles :: u32

definition ramfs_none :: ramfs where
  "ramfs_none = \<lparr>ramfs_mounted = False, ramfs_mem = (\<lambda>_. 0), ramfs_size = 0, ramfs_nfiles = 0\<rparr>"

text \<open>\<open>data\<close> is the memory at the module's address; \<open>None\<close> is a null pointer.\<close>

definition ramfs_init :: "mem option \<Rightarrow> u32 \<Rightarrow> ramfs \<Rightarrow> ramfs" where
  "ramfs_init data sz r =
     (case data of None \<Rightarrow> r
      | Some m \<Rightarrow> if sz < 4 then r
          else \<lparr>ramfs_mounted = True, ramfs_mem = m, ramfs_size = sz, ramfs_nfiles = read32 m 0\<rparr>)"

text \<open>The comparison of a terminated name with the bytes at an address.\<close>

fun str_matches :: "u8 list \<Rightarrow> mem \<Rightarrow> u32 \<Rightarrow> bool" where
  "str_matches [] m b = (m b = 0)"
| "str_matches (c # a) m b = (if c = m b then str_matches a m (b + 1) else False)"

function ramfs_find_from :: "u32 \<Rightarrow> u8 list \<Rightarrow> ramfs \<Rightarrow> (u32 \<times> u32) option" where
  "ramfs_find_from i name r =
     (if i < ramfs_nfiles r then
        let e = 4 + 40 * i; offset = read32 (ramfs_mem r) (e + 32); sz = read32 (ramfs_mem r) (e + 36) in
        if \<not> str_matches name (ramfs_mem r) e then ramfs_find_from (i + 1) name r
        else if offset + sz > ramfs_size r then None
        else Some (offset, sz)
      else None)"
  by pat_completeness auto
termination
proof (relation "measure (\<lambda>(i, name, r). unat (ramfs_nfiles r) - unat i)", goal_cases)
  case (2 i name r)
  then have "unat i < unat (ramfs_nfiles r)" by (simp add: word_less_nat_alt)
  moreover have "unat (i + 1) = unat i + 1"
    using \<open>unat i < unat (ramfs_nfiles r)\<close> unat_u32[of "ramfs_nfiles r"] by (simp add: unat_word_ariths)
  ultimately show ?case by simp
qed simp

declare ramfs_find_from.simps [simp del]

definition ramfs_find :: "u8 list \<Rightarrow> ramfs \<Rightarrow> (u32 \<times> u32) option" where
  "ramfs_find name r = (if \<not> ramfs_mounted r then None else ramfs_find_from 0 name r)"

section \<open>Bytes in memory\<close>

definition holds :: "mem \<Rightarrow> u32 \<Rightarrow> u8 list \<Rightarrow> bool" where
  "holds m a xs \<longleftrightarrow> list_all (\<lambda>k. m (a + of_nat k) = xs ! k) [0 ..< length xs]"

lemma holds_iff: "holds m a xs \<longleftrightarrow> (\<forall>k < length xs. m (a + of_nat k) = xs ! k)"
  by (simp add: holds_def list_all_iff Ball_def)

lemma holds_Nil [simp]: "holds m a []"
  by (simp add: holds_def)

lemma holds_Cons [simp]: "holds m a (x # xs) \<longleftrightarrow> m a = x \<and> holds m (a + 1) xs"
  unfolding holds_iff by (auto simp: less_Suc_eq_0_disj ac_simps)

lemma holds_append [simp]: "holds m a (xs @ ys) \<longleftrightarrow> holds m a xs \<and> holds m (a + of_nat (length xs)) ys"
  by (induction xs arbitrary: a) (auto simp: ac_simps)

lemma holds_u32:
  assumes "pack_u32 n = Some bs" "holds m a bs"
  shows "read32 m a = of_nat n" "length bs = 4" "n < 2 ^ 32"
  using assms split_bytes[of "of_nat n"] by (auto simp: pack_u32_def read32_def Let_def ac_simps split: if_splits)

lemma str_matches_holds:
  "holds m a (n @ replicate k 0) \<Longrightarrow> 0 < k \<Longrightarrow> 0 \<notin> set n \<Longrightarrow> 0 \<notin> set name \<Longrightarrow> str_matches name m a \<longleftrightarrow> name = n"
proof (induction name arbitrary: n a)
  case Nil
  then show ?case by (cases n; cases k) auto
next
  case (Cons c name)
  show ?case
  proof (cases n)
    case Nil
    then show ?thesis using Cons.prems by (cases k) auto
  next
    case (Cons d n')
    then show ?thesis using Cons.IH[of "a + 1" n'] Cons.prems by auto
  qed
qed

section \<open>The kernel finds what the builder stored\<close>

lemma pack_entries_Cons:
  assumes "pack_entries ((name, offset, data) # es) = Some bs"
  obtains n off sz rest where "pack_name name = Some n" "pack_u32 offset = Some off" "pack_u32 (length data) = Some sz"
    "pack_entries es = Some rest" "bs = n @ off @ sz @ rest"
  using assms by (auto split: option.splits)

definition lookup_entry :: "u32 \<Rightarrow> u8 list \<Rightarrow> (u8 list \<times> nat \<times> u8 list) list \<Rightarrow> (u32 \<times> u32) option" where
  "lookup_entry sz name es =
     (case find (\<lambda>(n, _). n = name) es of None \<Rightarrow> None
      | Some (_, off, data) \<Rightarrow>
          if of_nat off + of_nat (length data) > sz then None else Some (of_nat off, of_nat (length data)))"

lemma find_from_entries:
  assumes "pack_entries es = Some bs" "holds (ramfs_mem r) (4 + 40 * of_nat i) bs" "unat (ramfs_nfiles r) = i + length es"
    "list_all (\<lambda>(n, _). 0 \<notin> set n) es" "0 \<notin> set name"
  shows "ramfs_find_from (of_nat i) name r = lookup_entry (ramfs_size r) name es"
  using assms
proof (induction es arbitrary: i bs)
  case Nil
  then have "of_nat i = ramfs_nfiles r" by (metis add.right_neutral list.size(3) of_nat_unat_id)
  then show ?case by (simp add: ramfs_find_from.simps[of "ramfs_nfiles r"] lookup_entry_def)
next
  case (Cons e es)
  obtain n0 off0 data where e: "e = (n0, off0, data)" by (cases e)
  obtain n off sz rest where p: "pack_name n0 = Some n" "pack_u32 off0 = Some off" "pack_u32 (length data) = Some sz"
      "pack_entries es = Some rest" "bs = n @ off @ sz @ rest"
    using Cons.prems(1) unfolding e by (rule pack_entries_Cons)
  let ?a = "4 + 40 * of_nat i :: u32"
  have n: "n = n0 @ replicate (32 - length n0) 0" "length n0 < 32" "length n = 32"
    using p(1) by (auto simp: pack_name_def ENTRY_NAME_LEN_def split: if_splits)
  have len: "length off = 4" "length sz = 4" using p(2,3) by (auto simp: pack_u32_def Let_def split: if_splits)
  have h: "holds (ramfs_mem r) ?a n" "holds (ramfs_mem r) (?a + 32) off" "holds (ramfs_mem r) (?a + 36) sz"
      "holds (ramfs_mem r) (4 + 40 * of_nat (Suc i)) rest"
    using Cons.prems(2) by (simp_all add: p(5) n(3) len algebra_simps)
  have rd: "read32 (ramfs_mem r) (?a + 32) = of_nat off0" "read32 (ramfs_mem r) (?a + 36) = of_nat (length data)"
    using holds_u32(1)[OF p(2) h(2)] holds_u32(1)[OF p(3) h(3)] by simp_all
  have m: "str_matches name (ramfs_mem r) ?a \<longleftrightarrow> name = n0"
    using h(1) n(2) Cons.prems(4,5) unfolding n(1) e by (intro str_matches_holds) auto
  have lt: "of_nat i < ramfs_nfiles r"
    using Cons.prems(3) unat_u32[of "ramfs_nfiles r"] by (simp add: word_less_nat_alt unat_of_nat take_bit_eq_mod)
  have ih: "ramfs_find_from (of_nat (Suc i)) name r = lookup_entry (ramfs_size r) name es"
    using Cons.IH[OF p(4) h(4)] Cons.prems(3-5) by simp
  have step: "ramfs_find_from (of_nat i) name r =
      (if name \<noteq> n0 then ramfs_find_from (of_nat (Suc i)) name r
       else if of_nat off0 + of_nat (length data) > ramfs_size r then None else Some (of_nat off0, of_nat (length data)))"
    using lt m rd by (subst ramfs_find_from.simps) (simp add: Let_def add.commute)
  show ?case unfolding step ih by (auto simp: e lookup_entry_def)
qed

lemma layout_find:
  "holds m (of_nat offset) (concat (map snd files)) \<Longrightarrow>
     (case find (\<lambda>(n, _). n = name) (layout offset files) of
        None \<Rightarrow> map_of files name = None
      | Some (_, off, data) \<Rightarrow> map_of files name = Some data \<and> holds m (of_nat off) data
          \<and> off + length data \<le> offset + length (concat (map snd files)))"
proof (induction offset files rule: layout.induct)
  case (2 offset n data files)
  then show ?case by (cases "n = name") (auto split: option.splits)
qed simp

lemma layout_names: "list_all (\<lambda>(n, _). P n) files \<Longrightarrow> list_all (\<lambda>(n, _). P n) (layout offset files)"
  by (induction offset files rule: layout.induct) auto

lemma length_layout [simp]: "length (layout offset files) = length files"
  by (induction offset files rule: layout.induct) auto

lemma length_pack_entries: "pack_entries es = Some bs \<Longrightarrow> length bs = 40 * length es"
  by (induction es arbitrary: bs rule: pack_entries.induct)
     (auto simp: pack_name_def pack_u32_def Let_def ENTRY_NAME_LEN_def split: option.splits if_splits)

lemma ramfs_find_image:
  assumes "make_ramfs files = Some img" "length img < 2 ^ 32" "holds m 0 img"
    "list_all (\<lambda>(n, _). 0 \<notin> set n) files" "0 \<notin> set name"
  shows "case ramfs_find name (ramfs_init (Some m) (of_nat (length img)) r) of
      None \<Rightarrow> map_of files name = None
    | Some (off, sz) \<Rightarrow> (\<exists>data. map_of files name = Some data \<and> unat sz = length data \<and> holds m off data)"
proof -
  let ?start = "4 + length files * 40" and ?d = "concat (map snd files)"
  let ?r = "ramfs_init (Some m) (of_nat (length img)) r"
  obtain hdr es where img: "pack_u32 (length files) = Some hdr" "pack_entries (layout ?start files) = Some es" "img = hdr @ es @ ?d"
    using assms(1) by (auto simp: make_ramfs_def Let_def HEADER_SIZE_RAMFS_def ENTRY_SIZE_def ENTRY_NAME_LEN_def
        split: if_splits option.splits)
  have "length hdr = 4" using img(1) by (auto simp: pack_u32_def Let_def split: if_splits)
  moreover have "length es = 40 * length files" using length_pack_entries[OF img(2)] by simp
  ultimately have h: "holds m 0 hdr" "holds m 4 es" "holds m (of_nat ?start) ?d" and len: "length img = ?start + length ?d"
    using assms(3) by (simp_all add: img(3) ac_simps)
  have nf: "read32 m 0 = of_nat (length files)" "length files < 2 ^ 32" using holds_u32[OF img(1) h(1)] by simp_all
  have r: "?r = \<lparr>ramfs_mounted = True, ramfs_mem = m, ramfs_size = of_nat (length img), ramfs_nfiles = of_nat (length files)\<rparr>"
  proof -
    have "unat (of_nat (length img) :: u32) = length img" using assms(2) by (simp add: unat_of_nat take_bit_eq_mod)
    then have "\<not> of_nat (length img) < (4 :: u32)" using len by (simp add: word_less_nat_alt del: of_nat_add)
    then show ?thesis using nf(1) by (simp add: ramfs_init_def)
  qed
  have "list_all (\<lambda>(n, _). 0 \<notin> set n) (layout ?start files)"
    using assms(4) by (rule layout_names)
  then have f: "ramfs_find name ?r = lookup_entry (of_nat (length img)) name (layout ?start files)"
    using find_from_entries[OF img(2), of ?r 0 name] h(2) nf(2) assms(5)
    by (simp add: ramfs_find_def r unat_of_nat take_bit_eq_mod)
  note lf = layout_find[OF h(3), of name]
  show ?thesis
  proof (cases "find (\<lambda>(n, _). n = name) (layout ?start files)")
    case None
    then show ?thesis using lf f by (simp add: lookup_entry_def)
  next
    case (Some x)
    obtain n off data where x: "x = (n, off, data)" by (cases x)
    have d: "map_of files name = Some data" "holds m (of_nat off) data" "off + length data \<le> length img"
      using lf Some x len by simp_all
    then have sz: "unat (of_nat (length data) :: u32) = length data" "unat (of_nat off + of_nat (length data) :: u32) = off + length data"
      "unat (of_nat (length img) :: u32) = length img"
      using assms(2) by (simp_all add: unat_of_nat take_bit_eq_mod flip: of_nat_add)
    then have "\<not> of_nat off + of_nat (length data) > (of_nat (length img) :: u32)"
      using d(3) by (simp add: word_less_nat_alt)
    then show ?thesis using d sz(1) Some x f by (simp add: lookup_entry_def)
  qed
qed

end
