(* ===== verification/Vfs.thy ===== *)
theory Vfs
  imports Ramfs Fat16 Pipe
begin

text \<open>
  The file dispatcher (kernel/fs/vfs.c): one descriptor type over the RAM file system, FAT16 and the two ends of
  a pipe. Every operation runs on the state of all three. The outer \<open>None\<close> is a FAT16 chain walk that does
  not return; a pipe operation is one interrupt-off round of the loop it calls.
\<close>

section \<open>Descriptors\<close>

datatype vfs_backend = VFS_NONE | VFS_RAMFS | VFS_FAT16 | VFS_PIPE_READ | VFS_PIPE_WRITE

record vfs_fd =
  fd_used :: bool
  fd_backend :: vfs_backend
  fd_first :: u32
  fd_size :: u32
  fd_pos :: u32
  fd_parent :: u32
  fd_name :: "u8 list"

definition closed_fd :: vfs_fd where
  "closed_fd = \<lparr>fd_used = False, fd_backend = VFS_NONE, fd_first = 0, fd_size = 0, fd_pos = 0, fd_parent = 0, fd_name = []\<rparr>"

record kfs =
  kf_ram :: ramfs
  kf_fat :: fat16
  kf_pipes :: pstate

definition vfs_store_name :: "u8 list \<Rightarrow> vfs_fd \<Rightarrow> vfs_fd" where
  "vfs_store_name name fd = fd\<lparr>fd_name := take 31 name\<rparr>"

fun last_component :: "u8 list \<Rightarrow> u8 list \<Rightarrow> u8 list" where
  "last_component [] last_part = last_part"
| "last_component (c # p) last_part = last_component p (if c = 47 then p else last_part)"

definition vfs_store_final_component :: "u8 list \<Rightarrow> vfs_fd \<Rightarrow> vfs_fd" where
  "vfs_store_final_component path fd = vfs_store_name (last_component path path) fd"

section \<open>Operations\<close>

definition fat_fd :: "u32 \<Rightarrow> u32 \<Rightarrow> u32 \<Rightarrow> u8 list \<Rightarrow> vfs_fd \<Rightarrow> vfs_fd" where
  "fat_fd cluster sz parent name fd = vfs_store_final_component name
     (fd\<lparr>fd_used := True, fd_backend := VFS_FAT16, fd_first := cluster, fd_size := sz, fd_pos := 0, fd_parent := parent\<rparr>)"

definition vfs_open :: "u32 \<Rightarrow> u8 list \<Rightarrow> vfs_fd \<Rightarrow> kfs \<Rightarrow> (int \<times> vfs_fd \<times> kfs) option" where
  "vfs_open cwd_cluster name fd s =
     (case ramfs_find name (kf_ram s) of
        Some (off, sz) \<Rightarrow>
          Some (0, vfs_store_name name
            (fd\<lparr>fd_used := True, fd_backend := VFS_RAMFS, fd_first := off, fd_size := sz, fd_pos := 0, fd_parent := 0\<rparr>), s)
      | None \<Rightarrow>
          if fat16_available (kf_fat s) then do {
            (found, fat) \<leftarrow> fat16_find cwd_cluster name (kf_fat s);
            let s = s\<lparr>kf_fat := fat\<rparr>;
            Some (case found of
                Resolved (cluster, sz, parent) \<Rightarrow> (0, fat_fd cluster sz parent name fd, s)
              | _ \<Rightarrow> (-1, fd, s))
          }
          else Some (-1, fd, s))"

definition vfs_create :: "u32 \<Rightarrow> u8 list \<Rightarrow> vfs_fd \<Rightarrow> kfs \<Rightarrow> (int \<times> vfs_fd \<times> kfs) option" where
  "vfs_create cwd_cluster name fd s = do {
     (r, fd, s) \<leftarrow> vfs_open cwd_cluster name fd s;
     if r = 0 then Some (0, fd, s)
     else if \<not> fat16_available (kf_fat s) then Some (-1, fd, s)
     else do {
       (created, fat) \<leftarrow> fat16_create cwd_cluster name (kf_fat s);
       let s = s\<lparr>kf_fat := fat\<rparr>;
       case created of
         None \<Rightarrow> Some (-1, fd, s)
       | Some parent \<Rightarrow> do {
           (found, fat) \<leftarrow> fat16_find cwd_cluster name (kf_fat s);
           let s = s\<lparr>kf_fat := fat\<rparr>;
           Some (case found of
               Resolved (cluster, sz, _) \<Rightarrow> (0, fat_fd cluster sz parent name fd, s)
             | _ \<Rightarrow> (-1, fd, s))
         }
     }
   }"

text \<open>A read delivers its return value and the bytes it stored, or blocks on an empty pipe; a write returns,
  has more rounds to do, or blocks on a full pipe.\<close>

datatype vfs_read_result = ReadRet int "u8 list" | ReadBlock

definition vfs_read :: "vfs_fd \<Rightarrow> u32 \<Rightarrow> kfs \<Rightarrow> (vfs_read_result \<times> vfs_fd \<times> kfs) option" where
  "vfs_read fd len s =
     (if \<not> fd_used fd \<or> len = 0 then Some (ReadRet (-1) [], fd, s)
      else case fd_backend fd of
        VFS_RAMFS \<Rightarrow>
          if \<not> ramfs_mounted (kf_ram s) then Some (ReadRet (-1) [], fd, s)
          else
            let avail = fd_size fd - fd_pos fd in
            if avail = 0 then Some (ReadRet 0 [], fd, s)
            else
              let len = (if len > avail then avail else len);
                  src = fd_first fd + fd_pos fd
              in Some (ReadRet (sint len) (map (\<lambda>i. ramfs_mem (kf_ram s) (src + of_nat i)) [0 ..< unat len]),
                       fd\<lparr>fd_pos := fd_pos fd + len\<rparr>, s)
      | VFS_FAT16 \<Rightarrow> do {
          (r, fat) \<leftarrow> fat16_read_at (fd_first fd) (fd_pos fd) len (fd_size fd) (kf_fat s);
          let s = s\<lparr>kf_fat := fat\<rparr>;
          Some (case r of None \<Rightarrow> (ReadRet (-1) [], fd, s)
            | Some bs \<Rightarrow> (ReadRet (int (length bs)) bs, fd\<lparr>fd_pos := fd_pos fd + of_nat (length bs)\<rparr>, s))
        }
      | VFS_PIPE_READ \<Rightarrow>
          Some (case pipe_read_round (unat (fd_first fd)) (unat len) (kf_pipes s) of (r, ps) \<Rightarrow>
            (case r of ReadErr \<Rightarrow> ReadRet (-1) [] | ReadDone bs \<Rightarrow> ReadRet (int (length bs)) bs | ReadBlocked \<Rightarrow> ReadBlock,
             fd, s\<lparr>kf_pipes := ps\<rparr>))
      | _ \<Rightarrow> Some (ReadRet (-1) [], fd, s))"

datatype vfs_write_result = WriteRet int | WriteMore nat | WriteBlock

text \<open>\<open>written\<close> is how much of the buffer the earlier rounds of a pipe write have delivered.\<close>

definition vfs_write :: "vfs_fd \<Rightarrow> u8 list \<Rightarrow> nat \<Rightarrow> kfs \<Rightarrow> (vfs_write_result \<times> vfs_fd \<times> kfs) option" where
  "vfs_write fd buf written s =
     (if \<not> fd_used fd then Some (WriteRet (-1), fd, s)
      else if fd_backend fd = VFS_PIPE_WRITE then
        Some (case pipe_write_round (unat (fd_first fd)) buf written (kf_pipes s) of (r, ps) \<Rightarrow>
          (case r of WriteErr \<Rightarrow> WriteRet (-1) | WriteDone \<Rightarrow> WriteRet 0 | WriteAgain n \<Rightarrow> WriteMore n | WriteBlocked \<Rightarrow> WriteBlock,
           fd, s\<lparr>kf_pipes := ps\<rparr>))
      else if fd_backend fd \<noteq> VFS_FAT16 then Some (WriteRet (-1), fd, s)
      else if buf = [] then Some (WriteRet 0, fd, s)
      else do {
        (r, fat) \<leftarrow> fat16_write_at (fd_parent fd) (fd_name fd) (fd_pos fd) buf (kf_fat s);
        let s = s\<lparr>kf_fat := fat\<rparr>;
        Some (case r of None \<Rightarrow> (WriteRet (-1), fd, s)
          | Some (n, first, sz) \<Rightarrow>
              (WriteRet (if n = length buf then 0 else -1),
               fd\<lparr>fd_first := first, fd_size := sz, fd_pos := fd_pos fd + of_nat n\<rparr>, s))
      })"

definition vfs_write_all :: "vfs_fd \<Rightarrow> u8 list \<Rightarrow> kfs \<Rightarrow> (int \<times> kfs) option" where
  "vfs_write_all fd buf s =
     (if \<not> fd_used fd \<or> fd_backend fd \<noteq> VFS_FAT16 then Some (-1, s)
      else map_option (\<lambda>(r, fat). (r, s\<lparr>kf_fat := fat\<rparr>)) (fat16_write_file (fd_parent fd) (fd_name fd) buf (kf_fat s)))"

definition vfs_close :: "vfs_fd \<Rightarrow> pstate \<Rightarrow> vfs_fd \<times> pstate" where
  "vfs_close fd s =
     (fd\<lparr>fd_used := False\<rparr>,
      if fd_used fd then
        let s = (if fd_backend fd = VFS_PIPE_READ then pipe_release_read (unat (fd_first fd)) s else s)
        in if fd_backend fd = VFS_PIPE_WRITE then pipe_release_write (unat (fd_first fd)) s else s
      else s)"

definition vfs_dup :: "vfs_fd \<Rightarrow> pstate \<Rightarrow> pstate" where
  "vfs_dup fd s =
     (if \<not> fd_used fd then s
      else let s = (if fd_backend fd = VFS_PIPE_READ then pipe_add_read_ref (unat (fd_first fd)) s else s)
           in if fd_backend fd = VFS_PIPE_WRITE then pipe_add_write_ref (unat (fd_first fd)) s else s)"

section \<open>Reading a system program\<close>

text \<open>Consecutive reads of the given lengths through one descriptor.\<close>

fun reads :: "u32 list \<Rightarrow> vfs_fd \<Rightarrow> kfs \<Rightarrow> u8 list" where
  "reads [] fd s = []"
| "reads (len # lens) fd s =
     (case vfs_read fd len s of Some (ReadRet n bs, fd, s) \<Rightarrow> bs @ reads lens fd s | _ \<Rightarrow> [])"

lemma vfs_read_ramfs:
  assumes "fd_used fd" "fd_backend fd = VFS_RAMFS" "ramfs_mounted (kf_ram s)" "len \<noteq> 0"
    "holds (ramfs_mem (kf_ram s)) (fd_first fd) data" "unat (fd_size fd) = length data" "unat (fd_pos fd) \<le> length data"
  shows "\<exists>n fd'. vfs_read fd len s = Some (ReadRet n (take (unat len) (drop (unat (fd_pos fd)) data)), fd', s)
    \<and> fd_used fd' \<and> fd_backend fd' = VFS_RAMFS \<and> fd_first fd' = fd_first fd \<and> fd_size fd' = fd_size fd
    \<and> unat (fd_pos fd') = min (length data) (unat (fd_pos fd) + unat len)"
proof -
  have av: "unat (fd_size fd - fd_pos fd) = length data - unat (fd_pos fd)"
    using assms(6,7) by (simp add: unat_sub word_le_nat_alt)
  show ?thesis
  proof (cases "unat (fd_pos fd) = length data")
    case True
    then have "fd_size fd - fd_pos fd = 0" using av by (simp add: unat_eq_zero)
    then show ?thesis using assms True by (simp add: vfs_read_def min_absorb1)
  next
    case False
    then have ne: "fd_size fd - fd_pos fd \<noteq> 0" using av assms(7) by (metis diff_is_0_eq le_antisym unat_0)
    let ?n = "if len > fd_size fd - fd_pos fd then fd_size fd - fd_pos fd else len"
    have n: "unat ?n = min (length data - unat (fd_pos fd)) (unat len)" using av by (simp add: word_less_nat_alt)
    have at: "ramfs_mem (kf_ram s) (fd_first fd + fd_pos fd + of_nat i) = data ! (unat (fd_pos fd) + i)"
      if "unat (fd_pos fd) + i < length data" for i
    proof -
      have "fd_first fd + fd_pos fd + of_nat i = fd_first fd + of_nat (unat (fd_pos fd) + i)" by (simp add: add.assoc)
      then show ?thesis using assms(5) that unfolding holds_iff by (simp only:)
    qed
    have bytes: "map (\<lambda>i. ramfs_mem (kf_ram s) (fd_first fd + fd_pos fd + of_nat i)) [0 ..< unat ?n]
        = take (unat len) (drop (unat (fd_pos fd)) data)"
      using assms(7) unfolding n by (intro nth_equalityI) (auto intro!: at)
    have "unat (fd_pos fd + ?n) = unat (fd_pos fd) + unat ?n"
      using n assms(6,7) unat_u32[of "fd_size fd"] by (subst unat_word_ariths) simp
    then show ?thesis using assms(1-4) ne bytes n assms(7) by (simp add: vfs_read_def Let_def)
  qed
qed

lemma reads_ramfs:
  assumes "fd_used fd" "fd_backend fd = VFS_RAMFS" "ramfs_mounted (kf_ram s)" "0 \<notin> set lens"
    "holds (ramfs_mem (kf_ram s)) (fd_first fd) data" "unat (fd_size fd) = length data" "unat (fd_pos fd) \<le> length data"
  shows "reads lens fd s = take (sum_list (map unat lens)) (drop (unat (fd_pos fd)) data)"
  using assms
proof (induction lens arbitrary: fd)
  case (Cons len lens)
  obtain n fd' where r: "vfs_read fd len s = Some (ReadRet n (take (unat len) (drop (unat (fd_pos fd)) data)), fd', s)"
      "fd_used fd'" "fd_backend fd' = VFS_RAMFS" "fd_first fd' = fd_first fd" "fd_size fd' = fd_size fd"
      "unat (fd_pos fd') = min (length data) (unat (fd_pos fd) + unat len)"
    using vfs_read_ramfs[OF Cons.prems(1-3) _ Cons.prems(5-7), of len] Cons.prems(4) by auto
  have "reads lens fd' s = take (sum_list (map unat lens)) (drop (unat (fd_pos fd')) data)"
    using Cons.IH[of fd'] Cons.prems r by auto
  moreover have "drop (unat (fd_pos fd')) data = drop (unat len) (drop (unat (fd_pos fd)) data)"
    unfolding r(6) by (cases "length data \<le> unat (fd_pos fd) + unat len") (simp_all add: min_def add.commute)
  ultimately show ?case using r(1) by (simp add: take_add)
qed simp

text \<open>
  C37. From the image builder to the reader: in a kernel booted with an image that \<open>make_ramfs\<close> built, opening
  the name of a packed file and reading it, in chunks of any sizes, returns the file's bytes in order and stops
  at its end. This holds whatever the disk contains: a file on disk never shadows a packed one.
\<close>

theorem ramfs_file_reads_back:
  assumes "make_ramfs files = Some img" "length img < 2 ^ 32" "holds m 0 img"
    "list_all (\<lambda>(n, _). 0 \<notin> set n) files" "map_of files name = Some data"
    "kf_ram s = ramfs_init (Some m) (of_nat (length img)) r" "0 \<notin> set lens"
  shows "\<exists>fd'. vfs_open cwd name fd s = Some (0, fd', s) \<and> reads lens fd' s = take (sum_list (map unat lens)) data"
proof -
  have "0 \<notin> set name" using assms(4) map_of_SomeD[OF assms(5)] by (auto simp: list_all_iff)
  note fi = ramfs_find_image[OF assms(1-4) this, of r]
  obtain off sz where f: "ramfs_find name (kf_ram s) = Some (off, sz)" "unat sz = length data" "holds m off data"
    using fi assms(5) unfolding assms(6) by (auto split: option.splits)
  then have mt: "ramfs_mounted (kf_ram s)" by (auto simp: ramfs_find_def split: if_splits)
  have "4 \<le> length img"
    using assms(1) by (auto simp: make_ramfs_def pack_u32_def Let_def split: if_splits option.splits)
  then have "\<not> (of_nat (length img) :: u32) < 4"
    using assms(2) by (simp add: word_less_nat_alt unat_of_nat take_bit_eq_mod)
  then have mem: "ramfs_mem (kf_ram s) = m" unfolding assms(6) by (simp add: ramfs_init_def)
  let ?fd = "vfs_store_name name
    (fd\<lparr>fd_used := True, fd_backend := VFS_RAMFS, fd_first := off, fd_size := sz, fd_pos := 0, fd_parent := 0\<rparr>)"
  have "vfs_open cwd name fd s = Some (0, ?fd, s)" using f(1) by (simp add: vfs_open_def)
  moreover have "reads lens ?fd s = take (sum_list (map unat lens)) data"
    using reads_ramfs[of ?fd s lens data] f mt mem assms(7) by (simp add: vfs_store_name_def)
  ultimately show ?thesis by blast
qed

text \<open>A kernel booted with the image of two small files, and a disk of any kind.\<close>

definition sample_files :: "(u8 list \<times> u8 list) list" where
  "sample_files = [([105], [1, 2, 3]), ([115, 104], [7, 8])]"

definition image_mem :: "u8 list \<Rightarrow> mem" where
  "image_mem img a = (if unat a < length img then img ! unat a else 0)"

definition booted_with :: "u8 list \<Rightarrow> kfs" where
  "booted_with img = \<lparr>kf_ram = ramfs_init (Some (image_mem img)) (of_nat (length img)) ramfs_none,
     kf_fat = undefined, kf_pipes = undefined\<rparr>"

lemma image_mem_holds: "length img < 2 ^ 32 \<Longrightarrow> holds (image_mem img) 0 img"
  by (simp add: holds_iff image_mem_def unat_of_nat take_bit_eq_mod)

theorem ramfs_file_reads_back_witness:
  "\<exists>img fd'. make_ramfs sample_files = Some img
     \<and> vfs_open 0 [115, 104] closed_fd (booted_with img) = Some (0, fd', booted_with img) \<and> reads [1, 5] fd' (booted_with img) = [7, 8]"
proof -
  have "map_option length (make_ramfs sample_files) = Some 89"
    by (simp add: make_ramfs_def sample_files_def pack_u32_def pack_name_def Let_def ENTRY_SIZE_def ENTRY_NAME_LEN_def HEADER_SIZE_RAMFS_def)
  then obtain img where img: "make_ramfs sample_files = Some img" "length img = 89" by blast
  then have lt: "length img < 2 ^ 32" by simp
  have f: "list_all (\<lambda>(n, _). 0 \<notin> set n) sample_files" "map_of sample_files [115, 104] = Some [7, 8]" "0 \<notin> set [1, 5 :: u32]"
    by (simp_all add: sample_files_def)
  have st: "kf_ram (booted_with img) = ramfs_init (Some (image_mem img)) (of_nat (length img)) ramfs_none"
    by (simp add: booted_with_def)
  show ?thesis
    using ramfs_file_reads_back[OF img(1) lt image_mem_holds[OF lt] f(1,2) st f(3), of 0 closed_fd] img(1) by auto
qed

end
