(* ===== verification/Files.thy ===== *)
theory Files
  imports Vfs Usermem Console
begin

text \<open>
  The system calls on file descriptors (kernel/syscall.c): the descriptor table of every process over the file
  dispatcher, user memory and the console. A call's result is its return value and the new state; the outer
  \<open>None\<close> is a FAT16 walk that does not return. A read or write that has to wait on a pipe is \<open>Suspended\<close> with
  the number of bytes it has already transferred.
\<close>

section \<open>State\<close>

definition FD_PER_PROC :: nat where "FD_PER_PROC = 8"
definition FD_BASE :: u32 where "FD_BASE = 3"
definition USER_STR_MAX :: u32 where "USER_STR_MAX = 64"
definition SYS_CHUNK :: nat where "SYS_CHUNK = 128"

record sys =
  sy_fds :: "vfs_fd list list"
  sy_fs :: kfs
  sy_vm :: vmm
  sy_vga :: vga
  sy_exec_arg :: "u8 list"
  sy_raw_mode_pid :: int

abbreviation sy_procs :: "sys \<Rightarrow> kproc" where
  "sy_procs s \<equiv> procs (kf_pipes (sy_fs s))"

abbreviation fd_at :: "sys \<Rightarrow> nat \<Rightarrow> nat \<Rightarrow> vfs_fd" where
  "fd_at s pslot j \<equiv> sy_fds s ! pslot ! j"

definition set_fd :: "nat \<Rightarrow> nat \<Rightarrow> vfs_fd \<Rightarrow> sys \<Rightarrow> sys" where
  "set_fd pslot j fd s = s\<lparr>sy_fds := (sy_fds s)[pslot := (sy_fds s ! pslot)[j := fd]]\<rparr>"

definition set_pipes :: "pstate \<Rightarrow> sys \<Rightarrow> sys" where
  "set_pipes ps s = s\<lparr>sy_fs := (sy_fs s)\<lparr>kf_pipes := ps\<rparr>\<rparr>"

definition proc_slot :: "kproc \<Rightarrow> nat option" where
  "proc_slot k = find (\<lambda>i. process_at i = current_process k) [0 ..< PROCESS_MAX]"

fun free_fd :: "vfs_fd list \<Rightarrow> nat \<Rightarrow> nat option" where
  "free_fd [] j = None"
| "free_fd (fd # row) j = (if \<not> fd_used fd then Some j else free_fd row (Suc j))"

text \<open>The descriptor a call names, if it is an open one of the caller.\<close>

definition fd_index :: "u32 \<Rightarrow> nat \<Rightarrow> sys \<Rightarrow> nat option" where
  "fd_index fd pslot s =
     (let idx = unat (fd - FD_BASE) in
      if fd < FD_BASE \<or> idx \<ge> FD_PER_PROC \<or> \<not> fd_used (fd_at s pslot idx) then None else Some idx)"

definition close_fd :: "nat \<Rightarrow> nat \<Rightarrow> sys \<Rightarrow> sys" where
  "close_fd pslot j s = (case vfs_close (fd_at s pslot j) (kf_pipes (sy_fs s)) of (fd, ps) \<Rightarrow> set_fd pslot j fd (set_pipes ps s))"

section \<open>Opening and closing\<close>

definition sys_open :: "u32 \<Rightarrow> sys \<Rightarrow> (u32 \<times> sys) option" where
  "sys_open user_name s =
     (case (current_process (sy_procs s), proc_slot (sy_procs s)) of
        (Some cur, Some pslot) \<Rightarrow>
          if user_name = 0 then Some (-1, s)
          else (case copy_user_str (p_cr3 (proc (sy_procs s) cur)) user_name USER_STR_MAX (sy_vm s) of
            None \<Rightarrow> Some (-1, s)
          | Some kname \<Rightarrow> (case free_fd (sy_fds s ! pslot) 0 of
              None \<Rightarrow> Some (-1, s)
            | Some j \<Rightarrow> do {
                (r, fd, fs) \<leftarrow> vfs_open (p_cwd_cluster (proc (sy_procs s) cur)) kname (fd_at s pslot j) (sy_fs s);
                Some (if r < 0 then -1 else FD_BASE + of_nat j, set_fd pslot j fd (s\<lparr>sy_fs := fs\<rparr>))
              }))
      | _ \<Rightarrow> Some (-1, s))"

definition sys_create :: "u32 \<Rightarrow> sys \<Rightarrow> (u32 \<times> sys) option" where
  "sys_create user_name s =
     (case (current_process (sy_procs s), proc_slot (sy_procs s)) of
        (Some cur, Some pslot) \<Rightarrow>
          if user_name = 0 then Some (-1, s)
          else (case copy_user_str (p_cr3 (proc (sy_procs s) cur)) user_name USER_STR_MAX (sy_vm s) of
            None \<Rightarrow> Some (-1, s)
          | Some kname \<Rightarrow> (case free_fd (sy_fds s ! pslot) 0 of
              None \<Rightarrow> Some (-1, s)
            | Some j \<Rightarrow> do {
                (r, fd, fs) \<leftarrow> vfs_create (p_cwd_cluster (proc (sy_procs s) cur)) kname (fd_at s pslot j) (sy_fs s);
                Some (if r < 0 then -1 else FD_BASE + of_nat j, set_fd pslot j fd (s\<lparr>sy_fs := fs\<rparr>))
              }))
      | _ \<Rightarrow> Some (-1, s))"

definition sys_close :: "u32 \<Rightarrow> sys \<Rightarrow> u32 \<times> sys" where
  "sys_close fd s =
     (case proc_slot (sy_procs s) of None \<Rightarrow> (-1, s)
      | Some pslot \<Rightarrow> (case fd_index fd pslot s of None \<Rightarrow> (-1, s) | Some idx \<Rightarrow> (0, close_fd pslot idx s)))"

definition pipe_fd :: "vfs_backend \<Rightarrow> nat \<Rightarrow> vfs_fd \<Rightarrow> vfs_fd" where
  "pipe_fd b i fd = fd\<lparr>fd_used := True, fd_backend := b, fd_first := of_nat i, fd_size := 0, fd_pos := 0\<rparr>"

definition u32_bytes :: "u32 \<Rightarrow> u8 list" where
  "u32_bytes v = [ucast v, ucast (drop_bit 8 v), ucast (drop_bit 16 v), ucast (drop_bit 24 v)]"

definition sys_pipe :: "u32 \<Rightarrow> sys \<Rightarrow> u32 \<times> sys" where
  "sys_pipe user_fds s =
     (case (current_process (sy_procs s), proc_slot (sy_procs s)) of
        (Some cur, Some pslot) \<Rightarrow>
          (case pipe_create (kf_pipes (sy_fs s)) of
             (None, ps) \<Rightarrow> (-1, set_pipes ps s)
           | (Some i, ps) \<Rightarrow>
               let s = set_pipes ps s in
               case free_fd (sy_fds s ! pslot) 0 of
                 None \<Rightarrow> (-1, set_pipes (pipe_release_write i (pipe_release_read i (kf_pipes (sy_fs s)))) s)
               | Some read_j \<Rightarrow>
                   let s = set_fd pslot read_j (pipe_fd VFS_PIPE_READ i (fd_at s pslot read_j)) s in
                   case free_fd (sy_fds s ! pslot) 0 of
                     None \<Rightarrow>
                       let s = close_fd pslot read_j s
                       in (-1, set_pipes (pipe_release_write i (kf_pipes (sy_fs s))) s)
                   | Some write_j \<Rightarrow>
                       let s = set_fd pslot write_j (pipe_fd VFS_PIPE_WRITE i (fd_at s pslot write_j)) s;
                           out = u32_bytes (FD_BASE + of_nat read_j) @ u32_bytes (FD_BASE + of_nat write_j)
                       in case copy_to_user (p_cr3 (proc (sy_procs s) cur)) user_fds out (sy_vm s) of (e, vm) \<Rightarrow>
                         let s = s\<lparr>sy_vm := vm\<rparr> in
                         if e < 0 then (-1, close_fd pslot write_j (close_fd pslot read_j s)) else (0, s))
      | _ \<Rightarrow> (-1, s))"

text \<open>\<open>sys_exit\<close> up to the switch to the scheduler.\<close>

definition sys_exit :: "sys \<Rightarrow> sys" where
  "sys_exit s =
     (let s = (case proc_slot (sy_procs s) of None \<Rightarrow> s
               | Some pslot \<Rightarrow> fold (\<lambda>j s. if fd_used (fd_at s pslot j) then close_fd pslot j s else s) [0 ..< FD_PER_PROC] s);
          k = (case current_process (sy_procs s) of None \<Rightarrow> sy_procs s | Some p \<Rightarrow> process_exit (Some p) (sy_procs s))
      in set_pipes ((kf_pipes (sy_fs s))\<lparr>procs := fst (scheduler_yield k)\<rparr>) s)"

text \<open>The part of \<open>sys_fork\<close> after the child exists: every descriptor of the parent is duplicated.\<close>

definition fork_fds :: "nat \<Rightarrow> nat \<Rightarrow> sys \<Rightarrow> sys" where
  "fork_fds parent_slot child_slot s =
     fold (\<lambda>j s. let fd = fd_at s parent_slot j in set_pipes (vfs_dup fd (kf_pipes (sy_fs s))) (set_fd child_slot j fd s))
       [0 ..< FD_PER_PROC] s"

text \<open>The part of \<open>sys_exec_pipe\<close> that gives the new process one of the caller's descriptors; the result is the
  descriptor number for its redirection, or \<open>None\<close> if there is no room.\<close>

definition seed_fd :: "nat \<Rightarrow> vfs_fd \<Rightarrow> sys \<Rightarrow> (u32 \<times> sys) option" where
  "seed_fd new_slot src s =
     (case free_fd (sy_fds s ! new_slot) 0 of None \<Rightarrow> None
      | Some j \<Rightarrow> Some (FD_BASE + of_nat j, set_pipes (vfs_dup src (kf_pipes (sy_fs s))) (set_fd new_slot j src s)))"

section \<open>Reading and writing\<close>

datatype sys_result = Ret u32 | Suspended nat

function read_loop :: "nat \<Rightarrow> u32 \<Rightarrow> u32 \<Rightarrow> nat \<Rightarrow> nat \<Rightarrow> nat \<Rightarrow> sys \<Rightarrow> (sys_result \<times> sys) option" where
  "read_loop xfer dir buf len pslot idx s =
     (if xfer < len then
        let want = (if len - xfer > SYS_CHUNK then SYS_CHUNK else len - xfer);
            failed = Ret (if xfer > 0 then of_nat xfer else -1)
        in case vfs_read (fd_at s pslot idx) (of_nat want) (sy_fs s) of
          None \<Rightarrow> None
        | Some (ReadBlock, fd, fs) \<Rightarrow> Some (Suspended xfer, set_fd pslot idx fd (s\<lparr>sy_fs := fs\<rparr>))
        | Some (ReadRet r bs, fd, fs) \<Rightarrow>
            let s = set_fd pslot idx fd (s\<lparr>sy_fs := fs\<rparr>) in
            if r < 0 then Some (failed, s)
            else if r = 0 then Some (Ret (of_nat xfer), s)
            else (case copy_to_user dir (buf + of_nat xfer) bs (sy_vm s) of (e, vm) \<Rightarrow>
              let s = s\<lparr>sy_vm := vm\<rparr> in
              if e < 0 then Some (failed, s)
              else if nat r < want then Some (Ret (of_nat (xfer + nat r)), s)
              else read_loop (xfer + nat r) dir buf len pslot idx s)
      else Some (Ret (of_nat xfer), s))"
  by pat_completeness auto
termination
  by (relation "measure (\<lambda>(xfer, dir, buf, len, pslot, idx, s). len - xfer)") auto

function write_loop :: "nat \<Rightarrow> u32 \<Rightarrow> u32 \<Rightarrow> nat \<Rightarrow> nat \<Rightarrow> nat \<Rightarrow> sys \<Rightarrow> (sys_result \<times> sys) option" where
  "write_loop xfer dir buf len pslot idx s =
     (if xfer < len then
        let want = (if len - xfer > SYS_CHUNK then SYS_CHUNK else len - xfer);
            failed = Ret (if xfer > 0 then of_nat xfer else -1)
        in case copy_from_user dir (buf + of_nat xfer) (of_nat want) (sy_vm s) of
          None \<Rightarrow> Some (failed, s)
        | Some kchunk \<Rightarrow>
            (case vfs_write (fd_at s pslot idx) kchunk 0 (sy_fs s) of
               None \<Rightarrow> None
             | Some (r, fd, fs) \<Rightarrow>
                 let s = set_fd pslot idx fd (s\<lparr>sy_fs := fs\<rparr>) in
                 case r of
                   WriteRet r \<Rightarrow> if r < 0 then Some (failed, s) else write_loop (xfer + want) dir buf len pslot idx s
                 | _ \<Rightarrow> Some (Suspended xfer, s))
      else Some (Ret (of_nat xfer), s))"
  by pat_completeness auto
termination
  by (relation "measure (\<lambda>(xfer, dir, buf, len, pslot, idx, s). len - xfer)") (auto simp: SYS_CHUNK_def)

declare read_loop.simps [simp del] write_loop.simps [simp del]

definition sys_write :: "u32 \<Rightarrow> u32 \<Rightarrow> u32 \<Rightarrow> sys \<Rightarrow> (sys_result \<times> sys) option" where
  "sys_write fd buf len s =
     (if buf = 0 then Some (Ret (-1), s) else if len = 0 then Some (Ret 0, s)
      else case current_process (sy_procs s) of
        None \<Rightarrow> Some (Ret (-1), s)
      | Some cur \<Rightarrow>
          let p = proc (sy_procs s) cur in
          if \<not> user_ptr_valid (p_cr3 p) buf len (sy_vm s) then Some (Ret (-1), s)
          else
            let fd = (if (fd = 1 \<or> fd = 2) \<and> p_stdout_redirect p \<ge> 0 then word_of_int (p_stdout_redirect p) else fd) in
            if fd \<ge> FD_BASE then
              (case proc_slot (sy_procs s) of None \<Rightarrow> Some (Ret (-1), s)
               | Some pslot \<Rightarrow> (case fd_index fd pslot s of None \<Rightarrow> Some (Ret (-1), s)
                   | Some idx \<Rightarrow> write_loop 0 (p_cr3 p) buf (unat len) pslot idx s))
            else Some (Ret len, s\<lparr>sy_vga := fold (\<lambda>i. vga_putchar (ram (sy_vm s) (user_kptr (p_cr3 p) (buf + of_nat i) (sy_vm s))))
                                                [0 ..< unat len] (sy_vga s)\<rparr>))"

text \<open>\<open>sys_read\<close> of a descriptor; a read of the keyboard is left to the caller (\<open>None\<close> inside).\<close>

definition sys_read_file :: "u32 \<Rightarrow> u32 \<Rightarrow> u32 \<Rightarrow> sys \<Rightarrow> (sys_result option \<times> sys) option" where
  "sys_read_file fd buf len s =
     (if buf = 0 \<or> len = 0 then Some (Some (Ret (-1)), s)
      else case current_process (sy_procs s) of
        None \<Rightarrow> Some (Some (Ret (-1)), s)
      | Some cur \<Rightarrow>
          let p = proc (sy_procs s) cur in
          if \<not> user_ptr_valid (p_cr3 p) buf len (sy_vm s) then Some (Some (Ret (-1)), s)
          else
            let fd = (if fd = 0 \<and> p_stdin_redirect p \<ge> 0 then word_of_int (p_stdin_redirect p) else fd) in
            if fd \<ge> FD_BASE then
              (case proc_slot (sy_procs s) of None \<Rightarrow> Some (Some (Ret (-1)), s)
               | Some pslot \<Rightarrow> (case fd_index fd pslot s of None \<Rightarrow> Some (Some (Ret (-1)), s)
                   | Some idx \<Rightarrow> map_option (\<lambda>(r, s). (Some r, s)) (read_loop 0 (p_cr3 p) buf (unat len) pslot idx s)))
            else if fd \<noteq> 0 then Some (Some (Ret (-1)), s) else Some (None, s))"

section \<open>Directories, arguments and modes\<close>

definition sys_mkdir :: "u32 \<Rightarrow> sys \<Rightarrow> (u32 \<times> sys) option" where
  "sys_mkdir user_name s =
     (case current_process (sy_procs s) of None \<Rightarrow> Some (-1, s)
      | Some cur \<Rightarrow>
          let p = proc (sy_procs s) cur in
          if user_name = 0 then Some (-1, s)
          else case copy_user_str (p_cr3 p) user_name USER_STR_MAX (sy_vm s) of
            None \<Rightarrow> Some (-1, s)
          | Some kname \<Rightarrow>
              if \<not> fat16_available (kf_fat (sy_fs s)) then Some (-1, s)
              else do {
                (r, fat) \<leftarrow> fat16_mkdir (p_cwd_cluster p) kname (kf_fat (sy_fs s));
                Some (if r = 0 then 0 else -1, s\<lparr>sy_fs := (sy_fs s)\<lparr>kf_fat := fat\<rparr>\<rparr>)
              })"

definition sys_chdir :: "u32 \<Rightarrow> sys \<Rightarrow> (u32 \<times> sys) option" where
  "sys_chdir user_path s =
     (case current_process (sy_procs s) of None \<Rightarrow> Some (-1, s)
      | Some cur \<Rightarrow>
          let p = proc (sy_procs s) cur in
          if user_path = 0 then Some (-1, s)
          else case copy_user_str (p_cr3 p) user_path USER_STR_MAX (sy_vm s) of
            None \<Rightarrow> Some (-1, s)
          | Some kpath \<Rightarrow>
              if \<not> fat16_available (kf_fat (sy_fs s)) then Some (-1, s)
              else do {
                (r, fat) \<leftarrow> fat16_resolve_dir (p_cwd_cluster p) kpath (kf_fat (sy_fs s));
                let s = s\<lparr>sy_fs := (sy_fs s)\<lparr>kf_fat := fat\<rparr>\<rparr>;
                Some (case r of
                    Resolved new_cluster \<Rightarrow>
                      (0, set_pipes ((kf_pipes (sy_fs s))\<lparr>procs := upd_proc cur (\<lambda>p. p\<lparr>p_cwd_cluster := new_cluster\<rparr>) (sy_procs s)\<rparr>) s)
                  | _ \<Rightarrow> (-1, s))
              })"

definition GETCWD_MAX :: u32 where "GETCWD_MAX = 128"

definition sys_getcwd :: "u32 \<Rightarrow> u32 \<Rightarrow> sys \<Rightarrow> (u32 \<times> sys) option" where
  "sys_getcwd user_buf len s =
     (if user_buf = 0 \<or> len = 0 then Some (-1, s)
      else case current_process (sy_procs s) of None \<Rightarrow> Some (-1, s)
      | Some cur \<Rightarrow>
          let p = proc (sy_procs s) cur in
          if \<not> user_ptr_valid (p_cr3 p) user_buf len (sy_vm s) then Some (-1, s)
          else do {
            (path, fat) \<leftarrow> fat16_get_path (p_cwd_cluster p) GETCWD_MAX (kf_fat (sy_fs s));
            let s = s\<lparr>sy_fs := (sy_fs s)\<lparr>kf_fat := fat\<rparr>\<rparr>;
            Some (case path of None \<Rightarrow> (-1, s)
              | Some kbuf \<Rightarrow>
                  if of_nat (length kbuf) + 1 > len then (-1, s)
                  else case copy_to_user (p_cr3 p) user_buf (kbuf @ [0]) (sy_vm s) of (e, vm) \<Rightarrow>
                    (if e < 0 then -1 else of_nat (length kbuf), s\<lparr>sy_vm := vm\<rparr>))
          })"

fun put_arg :: "u32 \<Rightarrow> u32 \<Rightarrow> nat \<Rightarrow> u8 list \<Rightarrow> nat \<Rightarrow> vmm \<Rightarrow> u32 \<times> vmm" where
  "put_arg dir user_buf room [] n vm =
     (of_nat n, let kp = user_kptr dir (user_buf + of_nat n) vm in if kp \<noteq> 0 then vm\<lparr>ram := (ram vm)(kp := 0)\<rparr> else vm)"
| "put_arg dir user_buf room (c # cs) n vm =
     (let kp = user_kptr dir (user_buf + of_nat n) vm in
      if n < room then if kp = 0 then (-1, vm) else put_arg dir user_buf room cs (n + 1) (vm\<lparr>ram := (ram vm)(kp := c)\<rparr>)
      else (of_nat n, if kp \<noteq> 0 then vm\<lparr>ram := (ram vm)(kp := 0)\<rparr> else vm))"

definition sys_getarg :: "u32 \<Rightarrow> u32 \<Rightarrow> sys \<Rightarrow> u32 \<times> sys" where
  "sys_getarg user_buf len s =
     (if user_buf = 0 \<or> len = 0 then (-1, s)
      else case current_process (sy_procs s) of None \<Rightarrow> (-1, s)
      | Some cur \<Rightarrow>
          (case put_arg (p_cr3 (proc (sy_procs s) cur)) user_buf (unat (len - 1)) (sy_exec_arg s) 0 (sy_vm s) of
             (r, vm) \<Rightarrow> (r, s\<lparr>sy_vm := vm\<rparr>)))"

definition sys_set_raw_mode :: "u32 \<Rightarrow> sys \<Rightarrow> u32 \<times> sys" where
  "sys_set_raw_mode enable s =
     (case current_process (sy_procs s) of None \<Rightarrow> (-1, s)
      | Some cur \<Rightarrow>
          let pid = sint (p_pid (proc (sy_procs s) cur)) in
          (0, if enable \<noteq> 0 then s\<lparr>sy_raw_mode_pid := pid\<rparr>
              else if sy_raw_mode_pid s = pid then s\<lparr>sy_raw_mode_pid := -1\<rparr> else s))"

end
