(* ===== verification/Files_Refs.thy ===== *)
theory Files_Refs
  imports Files
begin

text \<open>
  The reference counts of the pipes against the descriptor tables: every system call on descriptors keeps each
  pipe's counts equal to the number of open descriptors on its two ends.
\<close>

section \<open>Counting references\<close>

definition refers :: "vfs_backend \<Rightarrow> nat \<Rightarrow> vfs_fd \<Rightarrow> bool" where
  "refers b i fd \<longleftrightarrow> fd_used fd \<and> fd_backend fd = b \<and> unat (fd_first fd) = i"

definition count_refs :: "vfs_backend \<Rightarrow> nat \<Rightarrow> vfs_fd list list \<Rightarrow> nat" where
  "count_refs b i fds = sum_list (map (\<lambda>row. length (filter (refers b i) row)) fds)"

definition core :: "pipe \<Rightarrow> bool \<times> u32 \<times> u32" where
  "core p = (pp_used p, pp_read_refs p, pp_write_refs p)"

definition cores :: "pstate \<Rightarrow> (bool \<times> u32 \<times> u32) list" where
  "cores s = map core (pipe_table s)"

definition table_shape :: "vfs_fd list list \<Rightarrow> bool" where
  "table_shape fds \<longleftrightarrow> length fds = PROCESS_MAX \<and> list_all (\<lambda>row. length row = FD_PER_PROC) fds"

definition pipe_refs_ok :: "vfs_fd list list \<Rightarrow> nat \<Rightarrow> bool \<times> u32 \<times> u32 \<Rightarrow> bool" where
  "pipe_refs_ok fds i c =
     (case c of (u, r, w) \<Rightarrow> unat r = count_refs VFS_PIPE_READ i fds \<and> unat w = count_refs VFS_PIPE_WRITE i fds
        \<and> (u \<longleftrightarrow> r \<noteq> 0 \<or> w \<noteq> 0))"

definition refs_ok :: "vfs_fd list list \<Rightarrow> (bool \<times> u32 \<times> u32) list \<Rightarrow> bool" where
  "refs_ok fds cs \<longleftrightarrow> table_shape fds \<and> length cs = PIPE_MAX \<and> list_all (\<lambda>i. pipe_refs_ok fds i (cs ! i)) [0 ..< PIPE_MAX]"

lemma refs_ok_iff:
  "refs_ok fds cs \<longleftrightarrow> table_shape fds \<and> length cs = PIPE_MAX \<and> (\<forall>i < PIPE_MAX. pipe_refs_ok fds i (cs ! i))"
  by (auto simp: refs_ok_def list_all_iff)

lemma filter_update:
  "j < length row \<Longrightarrow> length (filter P (row[j := x])) + of_bool (P (row ! j)) = length (filter P row) + of_bool (P x)"
proof (induction row arbitrary: j)
  case (Cons y row)
  then show ?case by (cases j) auto
qed simp

definition put_fd :: "nat \<Rightarrow> nat \<Rightarrow> vfs_fd \<Rightarrow> vfs_fd list list \<Rightarrow> vfs_fd list list" where
  "put_fd a j fd fds = fds[a := (fds ! a)[j := fd]]"

lemma put_fd_shape [simp]: "table_shape fds \<Longrightarrow> table_shape (put_fd a j fd fds)"
  by (cases "a < length fds") (auto simp: table_shape_def put_fd_def list_all_length nth_list_update)

lemma shape_row: "table_shape fds \<Longrightarrow> a < PROCESS_MAX \<Longrightarrow> length (fds ! a) = FD_PER_PROC"
  by (auto simp: table_shape_def list_all_length)

lemma put_fd_at:
  assumes "table_shape fds" "a < PROCESS_MAX" "j < FD_PER_PROC"
  shows "put_fd a j fd fds ! b ! k = (if b = a \<and> k = j then fd else fds ! b ! k)"
  using assms shape_row[OF assms(1,2)] by (auto simp: put_fd_def table_shape_def nth_list_update)

lemma put_fd_twice: "table_shape fds \<Longrightarrow> a < PROCESS_MAX \<Longrightarrow> put_fd a j x (put_fd a j y fds) = put_fd a j x fds"
  by (simp add: put_fd_def table_shape_def)

lemma count_put:
  assumes "table_shape fds" "a < PROCESS_MAX" "j < FD_PER_PROC"
  shows "count_refs b i (put_fd a j fd fds) + of_bool (refers b i (fds ! a ! j)) = count_refs b i fds + of_bool (refers b i fd)"
proof -
  let ?c = "\<lambda>row. length (filter (refers b i) row)"
  have a: "a < length fds" using assms by (simp add: table_shape_def)
  have "count_refs b i (put_fd a j fd fds) = sum_list ((map ?c fds)[a := ?c ((fds ! a)[j := fd])])"
    by (simp add: count_refs_def put_fd_def map_update)
  also have "\<dots> = sum_list (map ?c fds) + ?c ((fds ! a)[j := fd]) - map ?c fds ! a"
    using a by (intro sum_list_update) simp
  also have "\<dots> = count_refs b i fds + ?c ((fds ! a)[j := fd]) - ?c (fds ! a)" using a by (simp add: count_refs_def)
  finally have eq: "count_refs b i (put_fd a j fd fds) = count_refs b i fds + ?c ((fds ! a)[j := fd]) - ?c (fds ! a)" .
  have "map ?c fds ! a \<le> sum_list (map ?c fds)" using a by (intro elem_le_sum_list) simp
  then have "?c (fds ! a) \<le> count_refs b i fds" using a by (simp add: count_refs_def)
  then show ?thesis using eq filter_update[of j "fds ! a" "refers b i" fd] assms shape_row[OF assms(1,2)] by simp
qed

lemma count_pos:
  assumes "table_shape fds" "a < PROCESS_MAX" "j < FD_PER_PROC" "refers b i (fds ! a ! j)"
  shows "0 < count_refs b i fds"
  using count_put[OF assms(1-3), of b i "(fds ! a ! j)\<lparr>fd_used := False\<rparr>"] assms(4) by (simp add: refers_def)

lemma count_bound:
  assumes "table_shape fds"
  shows "count_refs b i fds \<le> 128"
proof -
  have row: "length (filter (refers b i) row) \<le> FD_PER_PROC" if "row \<in> set fds" for row
    using assms that length_filter_le[of "refers b i" row] by (simp add: table_shape_def list_all_iff)
  have "count_refs b i fds \<le> sum_list (map (\<lambda>row. FD_PER_PROC) fds)"
    unfolding count_refs_def by (rule sum_list_mono) (rule row)
  also have "\<dots> = length fds * FD_PER_PROC" by (simp add: sum_list_triv)
  also have "\<dots> = 128" using assms by (simp add: table_shape_def PROCESS_MAX_def FD_PER_PROC_def)
  finally show ?thesis .
qed

lemma refs_ok_same:
  assumes "refs_ok fds cs" "a < PROCESS_MAX" "j < FD_PER_PROC"
    "\<And>i. refers VFS_PIPE_READ i fd = refers VFS_PIPE_READ i (fds ! a ! j)"
    "\<And>i. refers VFS_PIPE_WRITE i fd = refers VFS_PIPE_WRITE i (fds ! a ! j)"
  shows "refs_ok (put_fd a j fd fds) cs"
proof -
  have s: "table_shape fds" using assms(1) by (simp add: refs_ok_def)
  have "count_refs VFS_PIPE_READ i (put_fd a j fd fds) = count_refs VFS_PIPE_READ i fds"
    "count_refs VFS_PIPE_WRITE i (put_fd a j fd fds) = count_refs VFS_PIPE_WRITE i fds" for i
    using count_put[OF s assms(2,3), of VFS_PIPE_READ i fd] count_put[OF s assms(2,3), of VFS_PIPE_WRITE i fd] assms(4,5)[of i]
    by simp_all
  then show ?thesis using assms(1) by (simp add: refs_ok_def pipe_refs_ok_def)
qed

section \<open>What the pipe operations do to the counts\<close>

definition drop_read :: "bool \<times> u32 \<times> u32 \<Rightarrow> bool \<times> u32 \<times> u32" where
  "drop_read c = (case c of (u, r, w) \<Rightarrow> let r = (if r > 0 then r - 1 else r) in (u \<and> (r \<noteq> 0 \<or> w \<noteq> 0), r, w))"

definition drop_write :: "bool \<times> u32 \<times> u32 \<Rightarrow> bool \<times> u32 \<times> u32" where
  "drop_write c = (case c of (u, r, w) \<Rightarrow> let w = (if w > 0 then w - 1 else w) in (u \<and> (r \<noteq> 0 \<or> w \<noteq> 0), r, w))"

lemma length_cores [simp]: "length (cores s) = length (pipe_table s)"
  by (simp add: cores_def)

lemma cores_set_pipe [simp]: "cores (set_pipe i p s) = (cores s)[i := core p]"
  by (simp add: cores_def set_pipe_def map_update)

lemma cores_procs [simp]: "cores (s\<lparr>procs := k\<rparr>) = cores s"
  by (simp add: cores_def)

lemma cores_same: "core p = core (pipe_at s i) \<Longrightarrow> (cores s)[i := core p] = cores s"
  by (cases "i < length (pipe_table s)") (auto simp: cores_def list_update_same_conv list_update_beyond)

lemma cores_wake [simp]: "cores (wake_reader i s) = cores s" "cores (wake_writer i s) = cores s"
proof -
  have "core (pipe_at s i\<lparr>pp_read_waiter := None\<rparr>) = core (pipe_at s i)" "core (pipe_at s i\<lparr>pp_write_waiter := None\<rparr>) = core (pipe_at s i)"
    by (simp_all add: core_def)
  then show "cores (wake_reader i s) = cores s" "cores (wake_writer i s) = cores s"
    using cores_same by (auto simp: wake_reader_def wake_writer_def split: option.splits)
qed

lemma cores_nth: "i < length (pipe_table s) \<Longrightarrow> cores s ! i = core (pipe_at s i)"
  by (simp add: cores_def)

lemma cores_free:
  assumes "i < length (pipe_table s)"
  shows "cores (free_if_unreferenced i s) = (case cores s ! i of (u, r, w) \<Rightarrow> (cores s)[i := (u \<and> (r \<noteq> 0 \<or> w \<noteq> 0), r, w)])"
  using assms by (auto simp: free_if_unreferenced_def cores_nth core_def intro!: list_update_same_conv[THEN iffD2, symmetric])

lemma cores_release_read:
  assumes "i < PIPE_MAX" "length (pipe_table s) = PIPE_MAX"
  shows "cores (pipe_release_read i s) = (cores s)[i := drop_read (cores s ! i)]"
proof -
  let ?p = "pipe_at s i"
  let ?s1 = "if pp_read_refs ?p > 0 then set_pipe i (?p\<lparr>pp_read_refs := pp_read_refs ?p - 1\<rparr>) s else s"
  let ?s2 = "if pp_read_refs (pipe_at ?s1 i) = 0 then wake_writer i ?s1 else ?s1"
  have e: "pipe_release_read i s = free_if_unreferenced i ?s2" using assms(1) by (simp add: pipe_release_read_def Let_def)
  have c: "cores ?s2 = cores ?s1" by simp
  obtain u r w where k: "core ?p = (u, r, w)" by (cases "core ?p")
  then have c1: "cores ?s1 = (cores s)[i := (u, (if r > 0 then r - 1 else r), w)]" and k0: "cores s ! i = (u, r, w)"
    using assms cores_same[of ?p s i] by (auto simp: cores_nth core_def)
  have "length (pipe_table ?s2) = length (cores ?s2)" by (simp only: length_cores)
  also have "\<dots> = PIPE_MAX" unfolding c c1 using assms(2) by simp
  finally have l: "i < length (pipe_table ?s2)" using assms(1) by simp
  show ?thesis
    unfolding e cores_free[OF l] c c1 using assms k0 by (simp add: drop_read_def Let_def)
qed

lemma cores_release_write:
  assumes "i < PIPE_MAX" "length (pipe_table s) = PIPE_MAX"
  shows "cores (pipe_release_write i s) = (cores s)[i := drop_write (cores s ! i)]"
proof -
  let ?p = "pipe_at s i"
  let ?s1 = "if pp_write_refs ?p > 0 then set_pipe i (?p\<lparr>pp_write_refs := pp_write_refs ?p - 1\<rparr>) s else s"
  let ?s2 = "if pp_write_refs (pipe_at ?s1 i) = 0 then wake_reader i ?s1 else ?s1"
  have e: "pipe_release_write i s = free_if_unreferenced i ?s2" using assms(1) by (simp add: pipe_release_write_def Let_def)
  have c: "cores ?s2 = cores ?s1" by simp
  obtain u r w where k: "core ?p = (u, r, w)" by (cases "core ?p")
  then have c1: "cores ?s1 = (cores s)[i := (u, r, (if w > 0 then w - 1 else w))]" and k0: "cores s ! i = (u, r, w)"
    using assms cores_same[of ?p s i] by (auto simp: cores_nth core_def)
  have "length (pipe_table ?s2) = length (cores ?s2)" by (simp only: length_cores)
  also have "\<dots> = PIPE_MAX" unfolding c c1 using assms(2) by simp
  finally have l: "i < length (pipe_table ?s2)" using assms(1) by simp
  show ?thesis
    unfolding e cores_free[OF l] c c1 using assms k0 by (simp add: drop_write_def Let_def)
qed

lemma cores_add_ref:
  assumes "i < PIPE_MAX" "length (pipe_table s) = PIPE_MAX" "cores s ! i = (u, r, w)"
  shows "cores (pipe_add_read_ref i s) = (cores s)[i := (u, r + 1, w)]" "cores (pipe_add_write_ref i s) = (cores s)[i := (u, r, w + 1)]"
  using assms by (simp_all add: pipe_add_read_ref_def pipe_add_write_ref_def cores_nth core_def)


section \<open>Closing and duplicating\<close>

lemma refs_okD:
  assumes "refs_ok fds cs" "i < PIPE_MAX" "cs ! i = (u, r, w)"
  shows "unat r = count_refs VFS_PIPE_READ i fds" "unat w = count_refs VFS_PIPE_WRITE i fds" "u \<longleftrightarrow> r \<noteq> 0 \<or> w \<noteq> 0"
  using assms by (auto simp: refs_ok_iff pipe_refs_ok_def)

text \<open>One entry of the table and one pipe change together.\<close>

lemma refs_ok_update:
  assumes "refs_ok fds cs" "a < PROCESS_MAX" "j < FD_PER_PROC" "i < PIPE_MAX"
    "\<And>b k. k < PIPE_MAX \<Longrightarrow> b = VFS_PIPE_READ \<or> b = VFS_PIPE_WRITE \<Longrightarrow> k \<noteq> i \<Longrightarrow> refers b k fd = refers b k (fds ! a ! j)"
    "pipe_refs_ok (put_fd a j fd fds) i c"
  shows "refs_ok (put_fd a j fd fds) (cs[i := c])"
proof -
  have s: "table_shape fds" "length cs = PIPE_MAX" using assms(1) by (simp_all add: refs_ok_def)
  have "pipe_refs_ok (put_fd a j fd fds) k (cs[i := c] ! k)" if "k < PIPE_MAX" for k
  proof (cases "k = i")
    case True
    then show ?thesis using assms(4,6) s by simp
  next
    case False
    have "count_refs b k (put_fd a j fd fds) = count_refs b k fds" if "b = VFS_PIPE_READ \<or> b = VFS_PIPE_WRITE" for b
      using count_put[OF s(1) assms(2,3), of b k fd] assms(5)[OF \<open>k < PIPE_MAX\<close> that False] by simp
    then show ?thesis using assms(1) that False by (simp add: refs_ok_iff pipe_refs_ok_def)
  qed
  then show ?thesis using s by (simp add: refs_ok_iff)
qed

lemma refs_ok_other:
  assumes "refs_ok fds cs" "a < PROCESS_MAX" "j < FD_PER_PROC"
    "\<And>b k. k < PIPE_MAX \<Longrightarrow> b = VFS_PIPE_READ \<or> b = VFS_PIPE_WRITE \<Longrightarrow> refers b k fd = refers b k (fds ! a ! j)"
  shows "refs_ok (put_fd a j fd fds) cs"
proof -
  have s: "table_shape fds" using assms(1) by (simp add: refs_ok_def)
  have "count_refs b k (put_fd a j fd fds) = count_refs b k fds" if "k < PIPE_MAX" "b = VFS_PIPE_READ \<or> b = VFS_PIPE_WRITE" for b k
    using count_put[OF s assms(2,3), of b k fd] assms(4)[OF that] by simp
  then show ?thesis using assms(1) s by (simp add: refs_ok_iff pipe_refs_ok_def)
qed

lemma unat_dec: "0 < unat (r :: u32) \<Longrightarrow> r > 0 \<and> unat (r - 1) = unat r - 1"
  by (metis gr_implies_not0 unat_eq_zero unat_minus_one word_neq_0_conv)

lemma vfs_close_ok:
  assumes "refs_ok fds (cores ps)" "a < PROCESS_MAX" "j < FD_PER_PROC" "vfs_close (fds ! a ! j) ps = (fd, ps')"
  shows "refs_ok (put_fd a j fd fds) (cores ps')"
proof -
  let ?fd = "fds ! a ! j"
  let ?i = "unat (fd_first ?fd)"
  have s: "table_shape fds" "length (pipe_table ps) = PIPE_MAX" using assms(1) by (simp_all add: refs_ok_def)
  have fd: "fd = ?fd\<lparr>fd_used := False\<rparr>" "\<not> refers b k fd" for b k using assms(4) by (auto simp: vfs_close_def refers_def)
  have cnt: "count_refs b k (put_fd a j fd fds) = count_refs b k fds - of_bool (refers b k ?fd)" for b k
    using count_put[OF s(1) assms(2,3), of b k fd] fd(2) by simp
  obtain u r w where c: "cores ps ! ?i = (u, r, w)" by (cases "cores ps ! ?i")
  consider (r) "fd_used ?fd" "fd_backend ?fd = VFS_PIPE_READ" "?i < PIPE_MAX"
    | (w) "fd_used ?fd" "fd_backend ?fd = VFS_PIPE_WRITE" "?i < PIPE_MAX"
    | (n) "\<And>b k. k < PIPE_MAX \<Longrightarrow> b = VFS_PIPE_READ \<or> b = VFS_PIPE_WRITE \<Longrightarrow> \<not> refers b k ?fd" "cores ps' = cores ps"
  proof -
    have "cores ps' = cores ps" if "\<not> (fd_used ?fd \<and> (fd_backend ?fd = VFS_PIPE_READ \<or> fd_backend ?fd = VFS_PIPE_WRITE) \<and> ?i < PIPE_MAX)"
      using assms(4) that by (auto simp: vfs_close_def pipe_release_read_def pipe_release_write_def Let_def split: if_splits)
    then show thesis using that by (auto simp: refers_def)
  qed
  then show ?thesis
  proof cases
    case r
    note ok = refs_okD[OF assms(1) r(3) c]
    have pos: "0 < unat r" using count_pos[OF s(1) assms(2,3), of VFS_PIPE_READ ?i] r ok(1) by (simp add: refers_def)
    have ps': "cores ps' = (cores ps)[?i := drop_read (u, r, w)]"
      using assms(4) r cores_release_read[OF r(3) s(2)] c by (simp add: vfs_close_def)
    have "pipe_refs_ok (put_fd a j fd fds) ?i (drop_read (u, r, w))"
      using ok pos unat_dec[OF pos] r by (auto simp: pipe_refs_ok_def drop_read_def cnt refers_def)
    then show ?thesis unfolding ps' using assms(1-3) r fd(2) by (intro refs_ok_update) (auto simp: refers_def)
  next
    case w
    note ok = refs_okD[OF assms(1) w(3) c]
    have pos: "0 < unat w" using count_pos[OF s(1) assms(2,3), of VFS_PIPE_WRITE ?i] w ok(2) by (simp add: refers_def)
    have ps': "cores ps' = (cores ps)[?i := drop_write (u, r, w)]"
      using assms(4) w cores_release_write[OF w(3) s(2)] c by (simp add: vfs_close_def)
    have "pipe_refs_ok (put_fd a j fd fds) ?i (drop_write (u, r, w))"
      using ok pos unat_dec[OF pos] w by (auto simp: pipe_refs_ok_def drop_write_def cnt refers_def)
    then show ?thesis unfolding ps' using assms(1-3) w fd(2) by (intro refs_ok_update) (auto simp: refers_def)
  next
    case n
    then show ?thesis using assms(1-3) fd(2) by (simp add: refs_ok_other)
  qed
qed

lemma unat_inc: "unat (r :: u32) \<le> 128 \<Longrightarrow> unat (r + 1) = unat r + 1 \<and> r + 1 \<noteq> 0"
proof -
  assume "unat r \<le> 128"
  then have "unat (r + 1) = unat r + 1" by (simp add: unat_word_ariths)
  then show ?thesis by (metis add_is_0 unat_0 zero_neq_one)
qed

lemma vfs_dup_ok:
  assumes "refs_ok fds (cores ps)" "a < PROCESS_MAX" "j < FD_PER_PROC" "\<not> fd_used (fds ! a ! j)"
    "b < PROCESS_MAX" "l < FD_PER_PROC" "fd = fds ! b ! l"
  shows "refs_ok (put_fd a j fd fds) (cores (vfs_dup fd ps))"
proof -
  let ?i = "unat (fd_first fd)"
  have s: "table_shape fds" "length (pipe_table ps) = PIPE_MAX" using assms(1) by (simp_all add: refs_ok_def)
  have old: "\<not> refers c k (fds ! a ! j)" for c k using assms(4) by (simp add: refers_def)
  have cnt: "count_refs c k (put_fd a j fd fds) = count_refs c k fds + of_bool (refers c k fd)" for c k
    using count_put[OF s(1) assms(2,3), of c k fd] old by simp
  obtain u r w where c: "cores ps ! ?i = (u, r, w)" by (cases "cores ps ! ?i")
  consider (r) "fd_used fd" "fd_backend fd = VFS_PIPE_READ" "?i < PIPE_MAX"
    | (w) "fd_used fd" "fd_backend fd = VFS_PIPE_WRITE" "?i < PIPE_MAX"
    | (n) "\<And>b k. k < PIPE_MAX \<Longrightarrow> b = VFS_PIPE_READ \<or> b = VFS_PIPE_WRITE \<Longrightarrow> \<not> refers b k fd" "cores (vfs_dup fd ps) = cores ps"
  proof -
    have "cores (vfs_dup fd ps) = cores ps" if "\<not> (fd_used fd \<and> (fd_backend fd = VFS_PIPE_READ \<or> fd_backend fd = VFS_PIPE_WRITE) \<and> ?i < PIPE_MAX)"
      using that by (auto simp: vfs_dup_def pipe_add_read_ref_def pipe_add_write_ref_def Let_def)
    then show thesis using that by (auto simp: refers_def)
  qed
  then show ?thesis
  proof cases
    case r
    note ok = refs_okD[OF assms(1) r(3) c]
    have pos: "0 < unat r" using count_pos[OF s(1) assms(5,6), of VFS_PIPE_READ ?i] r ok(1) assms(7) by (simp add: refers_def)
    have "unat r \<le> 128" using ok(1) count_bound[OF s(1)] by simp
    note inc = unat_inc[OF this]
    have ps': "cores (vfs_dup fd ps) = (cores ps)[?i := (u, r + 1, w)]"
      using r cores_add_ref(1)[OF r(3) s(2) c] by (simp add: vfs_dup_def)
    have "pipe_refs_ok (put_fd a j fd fds) ?i (u, r + 1, w)"
      using ok pos inc r by (auto simp: pipe_refs_ok_def cnt refers_def)
    then show ?thesis unfolding ps' using assms(1-3) r old by (intro refs_ok_update) (auto simp: refers_def)
  next
    case w
    note ok = refs_okD[OF assms(1) w(3) c]
    have pos: "0 < unat w" using count_pos[OF s(1) assms(5,6), of VFS_PIPE_WRITE ?i] w ok(2) assms(7) by (simp add: refers_def)
    have "unat w \<le> 128" using ok(2) count_bound[OF s(1)] by simp
    note inc = unat_inc[OF this]
    have ps': "cores (vfs_dup fd ps) = (cores ps)[?i := (u, r, w + 1)]"
      using w cores_add_ref(2)[OF w(3) s(2) c] by (simp add: vfs_dup_def)
    have "pipe_refs_ok (put_fd a j fd fds) ?i (u, r, w + 1)"
      using ok pos inc w by (auto simp: pipe_refs_ok_def cnt refers_def)
    then show ?thesis unfolding ps' using assms(1-3) w old by (intro refs_ok_update) (auto simp: refers_def)
  next
    case n
    then show ?thesis using assms(1-3) old by (simp add: refs_ok_other)
  qed
qed

section \<open>The system calls\<close>

definition sys_refs_ok :: "sys \<Rightarrow> bool" where
  "sys_refs_ok s \<longleftrightarrow> refs_ok (sy_fds s) (cores (kf_pipes (sy_fs s)))"

named_theorems refs_intros

lemma set_fd_simps [simp]:
  "sy_fds (set_fd a j fd s) = put_fd a j fd (sy_fds s)" "sy_fs (set_fd a j fd s) = sy_fs s" "sy_vm (set_fd a j fd s) = sy_vm s"
  "sy_fds (set_pipes ps s) = sy_fds s" "kf_pipes (sy_fs (set_pipes ps s)) = ps" "sy_vm (set_pipes ps s) = sy_vm s"
  by (simp_all add: set_fd_def set_pipes_def put_fd_def)

lemma proc_slot_less: "proc_slot k = Some a \<Longrightarrow> a < PROCESS_MAX"
  by (auto simp: proc_slot_def find_Some_iff)

lemma fd_index_less: "fd_index fd a s = Some idx \<Longrightarrow> idx < FD_PER_PROC"
  by (auto simp: fd_index_def Let_def split: if_splits)

lemma free_fd_Some: "free_fd row k = Some j \<Longrightarrow> k \<le> j \<and> j < k + length row \<and> \<not> fd_used (row ! (j - k))"
proof (induction row arbitrary: k)
  case (Cons fd row)
  show ?case
  proof (cases "fd_used fd")
    case True
    then show ?thesis using Cons.IH[of "Suc k"] Cons.prems by (auto simp: nth_Cons' Suc_diff_le)
  qed (use Cons.prems in simp)
qed simp

lemma free_fd_slot:
  assumes "sys_refs_ok s" "a < PROCESS_MAX" "free_fd (sy_fds s ! a) 0 = Some j"
  shows "j < FD_PER_PROC" "\<not> fd_used (sy_fds s ! a ! j)"
  using free_fd_Some[OF assms(3)] shape_row[OF _ assms(2), of "sy_fds s"] assms(1)
  by (simp_all add: sys_refs_ok_def refs_ok_def)

lemma close_fd_ok [refs_intros]:
  "sys_refs_ok s \<Longrightarrow> a < PROCESS_MAX \<Longrightarrow> j < FD_PER_PROC \<Longrightarrow> sys_refs_ok (close_fd a j s)"
  unfolding sys_refs_ok_def close_fd_def by (auto split: prod.splits intro: vfs_close_ok)

lemma vfs_open_pipes:
  "vfs_open c name fd fs = Some (r, fd', fs') \<Longrightarrow> kf_pipes fs' = kf_pipes fs \<and> (fd' = fd \<or> fd_backend fd' \<in> {VFS_RAMFS, VFS_FAT16})"
  by (auto simp: vfs_open_def fat_fd_def vfs_store_final_component_def vfs_store_name_def Let_def
      split: option.splits if_splits resolved.splits prod.splits Option.bind_splits)

lemma vfs_create_pipes:
  assumes "vfs_create c name fd fs = Some (r, fd', fs')"
  shows "kf_pipes fs' = kf_pipes fs \<and> (fd' = fd \<or> fd_backend fd' \<in> {VFS_RAMFS, VFS_FAT16})"
proof -
  obtain r1 fd1 fs1 where o: "vfs_open c name fd fs = Some (r1, fd1, fs1)"
    using assms by (auto simp: vfs_create_def split: Option.bind_splits)
  show ?thesis
    using assms vfs_open_pipes[OF o] unfolding vfs_create_def o
    by (auto simp: fat_fd_def vfs_store_final_component_def vfs_store_name_def Let_def
        split: option.splits if_splits resolved.splits prod.splits Option.bind_splits)
qed

lemma new_fd_ok:
  assumes "sys_refs_ok s" "a < PROCESS_MAX" "j < FD_PER_PROC" "\<not> fd_used (sy_fds s ! a ! j)"
    "kf_pipes fs = kf_pipes (sy_fs s)" "fd = sy_fds s ! a ! j \<or> fd_backend fd \<in> {VFS_RAMFS, VFS_FAT16}"
  shows "sys_refs_ok (set_fd a j fd (s\<lparr>sy_fs := fs\<rparr>))"
  using assms refs_ok_same[of "sy_fds s" "cores (kf_pipes (sy_fs s))" a j fd]
  by (auto simp: sys_refs_ok_def refers_def)

lemma sys_open_ok [refs_intros]:
  assumes "sys_refs_ok s" "sys_open name s = Some (r, s')"
  shows "sys_refs_ok s'"
  using assms
  by (auto simp: sys_open_def intro!: new_fd_ok[OF assms(1)] dest!: vfs_open_pipes
      dest: proc_slot_less free_fd_slot[OF assms(1)]
      split: option.splits if_splits prod.splits Option.bind_splits)

lemma sys_create_ok [refs_intros]:
  assumes "sys_refs_ok s" "sys_create name s = Some (r, s')"
  shows "sys_refs_ok s'"
  using assms
  by (auto simp: sys_create_def intro!: new_fd_ok[OF assms(1)] dest!: vfs_create_pipes
      dest: proc_slot_less free_fd_slot[OF assms(1)]
      split: option.splits if_splits prod.splits Option.bind_splits)

lemma sys_close_ok [refs_intros]: "sys_refs_ok s \<Longrightarrow> sys_refs_ok (snd (sys_close fd s))"
  by (auto simp: sys_close_def intro: close_fd_ok dest: proc_slot_less fd_index_less split: option.splits)

lemma sys_exit_ok [refs_intros]:
  assumes "sys_refs_ok s"
  shows "sys_refs_ok (sys_exit s)"
proof -
  let ?close = "\<lambda>a j s. if fd_used (fd_at s a j) then close_fd a j s else s"
  have closed: "sys_refs_ok (fold (?close a) js s)" if "sys_refs_ok s" "a < PROCESS_MAX" "\<forall>j \<in> set js. j < FD_PER_PROC" for a js s
    using that by (induction js arbitrary: s) (auto intro: close_fd_ok)
  define s1 where "s1 = (case proc_slot (sy_procs s) of None \<Rightarrow> s | Some a \<Rightarrow> fold (?close a) [0 ..< FD_PER_PROC] s)"
  have "sys_refs_ok s1"
    unfolding s1_def using assms closed[OF assms] by (auto dest: proc_slot_less split: option.splits)
  moreover have "\<exists>k. sys_exit s = set_pipes ((kf_pipes (sy_fs s1))\<lparr>procs := k\<rparr>) s1"
    unfolding sys_exit_def s1_def[symmetric] Let_def by blast
  ultimately show ?thesis by (auto simp: sys_refs_ok_def)
qed

lemma seed_fd_ok [refs_intros]:
  assumes "sys_refs_ok s" "a < PROCESS_MAX" "b < PROCESS_MAX" "l < FD_PER_PROC"
    "seed_fd a (sy_fds s ! b ! l) s = Some (r, s')"
  shows "sys_refs_ok s'"
  using assms(5) free_fd_slot[OF assms(1,2)]
    vfs_dup_ok[of "sy_fds s" "kf_pipes (sy_fs s)" a _ b l "sy_fds s ! b ! l"] assms(1-4)
  by (auto simp: seed_fd_def sys_refs_ok_def split: option.splits)

lemma fork_fds_ok [refs_intros]:
  assumes "sys_refs_ok s" "a < PROCESS_MAX" "b < PROCESS_MAX" "a \<noteq> b" "list_all (\<lambda>fd. \<not> fd_used fd) (sy_fds s ! b)"
  shows "sys_refs_ok (fork_fds a b s)"
proof -
  let ?f = "\<lambda>j s. let fd = fd_at s a j in set_pipes (vfs_dup fd (kf_pipes (sy_fs s))) (set_fd b j fd s)"
  have shape: "table_shape (sy_fds s)" using assms(1) by (simp add: sys_refs_ok_def refs_ok_def)
  have "sys_refs_ok (fold ?f [0 ..< n] s) \<and> (\<forall>j. n \<le> j \<and> j < FD_PER_PROC \<longrightarrow> \<not> fd_used (sy_fds (fold ?f [0 ..< n] s) ! b ! j))"
    if "n \<le> FD_PER_PROC" for n
    using that
  proof (induction n)
    case 0
    then show ?case using assms(1,5) shape_row[OF shape assms(3)] by (auto simp: list_all_length)
  next
    case (Suc n)
    let ?s = "fold ?f [0 ..< n] s"
    have ih: "sys_refs_ok ?s" "\<And>j. n \<le> j \<Longrightarrow> j < FD_PER_PROC \<Longrightarrow> \<not> fd_used (sy_fds ?s ! b ! j)" using Suc by auto
    have sh: "table_shape (sy_fds ?s)" using ih(1) by (simp add: sys_refs_ok_def refs_ok_def)
    have "sys_refs_ok (?f n ?s)"
      using vfs_dup_ok[of "sy_fds ?s" "kf_pipes (sy_fs ?s)" b n a n "fd_at ?s a n"] ih Suc.prems assms(2,3)
      by (simp add: sys_refs_ok_def Let_def)
    moreover have "\<not> fd_used (sy_fds (?f n ?s) ! b ! j)" if "Suc n \<le> j" "j < FD_PER_PROC" for j
      using ih(2)[of j] that put_fd_at[OF sh assms(3), of n] Suc.prems by (simp add: Let_def)
    ultimately show ?case by simp
  qed
  from this[of FD_PER_PROC] show ?thesis by (simp add: fork_fds_def)
qed


lemma core_fields [simp]:
  "core (p\<lparr>pp_buf := x\<rparr>) = core p" "core (p\<lparr>pp_head := n\<rparr>) = core p" "core (p\<lparr>pp_tail := n\<rparr>) = core p"
  "core (p\<lparr>pp_count := n\<rparr>) = core p" "core (p\<lparr>pp_read_waiter := v\<rparr>) = core p" "core (p\<lparr>pp_write_waiter := v\<rparr>) = core p"
  by (simp_all add: core_def)

lemma core_pipe_put [simp]: "core (fold pipe_put bs p) = core p"
  by (induction bs arbitrary: p) (simp_all add: pipe_put_def)

lemma core_drain: "drain (\<lambda>p. pp_count p > 0) pipe_get n p = (bs, p') \<Longrightarrow> core p' = core p"
proof (induction n arbitrary: p bs)
  case (Suc n)
  show ?case
  proof (cases "0 < pp_count p")
    case True
    then obtain ys where "drain (\<lambda>p. pp_count p > 0) pipe_get n (snd (pipe_get p)) = (ys, p')"
      using Suc.prems by (auto simp: Let_def split: prod.splits)
    then have "core p' = core (snd (pipe_get p))" by (rule Suc.IH)
    then show ?thesis by (simp add: pipe_get_def)
  qed (use Suc.prems in simp)
qed simp

lemma cores_read_round: "pipe_read_round i n ps = (r, ps') \<Longrightarrow> cores ps' = cores ps"
  by (auto simp: pipe_read_round_def Let_def cores_same core_drain split: if_splits option.splits prod.splits)

lemma cores_write_round: "pipe_write_round i buf n ps = (r, ps') \<Longrightarrow> cores ps' = cores ps"
  by (auto simp: pipe_write_round_def Let_def cores_same split: if_splits option.splits prod.splits)

lemma io_fd_ok:
  assumes "sys_refs_ok s" "a < PROCESS_MAX" "j < FD_PER_PROC" "cores (kf_pipes fs) = cores (kf_pipes (sy_fs s))"
    "\<And>b i. b = VFS_PIPE_READ \<or> b = VFS_PIPE_WRITE \<Longrightarrow> refers b i fd = refers b i (sy_fds s ! a ! j)"
  shows "sys_refs_ok (set_fd a j fd (s\<lparr>sy_fs := fs\<rparr>))"
  using assms refs_ok_same[of "sy_fds s" "cores (kf_pipes (sy_fs s))" a j fd] by (simp add: sys_refs_ok_def)

lemma vfs_read_refs:
  assumes "vfs_read fd len fs = Some (r, fd', fs')"
  shows "cores (kf_pipes fs') = cores (kf_pipes fs) \<and> (\<forall>b i. refers b i fd' = refers b i fd)"
  using assms
  by (auto simp: vfs_read_def refers_def Let_def dest: cores_read_round
      split: if_splits vfs_backend.splits option.splits prod.splits Option.bind_splits)

lemma vfs_write_refs:
  assumes "vfs_write fd buf n fs = Some (r, fd', fs')"
  shows "cores (kf_pipes fs') = cores (kf_pipes fs) \<and> (\<forall>b i. b = VFS_PIPE_READ \<or> b = VFS_PIPE_WRITE \<longrightarrow> refers b i fd' = refers b i fd)"
  using assms
  by (auto simp: vfs_write_def refers_def Let_def dest: cores_write_round
      split: if_splits option.splits prod.splits Option.bind_splits)

lemma read_loop_ok:
  "sys_refs_ok s \<Longrightarrow> a < PROCESS_MAX \<Longrightarrow> j < FD_PER_PROC \<Longrightarrow> read_loop n dir buf len a j s = Some (r, s') \<Longrightarrow> sys_refs_ok s'"
proof (induction n dir buf len a j s rule: read_loop.induct)
  case (1 n dir buf len a j s)
  let ?want = "if len - n > SYS_CHUNK then SYS_CHUNK else len - n"
  have vm: "sys_refs_ok (s\<lparr>sy_vm := v\<rparr>) \<longleftrightarrow> sys_refs_ok s" for s v by (simp add: sys_refs_ok_def)
  show ?case
  proof (cases "n < len")
    case False
    then show ?thesis using "1.prems" by (simp add: read_loop.simps[of n])
  next
    case lt: True
    obtain res fd fs where v: "vfs_read (fd_at s a j) (of_nat ?want) (sy_fs s) = Some (res, fd, fs)"
      using "1.prems"(4) lt by (auto simp: read_loop.simps[of n] Let_def split: option.splits if_splits)
    let ?s = "set_fd a j fd (s\<lparr>sy_fs := fs\<rparr>)"
    have ok: "sys_refs_ok ?s" using vfs_read_refs[OF v] "1.prems"(1-3) by (intro io_fd_ok) auto
    show ?thesis
    proof (cases res)
      case ReadBlock
      then show ?thesis using "1.prems"(4) lt v ok by (simp add: read_loop.simps[of n] Let_def split: if_splits)
    next
      case (ReadRet m bs)
      obtain e vm' where c: "copy_to_user dir (buf + of_nat n) bs (sy_vm ?s) = (e, vm')" by fastforce
      note ih = "1.IH"[OF lt refl refl v refl ReadRet refl refl _ _ c[symmetric] refl]
      have "read_loop n dir buf len a j s =
          (let failed = Ret (if n > 0 then of_nat n else -1) in
           if m < 0 then Some (failed, ?s) else if m = 0 then Some (Ret (of_nat n), ?s)
           else if e < 0 then Some (failed, ?s\<lparr>sy_vm := vm'\<rparr>)
           else if nat m < ?want then Some (Ret (of_nat (n + nat m)), ?s\<lparr>sy_vm := vm'\<rparr>)
           else read_loop (n + nat m) dir buf len a j (?s\<lparr>sy_vm := vm'\<rparr>))"
        using lt v ReadRet c by (subst read_loop.simps) (simp add: Let_def)
      then show ?thesis using "1.prems" ok ih vm by (auto simp: Let_def split: if_splits)
    qed
  qed
qed

lemma write_loop_ok:
  "sys_refs_ok s \<Longrightarrow> a < PROCESS_MAX \<Longrightarrow> j < FD_PER_PROC \<Longrightarrow> write_loop n dir buf len a j s = Some (r, s') \<Longrightarrow> sys_refs_ok s'"
proof (induction n dir buf len a j s rule: write_loop.induct)
  case (1 n dir buf len a j s)
  let ?want = "if len - n > SYS_CHUNK then SYS_CHUNK else len - n"
  show ?case
  proof (cases "n < len \<and> copy_from_user dir (buf + of_nat n) (of_nat ?want) (sy_vm s) \<noteq> None")
    case False
    then show ?thesis using "1.prems" by (auto simp: write_loop.simps[of n] Let_def split: if_splits)
  next
    case True
    then obtain kchunk where lt: "n < len" and k: "copy_from_user dir (buf + of_nat n) (of_nat ?want) (sy_vm s) = Some kchunk" by blast
    obtain res fd fs where v: "vfs_write (fd_at s a j) kchunk 0 (sy_fs s) = Some (res, fd, fs)"
      using "1.prems"(4) lt k by (auto simp: write_loop.simps[of n] Let_def split: option.splits if_splits)
    let ?s = "set_fd a j fd (s\<lparr>sy_fs := fs\<rparr>)"
    have ok: "sys_refs_ok ?s" using vfs_write_refs[OF v] "1.prems"(1-3) by (intro io_fd_ok) auto
    have eq: "write_loop n dir buf len a j s = (case res of
        WriteRet m \<Rightarrow> if m < 0 then Some (Ret (if n > 0 then of_nat n else -1), ?s) else write_loop (n + ?want) dir buf len a j ?s
      | _ \<Rightarrow> Some (Suspended n, ?s))"
      using lt k v by (subst write_loop.simps) (simp add: Let_def)
    show ?thesis
    proof (cases res)
      case (WriteRet m)
      note ih = "1.IH"[OF lt refl refl k v refl refl refl WriteRet]
      then show ?thesis using "1.prems" ok WriteRet unfolding eq by (auto split: if_splits)
    qed (use "1.prems" ok eq in auto)
  qed
qed

lemma vga_refs [simp]: "sys_refs_ok (s\<lparr>sy_vga := v\<rparr>) = sys_refs_ok s" "sys_refs_ok (s\<lparr>sy_vm := m\<rparr>) = sys_refs_ok s"
  by (simp_all add: sys_refs_ok_def)

lemma sys_write_ok [refs_intros]:
  assumes "sys_refs_ok s" "sys_write fd buf len s = Some (r, s')"
  shows "sys_refs_ok s'"
  using assms
  by (auto simp: sys_write_def Let_def dest: proc_slot_less fd_index_less write_loop_ok
      split: if_splits option.splits)

lemma sys_read_file_ok [refs_intros]:
  assumes "sys_refs_ok s" "sys_read_file fd buf len s = Some (r, s')"
  shows "sys_refs_ok s'"
  using assms
  by (auto simp: sys_read_file_def Let_def dest: proc_slot_less fd_index_less read_loop_ok
      split: if_splits option.splits)

text \<open>A fresh pipe has no descriptor; its two references belong to the descriptors about to be opened.\<close>

lemma pipe_create_fresh:
  assumes "refs_ok fds (cores ps)" "pipe_create ps = (Some i, ps')"
  shows "i < PIPE_MAX" "cores ps' = (cores ps)[i := (True, 1, 1)]" "cores ps ! i = (False, 0, 0)"
    "count_refs VFS_PIPE_READ i fds = 0" "count_refs VFS_PIPE_WRITE i fds = 0"
proof -
  have len: "length (pipe_table ps) = PIPE_MAX" using assms(1) by (simp add: refs_ok_def)
  have sc: "scan_pipe (pipe_table ps) 0 = Some i" using assms(2) by (auto simp: pipe_create_def split: option.splits)
  show i: "i < PIPE_MAX" using scan_pipe_Some[OF sc] len by simp
  show "cores ps' = (cores ps)[i := (True, 1, 1)]" using assms(2) sc by (auto simp: pipe_create_def core_def)
  obtain r w where c: "cores ps ! i = (False, r, w)"
    using scan_pipe_Some[OF sc] i len by (auto simp: cores_nth core_def)
  note ok = refs_okD[OF assms(1) i c]
  then show "cores ps ! i = (False, 0, 0)" using c by simp
  show "count_refs VFS_PIPE_READ i fds = 0" "count_refs VFS_PIPE_WRITE i fds = 0" using ok by (auto simp flip: ok(1,2))
qed

lemma release_fresh:
  assumes "i < PIPE_MAX" "length (pipe_table ps) = PIPE_MAX" "cores ps = cs[i := (True, 1, 1)]" "cs ! i = (False, 0, 0)"
  shows "cores (pipe_release_write i (pipe_release_read i ps)) = cs"
proof -
  have len: "length cs = PIPE_MAX" using arg_cong[OF assms(3), of length] assms(2) by simp
  have r: "cores (pipe_release_read i ps) = cs[i := (True, 0, 1)]"
    using cores_release_read[OF assms(1,2)] assms(1,3) len by (simp add: drop_read_def)
  then have "length (pipe_table (pipe_release_read i ps)) = PIPE_MAX" using len length_cores[of "pipe_release_read i ps"] by simp
  from cores_release_write[OF assms(1) this] have "cores (pipe_release_write i (pipe_release_read i ps)) = cs[i := (False, 0, 0)]"
    using r assms(1) len by (simp add: drop_write_def)
  then show ?thesis using assms(4) by (metis list_update_id)
qed

lemma refers_pipe_fd:
  assumes "i < PIPE_MAX"
  shows "refers b k (pipe_fd b' i fd) \<longleftrightarrow> b = b' \<and> k = i"
proof -
  have "unat (of_nat i :: u32) = i" using assms by (simp add: PIPE_MAX_def unat_of_nat take_bit_eq_mod)
  then show ?thesis by (auto simp: refers_def pipe_fd_def)
qed

lemma sys_pipe_both:
  assumes "refs_ok fds cs" "i < PIPE_MAX" "cs ! i = (False, 0, 0)" "a < PROCESS_MAX" "j < FD_PER_PROC" "l < FD_PER_PROC" "j \<noteq> l"
    "\<not> fd_used (fds ! a ! j)" "\<not> fd_used (fds ! a ! l)"
  shows "refs_ok (put_fd a l (pipe_fd VFS_PIPE_WRITE i d) (put_fd a j (pipe_fd VFS_PIPE_READ i e) fds)) (cs[i := (True, 1, 1)])"
proof -
  let ?f1 = "put_fd a j (pipe_fd VFS_PIPE_READ i e) fds"
  let ?f2 = "put_fd a l (pipe_fd VFS_PIPE_WRITE i d) ?f1"
  have sh: "table_shape fds" "table_shape ?f1" "table_shape ?f2" using assms(1) by (simp_all add: refs_ok_def)
  have f1: "?f1 ! a ! l = fds ! a ! l" using put_fd_at[OF sh(1) assms(4,5)] assms(7) by simp
  have c: "count_refs b k ?f2 = count_refs b k fds + of_bool (b = VFS_PIPE_READ \<and> k = i) + of_bool (b = VFS_PIPE_WRITE \<and> k = i)" for b k
    using count_put[OF sh(1) assms(4,5), of b k "pipe_fd VFS_PIPE_READ i e"] count_put[OF sh(2) assms(4,6), of b k "pipe_fd VFS_PIPE_WRITE i d"]
      assms(8,9) unfolding f1 refers_pipe_fd[OF assms(2)] by (simp add: refers_def)
  note z = refs_okD[OF assms(1,2,3)]
  have "pipe_refs_ok ?f2 k (cs[i := (True, 1, 1)] ! k)" if "k < PIPE_MAX" for k
    using assms(1) that z by (cases "k = i") (auto simp: refs_ok_iff pipe_refs_ok_def c)
  then show ?thesis using assms(1) sh by (simp add: refs_ok_iff)
qed

lemma sys_pipe_ok [refs_intros]:
  assumes "sys_refs_ok s"
  shows "sys_refs_ok (snd (sys_pipe user_fds s))"
proof (cases "\<exists>cur a i ps. current_process (sy_procs s) = Some cur \<and> proc_slot (sy_procs s) = Some a \<and> pipe_create (kf_pipes (sy_fs s)) = (Some i, ps)")
  case False
  then show ?thesis using assms
    by (auto simp: sys_pipe_def pipe_create_def sys_refs_ok_def split: option.splits prod.splits)
next
  case True
  then obtain cur a i ps where g: "current_process (sy_procs s) = Some cur" "proc_slot (sy_procs s) = Some a"
      "pipe_create (kf_pipes (sy_fs s)) = (Some i, ps)" by blast
  have a: "a < PROCESS_MAX" using g(2) by (rule proc_slot_less)
  let ?fds = "sy_fds s" and ?cs = "cores (kf_pipes (sy_fs s))"
  have ok: "refs_ok ?fds ?cs" using assms by (simp add: sys_refs_ok_def)
  note fresh = pipe_create_fresh[OF ok g(3)]
  have sh: "table_shape ?fds" using ok by (simp add: refs_ok_def)
  have len: "length (pipe_table ps) = PIPE_MAX" using ok arg_cong[OF fresh(2), of length] by (simp add: refs_ok_def)
  show ?thesis
  proof (cases "free_fd (?fds ! a) 0")
    case None
    then have "snd (sys_pipe user_fds s) = set_pipes (pipe_release_write i (pipe_release_read i ps)) (set_pipes ps s)"
      by (simp add: sys_pipe_def g Let_def)
    then show ?thesis using release_fresh[OF fresh(1) len fresh(2,3)] ok by (simp add: sys_refs_ok_def)
  next
    case (Some j)
    have j: "j < FD_PER_PROC" "\<not> fd_used (?fds ! a ! j)" using free_fd_slot[OF assms a Some] by auto
    let ?s1 = "set_fd a j (pipe_fd VFS_PIPE_READ i (fd_at s a j)) (set_pipes ps s)"
    have f1: "fd_at ?s1 a k = (if k = j then pipe_fd VFS_PIPE_READ i (fd_at s a j) else fd_at s a k)" for k
      using put_fd_at[OF sh a j(1)] by simp
    show ?thesis
    proof (cases "free_fd (sy_fds ?s1 ! a) 0")
      case None
      have cl: "kf_pipes (sy_fs (close_fd a j ?s1)) = pipe_release_read i ps"
          "sy_fds (close_fd a j ?s1) = put_fd a j ((pipe_fd VFS_PIPE_READ i (fd_at s a j))\<lparr>fd_used := False\<rparr>) ?fds"
        using f1[of j] fresh(1) put_fd_twice[OF sh a]
        by (simp_all add: close_fd_def vfs_close_def pipe_fd_def PIPE_MAX_def unat_of_nat take_bit_eq_mod)
      have "refs_ok (sy_fds (close_fd a j ?s1)) ?cs"
        unfolding cl using ok a j by (intro refs_ok_same) (auto simp: refers_def)
      then show ?thesis using None Some release_fresh[OF fresh(1) len fresh(2,3)] cl
        by (simp add: sys_pipe_def g Let_def sys_refs_ok_def)
    next
      case w: (Some l)
      have "l < FD_PER_PROC \<and> \<not> fd_used (fd_at ?s1 a l)"
        using free_fd_Some[OF w] shape_row[OF put_fd_shape[OF sh] a] by simp
      then have l: "l < FD_PER_PROC" "l \<noteq> j" "\<not> fd_used (?fds ! a ! l)" using f1[of l] by (auto simp: pipe_fd_def split: if_splits)
      let ?s2 = "set_fd a l (pipe_fd VFS_PIPE_WRITE i (fd_at ?s1 a l)) ?s1"
      have ok2: "sys_refs_ok ?s2"
        using sys_pipe_both[OF ok fresh(1,3) a j(1) l(1) _ j(2) l(3)] l(2) fresh(2) by (simp add: sys_refs_ok_def)
      obtain e vm where cp: "copy_to_user (p_cr3 (proc (sy_procs ?s2) cur)) user_fds
          (u32_bytes (FD_BASE + of_nat j) @ u32_bytes (FD_BASE + of_nat l)) (sy_vm ?s2) = (e, vm)" by fastforce
      have "snd (sys_pipe user_fds s) =
          (if e < 0 then close_fd a l (close_fd a j (?s2\<lparr>sy_vm := vm\<rparr>)) else ?s2\<lparr>sy_vm := vm\<rparr>)"
        using cp w Some by (simp add: sys_pipe_def g Let_def)
      then show ?thesis using ok2 a j(1) l(1) by (simp add: close_fd_ok)
    qed
  qed
qed

section \<open>Every history of descriptor calls\<close>

text \<open>A step is one call of the running process, or the part of fork or of a pipeline launch that copies
  descriptors into the table row of a process slot whose descriptors are all closed.\<close>

inductive fd_step :: "sys \<Rightarrow> sys \<Rightarrow> bool" where
  open_step: "sys_open name s = Some (r, s') \<Longrightarrow> fd_step s s'"
| create_step: "sys_create name s = Some (r, s') \<Longrightarrow> fd_step s s'"
| close_step: "fd_step s (snd (sys_close fd s))"
| pipe_step: "fd_step s (snd (sys_pipe user_fds s))"
| read_step: "sys_read_file fd buf len s = Some (q, s') \<Longrightarrow> fd_step s s'"
| write_step: "sys_write fd buf len s = Some (q', s') \<Longrightarrow> fd_step s s'"
| exit_step: "fd_step s (sys_exit s)"
| fork_step: "a < PROCESS_MAX \<Longrightarrow> b < PROCESS_MAX \<Longrightarrow> a \<noteq> b \<Longrightarrow> list_all (\<lambda>fd. \<not> fd_used fd) (sy_fds s ! b) \<Longrightarrow>
    fd_step s (fork_fds a b s)"
| seed_step: "a < PROCESS_MAX \<Longrightarrow> b < PROCESS_MAX \<Longrightarrow> l < FD_PER_PROC \<Longrightarrow>
    seed_fd a (sy_fds s ! b ! l) s = Some (n, s') \<Longrightarrow> fd_step s s'"


text \<open>Process 0 with both ends of pipe 0 open; it forks process 1, then closes its read end.\<close>

definition shared_pipe :: sys where
  "shared_pipe = \<lparr>
     sy_fds = ([pipe_fd VFS_PIPE_READ 0 closed_fd, pipe_fd VFS_PIPE_WRITE 0 closed_fd] @ replicate 6 closed_fd) # replicate 15 (replicate 8 closed_fd),
     sy_fs = \<lparr>kf_ram = ramfs_none, kf_fat = undefined,
       kf_pipes = \<lparr>pipe_table = zero_pipe\<lparr>pp_used := True, pp_read_refs := 1, pp_write_refs := 1\<rparr> # replicate 7 zero_pipe,
                   procs = (boot_kproc 0)\<lparr>current_process := Some 0\<rparr>\<rparr>\<rparr>,
     sy_vm = undefined, sy_vga = undefined, sy_exec_arg = [], sy_raw_mode_pid = -1\<rparr>"

lemma shared_pipe_ok: "sys_refs_ok shared_pipe"
  by (simp add: sys_refs_ok_def shared_pipe_def refs_ok_def table_shape_def pipe_refs_ok_def count_refs_def cores_def core_def
      refers_def pipe_fd_def closed_fd_def zero_pipe_def PROCESS_MAX_def FD_PER_PROC_def PIPE_MAX_def upt_rec eval_nat_numeral)


end
