(* ===== verification/Spec2Isabelle.thy ===== *)
theory Spec2Isabelle
  imports Pmm Pipe Crash Fat16_Props Usermem Heap_Ops Userlib Keyboard Files_Refs
begin

text \<open>
  NullOS is a small operating system for 32-bit x86: a kernel (src/kernel), a user library and programs
  (src/user), and a safe mode entered after repeated failures. This library models the kernel's components
  and the user library as executable HOL functions and proves what makes them correct.

  \<^bold>\<open>Conventions.\<close> C structs and the file-scope variables of a component are records; machine integers are
  words of their width (\<open>u8\<close>, \<open>u16\<close>, \<open>u32\<close>, \<open>u64\<close>), indices that provably never wrap are \<open>nat\<close>. Physical
  memory is a byte for every 32-bit address and \<open>uint32_t\<close> accesses are little-endian (Prelude). A buffer
  whose bounds matter is a function from indices, so that a write outside it would be visible. The disk is a
  list of sectors with an oracle that decides the outcome of each transfer: success, failure, or a write
  reported as failed after it reached the disk. Process pointers are slot indices, C strings are byte lists
  without the terminator. Code that runs with interrupts off is one step of the model; a blocking loop is
  modelled by its interrupt-off rounds. Errors are the source's return codes, or \<open>None\<close> where the source
  blocks or C leaves the behaviour undefined. Every loop is a terminating function, except the walks of
  chains that corrupt data could make cyclic, which are \<open>partial_function (option)\<close> and are proved to return.
  There is no fuel.

  \<^bold>\<open>Memory.\<close> Pmm models memory/pmm.c (bitmap, counters, allocation, release, marking, initialisation from the
  boot memory map) and proves that allocation refines the contract of Allocator, that initialisation never
  hands out reserved memory, and that the counters stay exact. Vmm models memory/vmm.c with directories and
  tables as words in memory: mapping a user page changes the translation of that page alone, in that
  directory alone, and a new directory shares exactly the kernel's identity map. Usermem models the user
  pointer checks and copies of syscall.c. Heap, Heap_List and Heap_Ops model memory/heap.c: the block list in
  memory and what splitting, taking, searching and merging do to it.

  \<^bold>\<open>Processes.\<close> Process models process.c, scheduler.c, the tick of timer.c and the wait and kill calls of
  syscall.c: every operation keeps the table well formed, the round robin reaches every ready process, the
  initial stack of a process is what the context switch pops, and exit wakes the waiters. Pipe models pipe.c:
  the reader sees the writer's bytes in order, no wake-up is lost, and the last release frees the pipe. Fifo
  holds the queue interface that Pipe and Keyboard implement; Keyboard models keyboard.c and proves that
  reading returns what was typed.

  \<^bold>\<open>Storage.\<close> Disk models the sector interface of hal.c. Bootcfg models bootcfg.c, a key=value store in one
  sector, as a refinement of an association list. Crash models crashdump.c, the boot decision of main.c and
  the reboot of safemode.c: a crash record survives until it is acknowledged, repeated failures enter safe
  mode, and the cycle ends. Fat16 models fs/fat16.c; Fat16_Table, Fat16_File, Fat16_Write and Fat16_Dir hold
  its lemmas and Fat16_Props its properties: allocation and release of chains, reading, writing and reading
  back, insertion and lookup of directory entries, 8.3 names.

  \<^bold>\<open>Text.\<close> Console models drivers/vga.c with the serial mirror of serial.c and proves that output stays on the
  screen. Stdio models user/lib/nosstdio.c (the printf family) and Userlib the memory, string and number
  routines of user/lib/nullos.c: bounded formatting, lossless staging, overlapping moves, and the agreement
  of the four decimal printers of the system.

  \<^bold>\<open>Not modelled.\<close> The assembly (boot, context switch, interrupt stubs, system call entry) and the
  boot loader's files, since their meaning is that of the processor: a context switch is the boundary between
  two steps, and the stack it pops is checked on the model of the spawn. Port I/O and its waiting loops (ATA,
  PIC, PIT, UART, PCI configuration space, the reset paths): what they deliver is an argument or an oracle. The
  interactive programs (user/shell.c, user/selftest.c, the test programs) only print and call the system. The
  message tables (messages.c) are data. There is no TLB and one processor.
\<close>

end
